(* ===== verification/Prelude.thy ===== *)
theory Prelude
  imports Main "HOL-Library.Word"
begin

text \<open>
  What every component shares: the failures of the program
  (\<^verbatim>\<open>include/ametsuchi/exception.h\<close> and the standard exceptions the code throws), the two
  result disciplines the models use, the arithmetic of \<^verbatim>\<open>size_t\<close>, and the lemma collections
  that carry the component proofs.
\<close>

section \<open>Failures\<close>

text \<open>The two enumerations of \<^verbatim>\<open>exception.h\<close>, in the order the source has them.\<close>

datatype invalid_transaction =
    PEER_EXISTS
  | PEER_NOT_FOUND
  | ASSET_EXISTS
  | ASSET_NOT_FOUND
  | ACCOUNT_EXISTS
  | ACCOUNT_NOT_FOUND
  | NOT_ENOUGH_ASSETS
  | WRONG_COMMAND

datatype internal_error = FATAL | NOT_IMPLEMENTED

text \<open>
  Everything that can end an operation early: the two enumerations above, an
  \<^verbatim>\<open>exception::Exception\<close> with its message, a \<open>Literal\<close> that is thrown itself (a
  \<^verbatim>\<open>const char*\<close>), the standard exceptions, an \<^verbatim>\<open>assert\<close> that
  fails, and \<open>Undefined\<close>: the C++ standard gives the operation no meaning (an access outside
  an allocation, a read of a cell that was never written, a division by zero, a shift by the
  width of the operand or more).  \<open>Diverges\<close> is the value of an operation that never returns.
\<close>

datatype error =
    Exception string
  | Literal string
  | InvalidTransaction invalid_transaction
  | InternalError internal_error
  | Bad_Alloc
  | Bad_Exception
  | Out_Of_Range
  | Assert_Failed
  | Undefined
  | Diverges

section \<open>Results\<close>

named_theorems result_simps \<open>unfolding of the two result disciplines\<close>

text \<open>A pure operation returns an \<open>error + 'a\<close>; \<open>bindR\<close> stops at the first error.\<close>

definition bindR :: "error + 'a \<Rightarrow> ('a \<Rightarrow> error + 'b) \<Rightarrow> error + 'b" where
  "bindR m f = (case m of Inl e \<Rightarrow> Inl e | Inr x \<Rightarrow> f x)"

lemma bindR_Inl [simp]: "bindR (Inl e) f = Inl e"
  by (simp add: bindR_def)

lemma bindR_Inr [simp]: "bindR (Inr x) f = f x"
  by (simp add: bindR_def)

lemma bindR_eq_Inr_iff: "bindR m f = Inr y \<longleftrightarrow> (\<exists>x. m = Inr x \<and> f x = Inr y)"
  by (cases m) auto

lemma bindR_assoc: "bindR (bindR m f) g = bindR m (\<lambda>x. bindR (f x) g)"
  by (cases m) auto

text \<open>A loop that applies a fallible operation to every element in turn.\<close>

fun foldR :: "('a \<Rightarrow> 's \<Rightarrow> error + 's) \<Rightarrow> 'a list \<Rightarrow> 's \<Rightarrow> error + 's" where
  "foldR f [] s = Inr s"
| "foldR f (x # xs) s = bindR (f x s) (foldR f xs)"

lemma foldR_append: "foldR f (xs @ ys) s = bindR (foldR f xs s) (foldR f ys)"
  by (induction xs arbitrary: s) (simp_all add: bindR_def split: sum.split)

text \<open>
  An operation on a state returns a result and the state it leaves.  A C++ exception does not
  undo what was written before it, so the state is there on the error branch too.
\<close>

type_synonym ('s, 'a) op = "'s \<Rightarrow> (error + 'a) \<times> 's"

definition returnS :: "'a \<Rightarrow> ('s, 'a) op" where
  "returnS x s = (Inr x, s)"

definition throwS :: "error \<Rightarrow> ('s, 'a) op" where
  "throwS e s = (Inl e, s)"

definition bindS :: "('s, 'a) op \<Rightarrow> ('a \<Rightarrow> ('s, 'b) op) \<Rightarrow> ('s, 'b) op" where
  "bindS m f s = (case m s of (Inl e, t) \<Rightarrow> (Inl e, t) | (Inr x, t) \<Rightarrow> f x t)"

definition getS :: "('s, 's) op" where
  "getS s = (Inr s, s)"

definition modifyS :: "('s \<Rightarrow> 's) \<Rightarrow> ('s, unit) op" where
  "modifyS f s = (Inr (), f s)"

text \<open>An assertion of the source (the project's default build type keeps them).\<close>

definition assertS :: "bool \<Rightarrow> ('s, unit) op" where
  "assertS b = (if b then returnS () else throwS Assert_Failed)"

declare returnS_def [result_simps] throwS_def [result_simps] getS_def [result_simps]
  modifyS_def [result_simps] assertS_def [result_simps]

lemma bindS_Inr: "m s = (Inr x, t) \<Longrightarrow> bindS m f s = f x t"
  by (simp add: bindS_def)

lemma bindS_Inl: "m s = (Inl e, t) \<Longrightarrow> bindS m f s = (Inl e, t)"
  by (simp add: bindS_def)

lemma bindS_eq_Inr_iff:
  "bindS m f s = (Inr y, u) \<longleftrightarrow> (\<exists>x t. m s = (Inr x, t) \<and> f x t = (Inr y, u))"
  by (auto simp: bindS_def split: prod.splits sum.splits)

lemma bindS_eq_Inl_iff:
  "bindS m f s = (Inl e, u) \<longleftrightarrow>
     m s = (Inl e, u) \<or> (\<exists>x t. m s = (Inr x, t) \<and> f x t = (Inl e, u))"
  by (auto simp: bindS_def split: prod.splits sum.splits)

lemma bindS_assoc: "bindS (bindS m f) g = bindS m (\<lambda>x. bindS (f x) g)"
  by (simp add: bindS_def fun_eq_iff split: prod.split sum.split)

text \<open>
  A run that can only fail with a fatal error of the database: \<open>A\<close> holds of the state it leaves
  in any case, \<open>Q\<close> of its result and that state if it succeeds.
\<close>

definition runs :: "('s, 'a) op \<Rightarrow> 's \<Rightarrow> ('s \<Rightarrow> bool) \<Rightarrow> ('a \<Rightarrow> 's \<Rightarrow> bool) \<Rightarrow> bool" where
  "runs m s A Q \<longleftrightarrow> (case m s of
       (Inl err, t) \<Rightarrow> err = InternalError FATAL \<and> A t
     | (Inr x, t) \<Rightarrow> A t \<and> Q x t)"

lemma runs_bind:
  assumes "runs m s A Q" and "\<And>x t. A t \<Longrightarrow> Q x t \<Longrightarrow> runs (f x) t A R"
  shows "runs (bindS m f) s A R"
proof -
  obtain r t where r: "m s = (r, t)" by (metis prod.exhaust)
  show ?thesis using assms(1) assms(2) [of t] r by (cases r) (auto simp: runs_def bindS_def)
qed

lemma runs_iff:
  "runs m s A Q \<longleftrightarrow> (\<exists>r t. m s = (r, t) \<and> A t
     \<and> (r = Inl (InternalError FATAL) \<or> (\<exists>x. r = Inr x \<and> Q x t)))"
  by (auto simp: runs_def split: prod.splits sum.splits)

lemma runs_weaken: "runs m s A Q \<Longrightarrow> (\<And>x t. A t \<Longrightarrow> Q x t \<Longrightarrow> Q' x t) \<Longrightarrow> runs m s A Q'"
  by (auto simp: runs_def split: prod.splits sum.splits)

lemma runs_return [simp]: "runs (returnS x) s A Q \<longleftrightarrow> A s \<and> Q x s"
  by (simp add: runs_def result_simps)

lemma runs_get [simp]: "runs getS s A Q \<longleftrightarrow> A s \<and> Q s s"
  by (simp add: runs_def result_simps)

lemma runs_modify [simp]: "runs (modifyS f) s A Q \<longleftrightarrow> A (f s) \<and> Q () (f s)"
  by (simp add: runs_def result_simps)

lemma runs_assert [simp]: "runs (assertS b) s A Q \<longleftrightarrow> b \<and> A s \<and> Q () s"
  by (simp add: runs_def result_simps)

section \<open>The type size_t\<close>

text \<open>
  Indices and counts are of type \<^verbatim>\<open>size_t\<close>, 64 bits wide on the platforms the build targets.
  They are natural numbers below \<open>2 ^ 64\<close> here, because they index HOL lists, and every
  operation that can leave the range has its wrap-around written out.
\<close>

named_theorems size_t_simps \<open>size_t operations that stay in range\<close>

definition SIZE_MOD :: nat where
  "SIZE_MOD = 2 ^ 64"

definition sz_add :: "nat \<Rightarrow> nat \<Rightarrow> nat" where
  "sz_add a b = (a + b) mod SIZE_MOD"

definition sz_sub :: "nat \<Rightarrow> nat \<Rightarrow> nat" where
  "sz_sub a b = (a + (SIZE_MOD - b)) mod SIZE_MOD"

definition sz_mul :: "nat \<Rightarrow> nat \<Rightarrow> nat" where
  "sz_mul a b = (a * b) mod SIZE_MOD"

lemma SIZE_MOD_pos [simp]: "0 < SIZE_MOD"
  by (simp add: SIZE_MOD_def)

lemma sz_add_eq [size_t_simps]: "a + b < SIZE_MOD \<Longrightarrow> sz_add a b = a + b"
  by (simp add: sz_add_def)

lemma sz_mul_eq [size_t_simps]: "a * b < SIZE_MOD \<Longrightarrow> sz_mul a b = a * b"
  by (simp add: sz_mul_def)

lemma sz_sub_eq [size_t_simps]: "b \<le> a \<Longrightarrow> a < SIZE_MOD \<Longrightarrow> sz_sub a b = a - b"
proof -
  assume "b \<le> a" "a < SIZE_MOD"
  then have "(a + (SIZE_MOD - b)) mod SIZE_MOD = ((a - b) + SIZE_MOD) mod SIZE_MOD" by simp
  also have "\<dots> = a - b" using \<open>a < SIZE_MOD\<close> by simp
  finally show ?thesis by (simp only: sz_sub_def)
qed

lemma sz_sub_wrap: "a < b \<Longrightarrow> b \<le> SIZE_MOD \<Longrightarrow> sz_sub a b = SIZE_MOD - (b - a)"
  by (simp add: sz_sub_def)

lemma sz_bounds [simp]: "sz_add a b < SIZE_MOD" "sz_sub a b < SIZE_MOD" "sz_mul a b < SIZE_MOD"
  by (simp_all add: sz_add_def sz_sub_def sz_mul_def)

section \<open>Lists\<close>

text \<open>The last \<open>n\<close> elements of a list, in order.\<close>

definition lastn :: "nat \<Rightarrow> 'a list \<Rightarrow> 'a list" where
  "lastn n xs = drop (length xs - n) xs"

lemma length_lastn [simp]: "length (lastn n xs) = min n (length xs)"
  by (simp add: lastn_def)

lemma lastn_all: "length xs \<le> n \<Longrightarrow> lastn n xs = xs"
  by (simp add: lastn_def)

lemma last_lastn: "0 < n \<Longrightarrow> xs \<noteq> [] \<Longrightarrow> last (lastn n xs) = last xs"
  by (simp add: lastn_def last_drop)

lemma lastn_append_one: "0 < n \<Longrightarrow> lastn n (lastn n xs @ [x]) = lastn n (xs @ [x])"
proof (cases "length xs \<le> n")
  case False
  then have "Suc (length xs) - n = Suc (length xs - n)" by simp
  with False show ?thesis by (simp add: lastn_def)
qed (simp add: lastn_all)

lemma lastn_append_lastn: "lastn n (lastn n xs @ ys) = lastn n (xs @ ys)"
  by (cases "length xs \<le> n") (auto simp: lastn_def add.commute)

lemma take_lastn_append:
  "length ys \<le> n \<Longrightarrow>
     take (min n (length xs + length ys) - length ys) (lastn n (xs @ ys)) = lastn (n - length ys) xs"
  by (auto simp: lastn_def min_def)

lemma lastn_snoc [simp]: "lastn (Suc n) (xs @ [x]) = lastn n xs @ [x]"
  by (simp add: lastn_def)

lemma tl_lastn: "0 < n \<Longrightarrow> n \<le> length xs \<Longrightarrow> tl (lastn n xs) = lastn (n - 1) xs"
  by (simp add: lastn_def tl_drop drop_Suc [symmetric]) (simp add: Suc_diff_le)

lemma lastn_take:
  "n \<le> length xs \<Longrightarrow> m \<le> n \<Longrightarrow> take m (lastn n xs) = lastn m (take (length xs - n + m) xs)"
  by (simp add: lastn_def take_drop add.commute)

lemma nth_lastn: "i < min n (length xs) \<Longrightarrow> lastn n xs ! i = xs ! (length xs - min n (length xs) + i)"
  by (auto simp: lastn_def min_def)

text \<open>Insertion at a position.\<close>

definition ins_nth :: "nat \<Rightarrow> 'a \<Rightarrow> 'a list \<Rightarrow> 'a list" where
  "ins_nth n x xs = take n xs @ x # drop n xs"

lemma set_ins_nth [simp]: "set (ins_nth n x xs) = insert x (set xs)"
  unfolding ins_nth_def by (metis Un_insert_right append_take_drop_id list.simps(15) set_append)

lemma length_ins_nth [simp]: "length (ins_nth n x xs) = Suc (length xs)"
  by (simp add: ins_nth_def)

lemma ins_nth_at_end [simp]: "ins_nth (length xs) x xs = xs @ [x]"
  by (simp add: ins_nth_def)

lemma filter_ins_nth: "\<not> P x \<Longrightarrow> filter P (ins_nth n x xs) = filter P xs"
  unfolding ins_nth_def by (metis append_take_drop_id filter.simps(2) filter_append)

lemma distinct_ins_nth: "distinct (ins_nth n x xs) \<longleftrightarrow> x \<notin> set xs \<and> distinct xs"
proof -
  have "distinct (ins_nth n x xs) \<longleftrightarrow> distinct (x # (take n xs @ drop n xs))"
    unfolding ins_nth_def by (auto simp del: append_take_drop_id)
  then show ?thesis by simp
qed

end
