(* ===== verification/Currency.thy ===== *)
theory Currency
  imports Prelude
begin

text \<open>
  The class \<^verbatim>\<open>Currency\<close> (\<^verbatim>\<open>include/ametsuchi/currency.h\<close>,
  \<^verbatim>\<open>src/ametsuchi/currency.cc\<close>): an amount in the smallest unit and a decimal precision.
  The fields are the source's, at their widths; \<^verbatim>\<open>+\<close> and \<^verbatim>\<open>-\<close> on \<^verbatim>\<open>uint64_t\<close> wrap,
  as word arithmetic does.
\<close>

record currency =
  cur_amount :: "64 word"
  cur_precision :: "8 word"
  cur_div :: "64 word"
  cur_integer :: "64 word"
  cur_fractional :: "64 word"

definition AMETSUCHI_MAX_PRECISION :: "8 word" where
  "AMETSUCHI_MAX_PRECISION = 18"

text \<open>The loop \<^verbatim>\<open>for (uint8_t i = 0; i < precision_; i++) div_ *= 10;\<close>\<close>

fun div_loop :: "nat \<Rightarrow> 64 word \<Rightarrow> 64 word" where
  "div_loop 0 d = d"
| "div_loop (Suc n) d = div_loop n (d * 10)"

definition mk_currency :: "64 word \<Rightarrow> 8 word \<Rightarrow> error + currency" where
  "mk_currency amount precision =
     (if AMETSUCHI_MAX_PRECISION < precision then Inl Bad_Alloc
      else
        (let d = div_loop (unat precision) 1
         in Inr \<lparr>cur_amount = amount, cur_precision = precision, cur_div = d,
                 cur_integer = amount div d, cur_fractional = amount mod d\<rparr>))"

definition get_amount :: "currency \<Rightarrow> 64 word" where
  "get_amount c = cur_amount c"

definition get_precision :: "currency \<Rightarrow> 8 word" where
  "get_precision c = cur_precision c"

definition currency_add :: "currency \<Rightarrow> currency \<Rightarrow> error + currency" where
  "currency_add c a = mk_currency (cur_amount c + cur_amount a) (cur_precision c)"

definition currency_sub :: "currency \<Rightarrow> currency \<Rightarrow> error + currency" where
  "currency_sub c a = mk_currency (cur_amount c - cur_amount a) (cur_precision c)"

definition currency_less :: "currency \<Rightarrow> currency \<Rightarrow> bool" where
  "currency_less c a \<longleftrightarrow>
     cur_integer c < cur_integer a \<or> (cur_integer c = cur_integer a \<and> cur_fractional c < cur_fractional a)"

definition currency_greater :: "currency \<Rightarrow> currency \<Rightarrow> bool" where
  "currency_greater c a \<longleftrightarrow>
     cur_integer c > cur_integer a \<or> (cur_integer c = cur_integer a \<and> cur_fractional c > cur_fractional a)"

definition currency_eq :: "currency \<Rightarrow> currency \<Rightarrow> bool" where
  "currency_eq c a \<longleftrightarrow> cur_integer c = cur_integer a \<and> cur_fractional c = cur_fractional a"

text \<open>\<^verbatim>\<open>std::to_string\<close> of an unsigned integer: decimal digits, no leading zero.\<close>

fun std_to_string :: "nat \<Rightarrow> string" where
  "std_to_string n =
     (if n < 10 then [char_of (48 + n)] else std_to_string (n div 10) @ [char_of (48 + n mod 10)])"

declare std_to_string.simps [simp del]

definition currency_to_string :: "currency \<Rightarrow> string" where
  "currency_to_string c =
     std_to_string (unat (cur_integer c)) @ ''.'' @ std_to_string (unat (cur_fractional c))"

section \<open>The divisor\<close>

lemma div_loop_mult: "div_loop n d = d * 10 ^ n"
  by (induction n arbitrary: d) (simp_all add: ac_simps)

lemma unat_ten_power: "n \<le> 18 \<Longrightarrow> unat ((10 :: 64 word) ^ n) = 10 ^ n"
proof (induction n)
  case (Suc n)
  have "(10 :: nat) ^ Suc n \<le> 10 ^ 18" using Suc.prems by (intro power_increasing) auto
  then have "(10 :: nat) * 10 ^ n < 2 ^ 64" by simp
  with Suc show ?case by (simp add: unat_word_ariths(2))
qed simp

definition currency_ok :: "currency \<Rightarrow> bool" where
  "currency_ok c \<longleftrightarrow> mk_currency (cur_amount c) (cur_precision c) = Inr c"

lemma mk_currency_eq_Inr_iff:
  "mk_currency a p = Inr c \<longleftrightarrow>
     p \<le> 18 \<and> c = \<lparr>cur_amount = a, cur_precision = p, cur_div = 10 ^ unat p,
       cur_integer = a div 10 ^ unat p, cur_fractional = a mod 10 ^ unat p\<rparr>"
  by (auto simp: mk_currency_def Let_def AMETSUCHI_MAX_PRECISION_def div_loop_mult leD)

lemma mk_currency_ok: "mk_currency a p = Inr c \<Longrightarrow> currency_ok c"
  by (auto simp: mk_currency_eq_Inr_iff currency_ok_def)

lemma mk_currency_fields:
  "mk_currency a p = Inr c \<Longrightarrow> cur_amount c = a \<and> cur_precision c = p \<and> p \<le> 18"
  by (auto simp: mk_currency_eq_Inr_iff)

lemma mk_currency_total: "p \<le> 18 \<Longrightarrow> \<exists>c. mk_currency a p = Inr c"
  by (simp add: mk_currency_eq_Inr_iff)

lemma unat_le_18: "(p :: 8 word) \<le> 18 \<longleftrightarrow> unat p \<le> 18"
  by (simp add: word_le_nat_alt)

lemma currency_ok_parts:
  assumes "currency_ok c"
  shows "unat (cur_precision c) \<le> 18"
    and "unat (cur_integer c) = unat (cur_amount c) div 10 ^ unat (cur_precision c)"
    and "unat (cur_fractional c) = unat (cur_amount c) mod 10 ^ unat (cur_precision c)"
proof -
  obtain p where c: "p \<le> 18" "cur_precision c = p"
    "cur_integer c = cur_amount c div 10 ^ unat p" "cur_fractional c = cur_amount c mod 10 ^ unat p"
    using assms unfolding currency_ok_def mk_currency_eq_Inr_iff
    by (metis select_convs(4,5))
  then show "unat (cur_precision c) \<le> 18" by (simp add: unat_le_18)
  then show "unat (cur_integer c) = unat (cur_amount c) div 10 ^ unat (cur_precision c)"
    and "unat (cur_fractional c) = unat (cur_amount c) mod 10 ^ unat (cur_precision c)"
    using c unat_ten_power by (simp_all add: unat_div unat_mod)
qed

lemma div_mod_less_iff:
  fixes a b d :: nat
  assumes "0 < d"
  shows "(a div d < b div d \<or> a div d = b div d \<and> a mod d < b mod d) \<longleftrightarrow> a < b"
proof -
  have "a < b" if "a div d < b div d"
    using that div_le_mono [of b a d] by (meson not_le)
  moreover have "a mod d < b mod d \<longleftrightarrow> a < b" if "a div d = b div d"
    using div_mult_mod_eq [of a d] div_mult_mod_eq [of b d] that
    by (metis add_less_cancel_left)
  moreover have "a div d \<le> b div d" if "a < b"
    using that by (simp add: div_le_mono)
  ultimately show ?thesis by (metis le_neq_implies_less)
qed

section \<open>Order and equality at one precision\<close>

lemma currency_less_iff:
  assumes "currency_ok c" "currency_ok a" "cur_precision c = cur_precision a"
  shows "currency_less c a \<longleftrightarrow> unat (cur_amount c) < unat (cur_amount a)"
  unfolding currency_less_def word_less_nat_alt word_unat_eq_iff
  by (simp add: currency_ok_parts [OF assms(1)] currency_ok_parts [OF assms(2)] assms(3)
      div_mod_less_iff)

lemma currency_greater_iff_less: "currency_greater c a \<longleftrightarrow> currency_less a c"
  by (auto simp: currency_greater_def currency_less_def)

lemma currency_eq_iff:
  assumes "currency_ok c" "currency_ok a" "cur_precision c = cur_precision a"
  shows "currency_eq c a \<longleftrightarrow> cur_amount c = cur_amount a"
  unfolding currency_eq_def word_unat_eq_iff
  by (simp add: currency_ok_parts [OF assms(1)] currency_ok_parts [OF assms(2)] assms(3))
     (metis div_mult_mod_eq)

section \<open>Sum and difference\<close>

lemma currency_add_total:
  assumes "currency_ok c"
  shows "\<exists>d. currency_add c a = Inr d \<and> currency_ok d \<and> cur_amount d = cur_amount c + cur_amount a
     \<and> cur_precision d = cur_precision c"
proof -
  have "cur_precision c \<le> 18" using currency_ok_parts(1) [OF assms] by (simp add: unat_le_18)
  then obtain d where "mk_currency (cur_amount c + cur_amount a) (cur_precision c) = Inr d"
    using mk_currency_total by blast
  then show ?thesis
    unfolding currency_add_def using mk_currency_ok mk_currency_fields by blast
qed

lemma currency_sub_total:
  assumes "currency_ok c"
  shows "\<exists>d. currency_sub c a = Inr d \<and> currency_ok d \<and> cur_amount d = cur_amount c - cur_amount a
     \<and> cur_precision d = cur_precision c"
proof -
  have "cur_precision c \<le> 18" using currency_ok_parts(1) [OF assms] by (simp add: unat_le_18)
  then obtain d where "mk_currency (cur_amount c - cur_amount a) (cur_precision c) = Inr d"
    using mk_currency_total by blast
  then show ?thesis
    unfolding currency_sub_def using mk_currency_ok mk_currency_fields by blast
qed

lemma unat_add_exact: "unat a + unat b < 2 ^ 64 \<Longrightarrow> unat (a + b :: 64 word) = unat a + unat b"
  by (simp add: unat_word_ariths(1))

lemma unat_sub_exact: "b \<le> a \<Longrightarrow> unat (a - b :: 64 word) = unat a - unat b"
  by (simp add: unat_sub_if' word_le_nat_alt)

section \<open>The printed form\<close>

lemma std_to_string_digits: "x \<in> set (std_to_string n) \<Longrightarrow> \<exists>d<10. x = char_of (48 + d :: nat)"
proof (induction n rule: std_to_string.induct)
  case (1 n)
  show ?case
  proof (cases "n < 10")
    case True
    with 1 show ?thesis by (auto simp: std_to_string.simps [of n])
  next
    case False
    with "1.prems" consider "x \<in> set (std_to_string (n div 10))" | "x = char_of (48 + n mod 10)"
      by (auto simp: std_to_string.simps [of n])
    then show ?thesis
      by cases (use 1 False in \<open>auto intro: exI [of _ "n mod 10"]\<close>)
  qed
qed

lemma dot_not_digit: "CHR ''.'' \<notin> set (std_to_string n)"
proof
  assume "CHR ''.'' \<in> set (std_to_string n)"
  then obtain d where "d < 10" "CHR ''.'' = char_of (48 + d :: nat)"
    using std_to_string_digits by blast
  then have "of_char (CHR ''.'') = (48 + d) mod (256 :: nat)" by (metis of_char_of)
  with \<open>d < 10\<close> show False by simp
qed

lemma std_to_string_nonempty [simp]: "std_to_string n \<noteq> []"
  by (subst std_to_string.simps) simp

text \<open>Reading it back: the value of a row of digits, and the two sides of the point.\<close>

definition digits_value :: "string \<Rightarrow> nat" where
  "digits_value s = foldl (\<lambda>n x. 10 * n + (of_char x - 48)) 0 s"

definition decimal_parts :: "string \<Rightarrow> string \<times> string" where
  "decimal_parts s = (takeWhile (\<lambda>x. x \<noteq> CHR ''.'') s, tl (dropWhile (\<lambda>x. x \<noteq> CHR ''.'') s))"

lemma foldl_digits: "foldl (\<lambda>n x. 10 * n + (of_char x - 48)) m s = m * 10 ^ length s + digits_value s"
proof (induction s rule: rev_induct)
  case (snoc x s)
  then show ?case by (simp add: digits_value_def algebra_simps)
qed (simp add: digits_value_def)

lemma digits_value_append: "digits_value (s @ t) = digits_value s * 10 ^ length t + digits_value t"
  using foldl_digits [of "digits_value s" t] by (simp add: digits_value_def)

lemma digits_value_to_string [simp]: "digits_value (std_to_string n) = n"
proof (induction n rule: std_to_string.induct)
  case (1 n)
  have d: "digits_value [char_of (48 + d)] = d" if "d < 10" for d :: nat
    using that by (simp add: digits_value_def)
  show ?case
  proof (cases "n < 10")
    case False
    have "digits_value (std_to_string n) = digits_value (std_to_string (n div 10)) * 10 + n mod 10"
      using False d [of "n mod 10"] by (simp add: std_to_string.simps [of n] digits_value_append)
    then show ?thesis using 1 False by simp
  qed (simp add: std_to_string.simps [of n] d)
qed

lemma decimal_parts_to_string:
  "decimal_parts (std_to_string a @ CHR ''.'' # s) = (std_to_string a, s)"
  using dot_not_digit [of a] by (auto simp: decimal_parts_def takeWhile_append dropWhile_append)

text \<open>The number of digits: there is no leading zero.\<close>

lemma std_to_string_upper: "n < 10 ^ length (std_to_string n)"
proof (induction n rule: std_to_string.induct)
  case (1 n)
  show ?case
  proof (cases "n < 10")
    case False
    then have "n div 10 < 10 ^ length (std_to_string (n div 10))" by (rule 1)
    then have "n < 10 ^ length (std_to_string (n div 10)) * 10" by (simp add: div_less_iff_less_mult)
    then show ?thesis using False by (simp add: std_to_string.simps [of n])
  qed (simp add: std_to_string.simps [of n])
qed

lemma std_to_string_lower: "0 < n \<Longrightarrow> 10 ^ (length (std_to_string n) - 1) \<le> n"
proof (induction n rule: std_to_string.induct)
  case (1 n)
  show ?case
  proof (cases "n < 10")
    case True
    then show ?thesis using 1 by (simp add: std_to_string.simps [of n])
  next
    case False
    let ?l = "length (std_to_string (n div 10))"
    have "0 < ?l" by simp
    have "10 ^ (?l - 1) \<le> n div 10" using 1(1) [OF False] False by simp
    then have "10 ^ (?l - 1) * 10 \<le> n" by (simp add: less_eq_div_iff_mult_less_eq)
    moreover have "(10 :: nat) ^ (?l - 1) * 10 = 10 ^ ?l"
      using \<open>0 < ?l\<close> by (metis Suc_diff_1 mult.commute power_Suc)
    ultimately show ?thesis using False by (simp add: std_to_string.simps [of n])
  qed
qed

lemma std_to_string_full:
  assumes "0 < n" and "n < 10 ^ p"
  shows "length (std_to_string n) = p \<longleftrightarrow> 10 ^ (p - 1) \<le> n"
proof
  assume "10 ^ (p - 1) \<le> n"
  then have "(10 :: nat) ^ (p - 1) < 10 ^ length (std_to_string n)"
    using std_to_string_upper [of n] by (rule le_less_trans)
  moreover have "(10 :: nat) ^ (length (std_to_string n) - 1) < 10 ^ p"
    using std_to_string_lower [OF assms(1)] assms(2) by (rule le_less_trans)
  ultimately have "p - 1 < length (std_to_string n)" "length (std_to_string n) - 1 < p" by simp_all
  then show "length (std_to_string n) = p" by linarith
qed (use std_to_string_lower [OF assms(1)] in auto)

section \<open>Properties\<close>

text \<open>
  C26: the constructor accepts exactly the precisions up to 18, throws \<^verbatim>\<open>bad_alloc\<close> on the
  others, and splits the amount into an integer and a fractional part that give it back: the
  divisor \<open>10 ^ p\<close> never overflows, and the fractional part stays below it.
\<close>

theorem currency_construction:
  "case mk_currency a p of
     Inl e \<Rightarrow> e = Bad_Alloc \<and> 18 < unat p
   | Inr c \<Rightarrow> unat p \<le> 18 \<and> get_amount c = a \<and> get_precision c = p
       \<and> unat (cur_integer c) * 10 ^ unat p + unat (cur_fractional c) = unat a
       \<and> unat (cur_fractional c) < 10 ^ unat p"
proof (cases "mk_currency a p")
  case (Inl e)
  then show ?thesis
    by (auto simp: mk_currency_def Let_def AMETSUCHI_MAX_PRECISION_def word_less_nat_alt
        split: if_splits)
next
  case (Inr c)
  note f = mk_currency_fields [OF Inr] and ok = currency_ok_parts [OF mk_currency_ok [OF Inr]]
  show ?thesis
    using f ok by (simp add: Inr get_amount_def get_precision_def div_mult_mod_eq)
qed

text \<open>
  C27: between two currencies of one precision, \<^verbatim>\<open><\<close>, \<^verbatim>\<open>>\<close> and \<^verbatim>\<open>==\<close>, which compare the
  integer and then the fractional parts, decide exactly the order of the amounts.
\<close>

theorem currency_order:
  assumes "currency_ok c" and "currency_ok a" and "get_precision c = get_precision a"
  shows "(currency_less c a \<longleftrightarrow> get_amount c < get_amount a)
    \<and> (currency_greater c a \<longleftrightarrow> get_amount a < get_amount c)
    \<and> (currency_eq c a \<longleftrightarrow> get_amount c = get_amount a)"
  using assms
  by (simp add: get_precision_def get_amount_def currency_less_iff currency_eq_iff
      currency_greater_iff_less word_less_nat_alt)

theorem currency_order_witness:
  "currency_less \<lparr>cur_amount = 1231, cur_precision = 2, cur_div = 100, cur_integer = 12,
       cur_fractional = 31\<rparr>
     \<lparr>cur_amount = 1234, cur_precision = 2, cur_div = 100, cur_integer = 12, cur_fractional = 34\<rparr>"
proof -
  let ?c = "\<lparr>cur_amount = 1231, cur_precision = 2, cur_div = 100, cur_integer = 12,
    cur_fractional = 31\<rparr> :: currency"
  let ?a = "\<lparr>cur_amount = 1234, cur_precision = 2, cur_div = 100, cur_integer = 12,
    cur_fractional = 34\<rparr> :: currency"
  have "currency_ok ?c" "currency_ok ?a"
    by (simp_all add: currency_ok_def mk_currency_eq_Inr_iff)
  then show ?thesis
    using currency_order [of ?c ?a] by (simp add: get_amount_def get_precision_def)
qed

text \<open>
  C28: on a constructed currency neither \<^verbatim>\<open>+\<close> nor \<^verbatim>\<open>-\<close> throws, both keep the left operand's
  precision, and the amounts are the exact sum when it fits 64 bits and the exact difference
  when the right operand is not larger; then \<open>(c + a) - a\<close> is \<open>c\<close> again, overflow or not.
\<close>

theorem currency_arithmetic:
  assumes "currency_ok c" and "currency_ok a"
  shows "\<exists>s d. currency_add c a = Inr s \<and> currency_sub c a = Inr d
    \<and> get_precision s = get_precision c \<and> get_precision d = get_precision c
    \<and> (unat (get_amount c) + unat (get_amount a) < 2 ^ 64 \<longrightarrow>
         unat (get_amount s) = unat (get_amount c) + unat (get_amount a))
    \<and> (get_amount a \<le> get_amount c \<longrightarrow>
         unat (get_amount d) = unat (get_amount c) - unat (get_amount a))
    \<and> currency_sub s a = Inr c"
proof -
  obtain s where s: "currency_add c a = Inr s" "currency_ok s"
    "cur_amount s = cur_amount c + cur_amount a" "cur_precision s = cur_precision c"
    using currency_add_total [OF assms(1)] by blast
  obtain d where d: "currency_sub c a = Inr d"
    "cur_amount d = cur_amount c - cur_amount a" "cur_precision d = cur_precision c"
    using currency_sub_total [OF assms(1)] by blast
  have "currency_sub s a = Inr c"
    using s assms(1) by (simp add: currency_sub_def currency_ok_def)
  with s d show ?thesis
    by (auto simp: get_amount_def get_precision_def unat_add_exact unat_sub_exact)
qed

theorem currency_arithmetic_witness:
  "\<exists>s d. currency_add \<lparr>cur_amount = 314, cur_precision = 2, cur_div = 100, cur_integer = 3,
       cur_fractional = 14\<rparr> \<lparr>cur_amount = 273, cur_precision = 2, cur_div = 100, cur_integer = 2,
       cur_fractional = 73\<rparr> = Inr s
     \<and> currency_sub \<lparr>cur_amount = 314, cur_precision = 2, cur_div = 100, cur_integer = 3,
       cur_fractional = 14\<rparr> \<lparr>cur_amount = 273, cur_precision = 2, cur_div = 100, cur_integer = 2,
       cur_fractional = 73\<rparr> = Inr d
     \<and> unat (get_amount s) = 587 \<and> unat (get_amount d) = 41"
proof -
  let ?c = "\<lparr>cur_amount = 314, cur_precision = 2, cur_div = 100, cur_integer = 3,
    cur_fractional = 14\<rparr> :: currency"
  let ?a = "\<lparr>cur_amount = 273, cur_precision = 2, cur_div = 100, cur_integer = 2,
    cur_fractional = 73\<rparr> :: currency"
  have "currency_ok ?c" "currency_ok ?a"
    by (simp_all add: currency_ok_def mk_currency_eq_Inr_iff)
  then show ?thesis
    using currency_arithmetic [of ?c ?a] by (auto simp: get_amount_def)
qed

text \<open>
  C29: what \<^verbatim>\<open>to_string\<close> prints.  The two rows of digits around its point, read as numbers, are
  the integer and the fractional part and give the amount back, at the precision it has.  Read as a
  decimal number the text is the value of the currency, \<open>a / 10 ^ p\<close>, exactly if the fractional
  part is 0 or has no leading zero: the fraction is not padded to \<open>p\<close> digits.
\<close>

theorem currency_to_string_value:
  assumes "mk_currency a p = Inr c" and "decimal_parts (currency_to_string c) = (i, f)"
  shows "digits_value i * 10 ^ unat p + digits_value f = unat (get_amount c)
    \<and> (digits_value (i @ f) * 10 ^ unat p = unat a * 10 ^ length f \<longleftrightarrow>
         unat a mod 10 ^ unat p = 0 \<or> 10 ^ (unat p - 1) \<le> unat a mod 10 ^ unat p)"
proof -
  note ok = currency_ok_parts [OF mk_currency_ok [OF assms(1)]] and fields = mk_currency_fields [OF assms(1)]
  define m n where "m = unat (cur_integer c)" and "n = unat (cur_fractional c)"
  have i: "i = std_to_string m" and f: "f = std_to_string n"
    using assms(2) by (simp_all add: currency_to_string_def decimal_parts_to_string m_def n_def)
  have n: "n = unat a mod 10 ^ unat p" and a: "m * 10 ^ unat p + n = unat a"
    using ok fields by (simp_all add: m_def n_def div_mult_mod_eq)
  have "n < 10 ^ unat p" by (simp add: n)
  then have full: "0 < n \<Longrightarrow> length f = unat p \<longleftrightarrow> 10 ^ (unat p - 1) \<le> n"
    unfolding f by (intro std_to_string_full)
  have "digits_value (i @ f) * 10 ^ unat p = unat a * 10 ^ length f
      \<longleftrightarrow> n * 10 ^ unat p = n * 10 ^ length f"
    unfolding a [symmetric] digits_value_append by (simp add: i f algebra_simps)
  also have "\<dots> \<longleftrightarrow> n = 0 \<or> length f = unat p" by auto
  also have "\<dots> \<longleftrightarrow> n = 0 \<or> 10 ^ (unat p - 1) \<le> n" using full by (cases "n = 0") auto
  finally show ?thesis using a fields unfolding n by (simp add: i f n get_amount_def)
qed

theorem currency_to_string_value_witness:
  "\<exists>c d. mk_currency 587 2 = Inr c \<and> currency_to_string c = ''5.87''
      \<and> digits_value ''5'' * 10 ^ 2 + digits_value ''87'' = unat (get_amount c)
    \<and> mk_currency 105 2 = Inr d \<and> currency_to_string d = ''1.5''
      \<and> digits_value ''15'' * 10 ^ 2 \<noteq> 105 * 10 ^ 1"
proof -
  let ?c = "\<lparr>cur_amount = 587, cur_precision = 2, cur_div = 100, cur_integer = 5,
    cur_fractional = 87\<rparr> :: currency"
  let ?d = "\<lparr>cur_amount = 105, cur_precision = 2, cur_div = 100, cur_integer = 1,
    cur_fractional = 5\<rparr> :: currency"
  have m: "mk_currency 587 2 = Inr ?c" "mk_currency 105 2 = Inr ?d" by (simp_all add: mk_currency_eq_Inr_iff)
  have t: "currency_to_string ?c = ''5.87''" "currency_to_string ?d = ''1.5''"
    by (simp_all add: currency_to_string_def std_to_string.simps [of 5] std_to_string.simps [of 87]
        std_to_string.simps [of 8] std_to_string.simps [of "Suc 0"] char_of_def bit_Suc_0_iff)
  have "decimal_parts ''5.87'' = (''5'', ''87'')" "decimal_parts ''1.5'' = (''1'', ''5'')"
    by (simp_all add: decimal_parts_def)
  with currency_to_string_value [OF m(1)] currency_to_string_value [OF m(2)] m t show ?thesis by simp
qed

text \<open>
  Across precisions none of this holds, because the operators ignore the precision of the
  right operand and the printed fraction is not padded: 1.5 (amount 15 at precision 1) and 1.05
  (amount 105 at precision 2) compare as equal and print as the same text, and subtracting the
  smaller value 1.05 from 1.5 wraps to an amount above \<open>1.8 * 10 ^ 19\<close>.
\<close>

theorem currency_mixed_precision:
  "\<exists>c a d. mk_currency 15 1 = Inr c \<and> mk_currency 105 2 = Inr a
    \<and> currency_eq c a \<and> \<not> currency_less c a \<and> currency_to_string c = currency_to_string a
    \<and> currency_sub c a = Inr d \<and> unat (get_amount d) = 2 ^ 64 - 90"
proof -
  let ?c = "\<lparr>cur_amount = 15, cur_precision = 1, cur_div = 10, cur_integer = 1,
    cur_fractional = 5\<rparr> :: currency"
  let ?a = "\<lparr>cur_amount = 105, cur_precision = 2, cur_div = 100, cur_integer = 1,
    cur_fractional = 5\<rparr> :: currency"
  have ca: "mk_currency 15 1 = Inr ?c" "mk_currency 105 2 = Inr ?a"
    by (simp_all add: mk_currency_eq_Inr_iff)
  obtain d where d: "currency_sub ?c ?a = Inr d" "cur_amount d = 15 - 105"
    using currency_sub_total [OF mk_currency_ok [OF ca(1)], of ?a] by auto
  have "unat (15 - 105 :: 64 word) = 2 ^ 64 - 90" by simp
  with ca d show ?thesis
    by (intro exI [of _ ?c] exI [of _ ?a] exI [of _ d])
       (simp add: currency_eq_def currency_less_def currency_to_string_def get_amount_def)
qed

end
