(* ===== verification/Circular_Stack.thy ===== *)
theory Circular_Stack
  imports Prelude
begin

text \<open>
  The class template \<^verbatim>\<open>CircularStack<T>\<close>
  (\<^verbatim>\<open>include/ametsuchi/merkle_tree/circular_stack.h\<close>): a ring buffer with the interface of a
  stack that forgets its oldest elements.  \<open>cs_v\<close> is the allocation: \<open>None\<close> is a cell that
  \<^verbatim>\<open>malloc\<close> or \<^verbatim>\<open>realloc\<close> returned and nothing has written, and the null pointer is the empty
  allocation, since every access through either has no meaning.  Allocation itself is taken to
  succeed.
\<close>

section \<open>State and operations\<close>

record 'a cstack =
  cs_v :: "'a option list"
  cs_cap :: nat
  cs_sz :: nat
  cs_i_end :: nat

definition cs_read :: "'a cstack \<Rightarrow> nat \<Rightarrow> error + 'a" where
  "cs_read cs i =
     (if i < length (cs_v cs)
      then (case cs_v cs ! i of None \<Rightarrow> Inl Undefined | Some x \<Rightarrow> Inr x)
      else Inl Undefined)"

definition cs_write :: "'a cstack \<Rightarrow> nat \<Rightarrow> 'a \<Rightarrow> error + 'a cstack" where
  "cs_write cs i x =
     (if i < length (cs_v cs) then Inr (cs\<lparr>cs_v := (cs_v cs)[i := Some x]\<rparr>) else Inl Undefined)"

definition cs_diff :: "'a cstack \<Rightarrow> nat \<Rightarrow> nat \<Rightarrow> nat" where
  "cs_diff cs p n = (if p < n then sz_sub (sz_add p (cs_cap cs)) n else sz_sub p n)"

definition cs_new :: "nat \<Rightarrow> error + 'a cstack" where
  "cs_new s =
     (if s = 0 then Inl (Exception ''Buffer size cannot be zero'')
      else Inr \<lparr>cs_v = replicate s None, cs_cap = s, cs_sz = 0, cs_i_end = 0\<rparr>)"

text \<open>The move constructor: the new object, and what it leaves of the old one.\<close>

definition cs_move :: "'a cstack \<Rightarrow> 'a cstack \<times> 'a cstack" where
  "cs_move cs = (cs, cs\<lparr>cs_v := []\<rparr>)"

definition cs_resize :: "nat \<Rightarrow> 'a cstack \<Rightarrow> 'a cstack" where
  "cs_resize s cs =
     cs\<lparr>cs_cap := s, cs_sz := min s (cs_sz cs),
        cs_v := take s (cs_v cs) @ replicate (s - length (cs_v cs)) None\<rparr>"

text \<open>Both overloads of \<^verbatim>\<open>push\<close> do the same to the buffer.\<close>

definition cs_push :: "'a \<Rightarrow> 'a cstack \<Rightarrow> error + 'a cstack" where
  "cs_push t cs =
     bindR (cs_write cs (cs_i_end cs) t) (\<lambda>cs1.
       if cs_cap cs = 0 then Inl Undefined
       else Inr (cs1\<lparr>cs_i_end := sz_add (cs_i_end cs) 1 mod cs_cap cs,
                     cs_sz := (if cs_sz cs < cs_cap cs then sz_add (cs_sz cs) 1 else cs_sz cs)\<rparr>))"

definition cs_pop :: "nat \<Rightarrow> 'a cstack \<Rightarrow> error + 'a cstack" where
  "cs_pop n cs =
     (let m = min (cs_sz cs) n
      in if cs_cap cs = 0 then Inl Undefined
         else Inr (cs\<lparr>cs_sz := sz_sub (cs_sz cs) m,
                      cs_i_end := sz_sub (sz_add (cs_i_end cs) (cs_cap cs)) m mod cs_cap cs\<rparr>))"

definition cs_front :: "'a cstack \<Rightarrow> error + 'a" where
  "cs_front cs =
     (if cs_sz cs = 0 then Inl (Exception ''Buffer accessing out of size'')
      else cs_read cs (cs_diff cs (cs_i_end cs) (cs_sz cs)))"

definition cs_back :: "'a cstack \<Rightarrow> error + 'a" where
  "cs_back cs =
     (if cs_sz cs = 0 then Inl (Exception ''Buffer accessing out of size'')
      else cs_read cs (cs_diff cs (cs_i_end cs) 1))"

definition cs_index :: "'a cstack \<Rightarrow> nat \<Rightarrow> error + 'a" where
  "cs_index cs s =
     (if cs_sz cs \<le> s then Inl (Exception ''Buffer accessing out of size'')
      else cs_read cs (cs_diff cs (cs_i_end cs) (sz_sub (cs_sz cs) s)))"

definition cs_size :: "'a cstack \<Rightarrow> nat" where
  "cs_size cs = cs_sz cs"

definition cs_capacity :: "'a cstack \<Rightarrow> nat" where
  "cs_capacity cs = cs_cap cs"

subsection \<open>The forward iterator\<close>

text \<open>
  A \<^verbatim>\<open>ForwardIter\<close> is its position; the stack it points into is an argument.  Two iterators
  into one buffer are equal when their positions are.
\<close>

definition cs_begin :: "'a cstack \<Rightarrow> nat" where
  "cs_begin cs = cs_diff cs (cs_i_end cs) (cs_sz cs)"

definition cs_end :: "'a cstack \<Rightarrow> nat" where
  "cs_end cs = cs_cap cs"

definition cs_last :: "'a cstack \<Rightarrow> nat" where
  "cs_last cs = cs_diff cs (cs_i_end cs) 1"

definition it_to_last :: "'a cstack \<Rightarrow> nat \<Rightarrow> nat" where
  "it_to_last cs pos = cs_diff cs (cs_i_end cs) 1"

definition pos_inc :: "'a cstack \<Rightarrow> nat \<Rightarrow> nat \<Rightarrow> nat" where
  "pos_inc cs pos t =
     (let t_end = (if cs_i_end cs \<le> sz_add (cs_i_end cs) pos then cs_sz cs else 0);
          n_pos = sz_add pos t
      in if t_end \<le> n_pos then cs_cap cs else n_pos mod cs_cap cs)"

definition it_eq :: "nat \<Rightarrow> nat \<Rightarrow> bool" where
  "it_eq pos pos' \<longleftrightarrow> pos = pos'"

definition it_next :: "'a cstack \<Rightarrow> nat \<Rightarrow> nat" where
  "it_next cs pos = pos_inc cs pos 1"

definition it_plus :: "'a cstack \<Rightarrow> nat \<Rightarrow> nat \<Rightarrow> nat" where
  "it_plus cs pos t = pos_inc cs pos t"

definition it_deref :: "'a cstack \<Rightarrow> nat \<Rightarrow> error + 'a" where
  "it_deref cs pos = cs_index cs pos"

definition it_index :: "'a cstack \<Rightarrow> nat \<Rightarrow> nat \<Rightarrow> error + 'a" where
  "it_index cs pos t = cs_index cs (pos_inc cs pos t)"

text \<open>
  The loop \<^verbatim>\<open>for (auto c = cs.begin(); c != cs.end(); ++c) f( *c )\<close>, as the list of what it
  reads.  The fuel bounds the number of rounds; \<open>cstack_iteration\<close> below shows that the size of
  the stack and two more is enough.
\<close>

fun cs_walk :: "nat \<Rightarrow> 'a cstack \<Rightarrow> nat \<Rightarrow> (error + 'a) list option" where
  "cs_walk 0 cs pos = None"
| "cs_walk (Suc fuel) cs pos =
     (if it_eq pos (cs_end cs) then Some []
      else map_option (\<lambda>xs. it_deref cs pos # xs) (cs_walk fuel cs (it_next cs pos)))"

section \<open>The stack as a list\<close>

definition slot :: "'a cstack \<Rightarrow> nat \<Rightarrow> nat" where
  "slot cs i = (cs_i_end cs + cs_cap cs - cs_sz cs + i) mod cs_cap cs"

text \<open>The elements, oldest first.\<close>

definition cs_list :: "'a cstack \<Rightarrow> 'a list" where
  "cs_list cs = map (\<lambda>i. the (cs_v cs ! slot cs i)) [0..<cs_sz cs]"

definition cs_ok :: "'a cstack \<Rightarrow> bool" where
  "cs_ok cs \<longleftrightarrow> 0 < cs_cap cs \<and> 2 * cs_cap cs < SIZE_MOD \<and> length (cs_v cs) = cs_cap cs
     \<and> cs_sz cs \<le> cs_cap cs \<and> cs_i_end cs < cs_cap cs
     \<and> (\<forall>i<cs_sz cs. cs_v cs ! slot cs i \<noteq> None)"

lemma length_cs_list [simp]: "length (cs_list cs) = cs_sz cs"
  by (simp add: cs_list_def)

lemma nth_cs_list: "i < cs_sz cs \<Longrightarrow> cs_list cs ! i = the (cs_v cs ! slot cs i)"
  by (simp add: cs_list_def)

lemma cs_list_eq_Nil [simp]: "cs_list cs = [] \<longleftrightarrow> cs_sz cs = 0"
  by (simp add: cs_list_def)

lemma slot_alt:
  "cs_sz cs \<le> cs_cap cs \<Longrightarrow> slot cs i = (cs_i_end cs + (cs_cap cs - cs_sz cs + i)) mod cs_cap cs"
  by (simp add: slot_def add.assoc)

lemma slot_less: "cs_ok cs \<Longrightarrow> slot cs i < cs_cap cs"
  by (simp add: slot_def cs_ok_def)

lemma cs_read_slot:
  "cs_ok cs \<Longrightarrow> i < cs_sz cs \<Longrightarrow> cs_read cs (slot cs i) = Inr (cs_list cs ! i)"
  using slot_less [of cs i] by (auto simp: cs_read_def cs_ok_def nth_cs_list split: option.splits)

text \<open>Index arithmetic on the ring: where \<^verbatim>\<open>diff\<close> points.\<close>

lemma ring_cancel: "(c :: nat) \<le> x \<Longrightarrow> x < 2 * c \<Longrightarrow> x mod c = x - c"
  by (simp add: le_mod_geq)

lemma cs_diff_slot:
  assumes "cs_ok cs" and "0 < n" and "n \<le> cs_sz cs"
  shows "cs_diff cs (cs_i_end cs) n = slot cs (cs_sz cs - n)"
proof -
  from assms have e: "cs_i_end cs < cs_cap cs" and s: "cs_sz cs \<le> cs_cap cs"
    and b: "2 * cs_cap cs < SIZE_MOD" by (auto simp: cs_ok_def)
  have sl: "slot cs (cs_sz cs - n) = (cs_i_end cs + cs_cap cs - n) mod cs_cap cs"
    using assms(3) s by (simp add: slot_def)
  show ?thesis
  proof (cases "cs_i_end cs < n")
    case True
    have "sz_sub (sz_add (cs_i_end cs) (cs_cap cs)) n = cs_i_end cs + cs_cap cs - n"
      using e s b assms(3) by (simp add: size_t_simps)
    with True sl e show ?thesis by (simp add: cs_diff_def)
  next
    case False
    have "(cs_i_end cs + cs_cap cs - n) mod cs_cap cs = cs_i_end cs - n"
      using False e by (subst ring_cancel) auto
    with False sl e b show ?thesis by (simp add: cs_diff_def size_t_simps)
  qed
qed

section \<open>What each operation does to the list\<close>

lemma cs_new_ok:
  assumes "0 < s" and "2 * s < SIZE_MOD"
  shows "\<exists>cs. cs_new s = Inr cs \<and> cs_ok cs \<and> cs_cap cs = s \<and> cs_list cs = []"
  using assms by (simp add: cs_new_def cs_ok_def cs_list_def)

lemma slot_inj_end:
  assumes "cs_ok cs" and "cs_sz cs < cs_cap cs" and "i < cs_sz cs"
  shows "slot cs i \<noteq> cs_i_end cs"
proof
  assume eq: "slot cs i = cs_i_end cs"
  let ?k = "cs_cap cs - cs_sz cs + i"
  from assms have k: "0 < ?k" "?k < cs_cap cs" and e: "cs_i_end cs < cs_cap cs"
    by (auto simp: cs_ok_def)
  have "slot cs i = (cs_i_end cs + ?k) mod cs_cap cs" using assms by (simp add: slot_alt)
  also have "\<dots> \<noteq> cs_i_end cs"
    using k e by (cases "cs_i_end cs + ?k < cs_cap cs") (auto simp: ring_cancel)
  finally show False using eq by simp
qed

lemma slot_last: "cs_ok cs \<Longrightarrow> 0 < cs_sz cs \<Longrightarrow>
    slot cs (cs_sz cs - 1) = (cs_i_end cs + cs_cap cs - 1) mod cs_cap cs"
  by (simp add: slot_def cs_ok_def)

text \<open>A push that finds room keeps every element and adds one.\<close>

lemma push_room:
  assumes ok: "cs_ok cs" and room: "cs_sz cs < cs_cap cs"
    and cs': "cs' = cs\<lparr>cs_v := (cs_v cs)[cs_i_end cs := Some t],
      cs_i_end := (cs_i_end cs + 1) mod cs_cap cs, cs_sz := cs_sz cs + 1\<rparr>"
  shows "cs_ok cs' \<and> cs_list cs' = cs_list cs @ [t]"
proof -
  from ok have e: "cs_i_end cs < cs_cap cs" and l: "length (cs_v cs) = cs_cap cs"
    by (auto simp: cs_ok_def)
  have sl: "slot cs' i = slot cs i" for i
  proof -
    have "slot cs' i = ((cs_i_end cs + 1) mod cs_cap cs + (cs_cap cs - (cs_sz cs + 1) + i)) mod cs_cap cs"
      using room by (simp add: slot_alt cs')
    also have "\<dots> = (cs_i_end cs + 1 + (cs_cap cs - (cs_sz cs + 1) + i)) mod cs_cap cs"
      by (rule mod_add_left_eq)
    also have "cs_i_end cs + 1 + (cs_cap cs - (cs_sz cs + 1) + i) = cs_i_end cs + (cs_cap cs - cs_sz cs + i)"
      using room by simp
    finally show ?thesis using room by (simp add: slot_alt)
  qed
  have last: "slot cs (cs_sz cs) = cs_i_end cs" using e room by (simp add: slot_def)
  have old: "cs_v cs' ! slot cs' i = cs_v cs ! slot cs i" if "i < cs_sz cs" for i
    unfolding sl using slot_inj_end [OF ok room that] by (simp add: cs')
  have new: "cs_v cs' ! slot cs' (cs_sz cs) = Some t"
    unfolding sl last using e l by (simp add: cs')
  have f: "cs_sz cs' = Suc (cs_sz cs)" "cs_cap cs' = cs_cap cs" "length (cs_v cs') = cs_cap cs"
    "cs_i_end cs' < cs_cap cs"
    using e l by (simp_all add: cs')
  have "cs_ok cs'"
    using ok room f old new by (auto simp: cs_ok_def less_Suc_eq)
  moreover have "cs_list cs' = cs_list cs @ [t]"
    using old new by (intro nth_equalityI) (auto simp: f nth_cs_list nth_append less_Suc_eq)
  ultimately show ?thesis by blast
qed

text \<open>A push into a full stack overwrites the oldest element.\<close>

lemma push_full:
  assumes ok: "cs_ok cs" and full: "cs_sz cs = cs_cap cs"
    and cs': "cs' = cs\<lparr>cs_v := (cs_v cs)[cs_i_end cs := Some t],
      cs_i_end := (cs_i_end cs + 1) mod cs_cap cs\<rparr>"
  shows "cs_ok cs' \<and> cs_list cs' = tl (cs_list cs) @ [t]"
proof -
  from ok have e: "cs_i_end cs < cs_cap cs" and l: "length (cs_v cs) = cs_cap cs"
    and p: "0 < cs_cap cs"
    by (auto simp: cs_ok_def)
  have sl': "slot cs' i = (cs_i_end cs + 1 + i) mod cs_cap cs" for i
    using full by (simp add: slot_alt cs' mod_add_left_eq)
  have sl: "slot cs i = (cs_i_end cs + i) mod cs_cap cs" for i
    using full by (simp add: slot_alt)
  have ne: "(cs_i_end cs + 1 + i) mod cs_cap cs \<noteq> cs_i_end cs" if "Suc i < cs_cap cs" for i
    using that e by (cases "cs_i_end cs + 1 + i < cs_cap cs") (auto simp: ring_cancel)
  have old: "cs_v cs' ! slot cs' i = cs_v cs ! slot cs (Suc i)" if "Suc i < cs_sz cs" for i
    unfolding sl sl' using ne [of i] that full by (simp add: cs')
  have last: "slot cs' (cs_cap cs - 1) = cs_i_end cs"
    using e p by (simp add: sl')
  have new: "cs_v cs' ! slot cs' (cs_sz cs - 1) = Some t"
    unfolding full last using e l by (simp add: cs')
  have f: "cs_sz cs' = cs_sz cs" "cs_cap cs' = cs_cap cs" "length (cs_v cs') = cs_cap cs"
    "cs_i_end cs' < cs_cap cs"
    using e l by (simp_all add: cs')
  have cases: "i < cs_sz cs \<Longrightarrow> Suc i < cs_sz cs \<or> i = cs_sz cs - 1" for i by arith
  have "\<exists>y. cs_v cs' ! slot cs' i = Some y" if "i < cs_sz cs" for i
    using cases [OF that] old new ok by (auto simp: cs_ok_def)
  then have "cs_ok cs'" using ok f by (auto simp: cs_ok_def)
  moreover have "cs_list cs' = tl (cs_list cs) @ [t]"
  proof (intro nth_equalityI)
    fix i assume "i < length (cs_list cs')"
    then have i: "i < cs_sz cs" by (simp add: f)
    show "cs_list cs' ! i = (tl (cs_list cs) @ [t]) ! i"
      using cases [OF i] old new i full p
      by (auto simp: nth_cs_list f nth_append nth_tl)
  qed (use full p in \<open>simp add: f\<close>)
  ultimately show ?thesis by blast
qed

lemma cs_push_ok:
  assumes "cs_ok cs"
  shows "\<exists>cs'. cs_push t cs = Inr cs' \<and> cs_ok cs' \<and> cs_cap cs' = cs_cap cs
    \<and> cs_list cs' = lastn (cs_cap cs) (cs_list cs @ [t])"
proof -
  from assms have b: "cs_i_end cs < length (cs_v cs)" "cs_cap cs \<noteq> 0"
    "sz_add (cs_i_end cs) 1 = cs_i_end cs + 1" "cs_sz cs \<le> cs_cap cs"
    "cs_sz cs < cs_cap cs \<Longrightarrow> sz_add (cs_sz cs) 1 = cs_sz cs + 1"
    by (auto simp: cs_ok_def size_t_simps)
  show ?thesis
  proof (cases "cs_sz cs < cs_cap cs")
    case True
    let ?cs = "cs\<lparr>cs_v := (cs_v cs)[cs_i_end cs := Some t],
      cs_i_end := (cs_i_end cs + 1) mod cs_cap cs, cs_sz := cs_sz cs + 1\<rparr>"
    have "cs_push t cs = Inr ?cs" using b True by (simp add: cs_push_def cs_write_def)
    with push_room [OF assms True refl] True show ?thesis by (simp add: lastn_all)
  next
    case False
    let ?cs = "cs\<lparr>cs_v := (cs_v cs)[cs_i_end cs := Some t],
      cs_i_end := (cs_i_end cs + 1) mod cs_cap cs\<rparr>"
    have full: "cs_sz cs = cs_cap cs" using False b by simp
    have "cs_push t cs = Inr ?cs" using b False by (simp add: cs_push_def cs_write_def)
    moreover have "tl (cs_list cs) @ [t] = lastn (cs_cap cs) (cs_list cs @ [t])"
      using full b(2) by (cases "cs_list cs") (auto simp: lastn_def drop_Suc
          dest: arg_cong [where f = length])
    ultimately show ?thesis using push_full [OF assms full refl, of t] by simp
  qed
qed

lemma cs_pop_ok:
  assumes "cs_ok cs"
  shows "\<exists>cs'. cs_pop n cs = Inr cs' \<and> cs_ok cs' \<and> cs_cap cs' = cs_cap cs
    \<and> cs_list cs' = take (cs_sz cs - n) (cs_list cs)"
proof -
  define m where "m = min (cs_sz cs) n"
  from assms have e: "cs_i_end cs < cs_cap cs" "0 < cs_cap cs" "m \<le> cs_sz cs" "cs_sz cs \<le> cs_cap cs"
    "2 * cs_cap cs < SIZE_MOD" by (auto simp: cs_ok_def m_def)
  define cs' where "cs' = cs\<lparr>cs_sz := cs_sz cs - m,
    cs_i_end := (cs_i_end cs + cs_cap cs - m) mod cs_cap cs\<rparr>"
  have run: "cs_pop n cs = Inr cs'"
    using e by (simp add: cs_pop_def cs'_def m_def [symmetric] size_t_simps)
  have sl: "slot cs' i = slot cs i" for i
  proof -
    have "slot cs' i = ((cs_i_end cs + cs_cap cs - m) mod cs_cap cs
        + (cs_cap cs - (cs_sz cs - m) + i)) mod cs_cap cs"
      using e by (simp add: slot_alt cs'_def)
    also have "\<dots> = (cs_i_end cs + cs_cap cs - m + (cs_cap cs - (cs_sz cs - m) + i)) mod cs_cap cs"
      by (rule mod_add_left_eq)
    also have "cs_i_end cs + cs_cap cs - m + (cs_cap cs - (cs_sz cs - m) + i)
        = cs_i_end cs + (cs_cap cs - cs_sz cs + i) + cs_cap cs"
      using e by simp
    also have "\<dots> mod cs_cap cs = slot cs i"
      unfolding mod_add_self2 slot_alt [OF e(4)] ..
    finally show ?thesis .
  qed
  have f: "cs_v cs' = cs_v cs" "cs_cap cs' = cs_cap cs" "cs_sz cs' = cs_sz cs - m"
    "cs_i_end cs' < cs_cap cs"
    using e by (simp_all add: cs'_def)
  have "cs_ok cs'" using assms f sl by (auto simp: cs_ok_def)
  moreover have "cs_list cs' = take (cs_sz cs - m) (cs_list cs)"
    by (intro nth_equalityI) (auto simp: f nth_cs_list sl)
  moreover have "cs_sz cs - m = cs_sz cs - n" by (simp add: m_def)
  ultimately show ?thesis using run f by simp
qed

lemma cs_index_ok:
  assumes "cs_ok cs"
  shows "cs_index cs s = (if s < cs_sz cs then Inr (cs_list cs ! s)
    else Inl (Exception ''Buffer accessing out of size''))"
proof -
  have "s < cs_sz cs \<Longrightarrow> sz_sub (cs_sz cs) s = cs_sz cs - s"
    using assms by (simp add: cs_ok_def size_t_simps)
  then show ?thesis
    using cs_diff_slot [OF assms, of "cs_sz cs - s"] cs_read_slot [OF assms, of s]
    by (auto simp: cs_index_def)
qed

lemma cs_back_ok:
  assumes "cs_ok cs"
  shows "cs_back cs = (if cs_list cs = [] then Inl (Exception ''Buffer accessing out of size'')
    else Inr (last (cs_list cs)))"
  using cs_diff_slot [OF assms, of 1] cs_read_slot [OF assms, of "cs_sz cs - 1"]
  by (auto simp: cs_back_def last_conv_nth)

lemma cs_front_ok:
  assumes "cs_ok cs"
  shows "cs_front cs = (if cs_list cs = [] then Inl (Exception ''Buffer accessing out of size'')
    else Inr (hd (cs_list cs)))"
  using cs_diff_slot [OF assms, of "cs_sz cs"] cs_read_slot [OF assms, of 0]
  by (auto simp: cs_front_def hd_conv_nth)

section \<open>The interface its clients rely on\<close>

text \<open>
  What \<^verbatim>\<open>NarrowMerkleTree\<close> expects of its layers: a stack of bounded capacity that never fails
  on a push or a pop, and drops its oldest elements when it is full.
\<close>

locale bounded_stack =
  fixes push :: "'a \<Rightarrow> 's \<Rightarrow> error + 's"
    and pop :: "nat \<Rightarrow> 's \<Rightarrow> error + 's"
    and peek :: "'s \<Rightarrow> error + 'a"
    and count :: "'s \<Rightarrow> nat"
    and room :: "'s \<Rightarrow> nat"
    and elems :: "'s \<Rightarrow> 'a list"
    and ok :: "'s \<Rightarrow> bool"
  assumes push_spec: "ok s \<Longrightarrow> \<exists>s'. push x s = Inr s' \<and> ok s' \<and> room s' = room s
      \<and> elems s' = lastn (room s) (elems s @ [x])"
    and pop_spec: "ok s \<Longrightarrow> \<exists>s'. pop n s = Inr s' \<and> ok s' \<and> room s' = room s
      \<and> elems s' = take (count s - n) (elems s)"
    and peek_spec: "ok s \<Longrightarrow> elems s \<noteq> [] \<Longrightarrow> peek s = Inr (last (elems s))"
    and count_spec: "ok s \<Longrightarrow> count s = length (elems s)"
    and room_spec: "ok s \<Longrightarrow> length (elems s) \<le> room s \<and> 0 < room s"
begin

lemma push_all:
  "ok s \<Longrightarrow> \<exists>s'. foldR push xs s = Inr s' \<and> ok s' \<and> room s' = room s
     \<and> elems s' = lastn (room s) (elems s @ xs)"
proof (induction xs arbitrary: s)
  case Nil
  then show ?case using room_spec by (simp add: lastn_all)
next
  case (Cons x xs)
  obtain s1 where s1: "push x s = Inr s1" "ok s1" "room s1 = room s"
    "elems s1 = lastn (room s) (elems s @ [x])"
    using push_spec [OF Cons.prems] by blast
  obtain s2 where s2: "foldR push xs s1 = Inr s2" "ok s2" "room s2 = room s1"
    "elems s2 = lastn (room s1) (elems s1 @ xs)"
    using Cons.IH [OF s1(2)] by blast
  have "elems s2 = lastn (room s) (elems s @ x # xs)"
    using s2(4) by (simp add: s1(3,4) lastn_append_lastn)
  with s1 s2 show ?case by auto
qed

lemma push_pop_all:
  assumes "ok s" and "length xs \<le> room s"
  shows "\<exists>s'. bindR (foldR push xs s) (pop (length xs)) = Inr s' \<and> ok s' \<and> room s' = room s
    \<and> elems s' = lastn (room s - length xs) (elems s)"
proof -
  obtain s1 where s1: "foldR push xs s = Inr s1" "ok s1" "room s1 = room s"
    "elems s1 = lastn (room s) (elems s @ xs)"
    using push_all [OF assms(1)] by blast
  obtain s2 where s2: "pop (length xs) s1 = Inr s2" "ok s2" "room s2 = room s1"
    "elems s2 = take (count s1 - length xs) (elems s1)"
    using pop_spec [OF s1(2)] by blast
  have "elems s2 = lastn (room s - length xs) (elems s)"
    using take_lastn_append [OF assms(2), of "elems s"] s2(4)
    by (simp add: s1(4) count_spec [OF s1(2)])
  with s1 s2 show ?thesis by simp
qed

lemma peek_of_push:
  assumes "ok s" "push x s = Inr s'"
  shows "peek s' = Inr x"
proof -
  obtain s1 where "push x s = Inr s1" "ok s1" "elems s1 = lastn (room s) (elems s @ [x])"
    using push_spec [OF assms(1)] by blast
  with assms have "ok s'" and e: "elems s' = lastn (room s) (elems s @ [x])" by auto
  moreover have "0 < room s" using room_spec [OF assms(1)] by simp
  then have "elems s' \<noteq> []" and "last (elems s') = x"
    unfolding e by (auto simp: last_lastn lastn_def)
  ultimately show ?thesis using peek_spec by simp
qed

end

interpretation cstack: bounded_stack cs_push cs_pop cs_back cs_size cs_cap cs_list cs_ok
proof
  show "\<exists>s'. cs_push x s = Inr s' \<and> cs_ok s' \<and> cs_cap s' = cs_cap s
      \<and> cs_list s' = lastn (cs_cap s) (cs_list s @ [x])" if "cs_ok s" for s x
    using cs_push_ok [OF that] .
  show "\<exists>s'. cs_pop n s = Inr s' \<and> cs_ok s' \<and> cs_cap s' = cs_cap s
      \<and> cs_list s' = take (cs_size s - n) (cs_list s)" if "cs_ok s" for s n
    using cs_pop_ok [OF that] by (simp add: cs_size_def)
qed (auto simp: cs_back_ok cs_size_def cs_ok_def)

section \<open>Iterating and resizing\<close>

lemma pos_inc_unwrapped:
  assumes "cs_ok cs" and "pos < cs_cap cs" and "t \<le> cs_cap cs"
  shows "pos_inc cs pos t = (if cs_sz cs \<le> pos + t then cs_cap cs else pos + t)"
  using assms by (auto simp: pos_inc_def cs_ok_def size_t_simps Let_def)

lemma cs_walk_suffix:
  assumes "cs_ok cs"
  shows "pos < cs_sz cs \<Longrightarrow> cs_sz cs - pos < fuel \<Longrightarrow>
    cs_walk fuel cs pos = Some (map Inr (drop pos (cs_list cs)))"
proof (induction fuel arbitrary: pos)
  case (Suc fuel)
  from assms Suc.prems have pos: "pos < cs_cap cs" "1 \<le> cs_cap cs" "cs_sz cs \<le> cs_cap cs"
    by (auto simp: cs_ok_def)
  have d: "drop pos (cs_list cs) = cs_list cs ! pos # drop (Suc pos) (cs_list cs)"
    using Suc.prems by (simp add: Cons_nth_drop_Suc)
  have head: "it_deref cs pos = Inr (cs_list cs ! pos)"
    using Suc.prems by (simp add: it_deref_def cs_index_ok [OF assms])
  have nxt: "it_next cs pos = (if cs_sz cs \<le> Suc pos then cs_cap cs else Suc pos)"
    using pos_inc_unwrapped [OF assms pos(1,2)] by (simp add: it_next_def)
  show ?case
  proof (cases "Suc pos < cs_sz cs")
    case True
    then have "cs_walk fuel cs (Suc pos) = Some (map Inr (drop (Suc pos) (cs_list cs)))"
      using Suc.prems by (intro Suc.IH) auto
    with True show ?thesis
      using Suc.prems pos head nxt d by (simp add: it_eq_def cs_end_def)
  next
    case False
    obtain fuel' where f: "fuel = Suc fuel'" using Suc.prems by (cases fuel) auto
    have "drop (Suc pos) (cs_list cs) = []" using False by simp
    with False show ?thesis
      unfolding f d using Suc.prems pos head nxt by (simp add: it_eq_def cs_end_def)
  qed
qed simp

lemma cs_begin_less: "cs_ok cs \<Longrightarrow> cs_begin cs < cs_cap cs"
  using cs_diff_slot [of cs "cs_sz cs"] slot_less [of cs 0]
  by (cases "cs_sz cs = 0") (auto simp: cs_begin_def cs_diff_def cs_ok_def size_t_simps)

text \<open>A position past the size cannot be read, and the next one is the end.\<close>

lemma cs_walk_outside:
  assumes "cs_ok cs" and "cs_sz cs \<le> pos" and "pos < cs_cap cs"
  shows "cs_walk (Suc (Suc fuel)) cs pos = Some [Inl (Exception ''Buffer accessing out of size'')]"
proof -
  have "it_next cs pos = cs_cap cs"
    using pos_inc_unwrapped [OF assms(1,3), of 1] assms by (simp add: it_next_def)
  then show ?thesis
    using assms by (simp add: it_eq_def cs_end_def it_deref_def cs_index_ok)
qed

lemma cs_resize_ok:
  assumes ok: "cs_ok cs" and nowrap: "cs_sz cs \<le> cs_i_end cs" and fits: "cs_i_end cs < s"
    and small: "2 * s < SIZE_MOD"
  shows "cs_ok (cs_resize s cs) \<and> cs_cap (cs_resize s cs) = s
    \<and> cs_list (cs_resize s cs) = cs_list cs"
proof -
  let ?cs = "cs_resize s cs"
  have e: "cs_i_end cs < cs_cap cs" "length (cs_v cs) = cs_cap cs" using ok by (auto simp: cs_ok_def)
  have f: "cs_cap ?cs = s" "cs_sz ?cs = cs_sz cs" "cs_i_end ?cs = cs_i_end cs"
    "cs_v ?cs = take s (cs_v cs) @ replicate (s - cs_cap cs) None"
    using nowrap fits e by (auto simp: cs_resize_def)
  have sl: "slot cs i = cs_i_end cs - cs_sz cs + i" "slot ?cs i = cs_i_end cs - cs_sz cs + i"
    if "i < cs_sz cs" for i
    using that nowrap fits e by (auto simp: slot_def f ring_cancel)
  have cell: "cs_v ?cs ! slot ?cs i = cs_v cs ! slot cs i" if "i < cs_sz cs" for i
    using that nowrap fits e by (auto simp: sl f nth_append)
  have "cs_ok ?cs" using ok cell small nowrap fits by (auto simp: cs_ok_def f)
  moreover have "cs_list ?cs = cs_list cs"
    using cell by (intro nth_equalityI) (auto simp: f nth_cs_list)
  ultimately show ?thesis by (simp add: f)
qed

text \<open>
  Otherwise the end index or the oldest element is not where the new capacity puts it.
\<close>

lemma cs_resize_push:
  assumes "cs_ok cs" and "s \<le> cs_i_end cs"
  shows "cs_push x (cs_resize s cs) = Inl Undefined"
proof -
  have "length (cs_v (cs_resize s cs)) = s"
    using assms by (simp add: cs_resize_def cs_ok_def)
  then show ?thesis using assms(2) by (simp add: cs_push_def cs_write_def cs_resize_def)
qed

lemma cs_resize_unwritten:
  assumes "cs_ok cs" and "cs_cap cs \<le> i" and "i < s"
  shows "cs_read (cs_resize s cs) i = Inl Undefined"
  using assms by (simp add: cs_read_def cs_resize_def cs_ok_def nth_append)

lemma cs_resize_grow:
  assumes ok: "cs_ok cs" and wrapped: "cs_i_end cs < cs_sz cs" and grow: "cs_cap cs < s" and small: "2 * s < SIZE_MOD"
  shows "cs_i_end cs = 0 \<Longrightarrow> cs_back (cs_resize s cs) = Inl Undefined"
    and "cs_cap cs + cs_sz cs \<le> cs_i_end cs + s \<Longrightarrow> cs_front (cs_resize s cs) = Inl Undefined"
proof -
  let ?c = "cs_resize s cs"
  have e: "cs_i_end cs < cs_cap cs" "cs_sz cs \<le> cs_cap cs" using ok by (auto simp: cs_ok_def)
  have f: "cs_sz ?c = cs_sz cs" "cs_i_end ?c = cs_i_end cs" "cs_cap ?c = s"
    using e grow by (auto simp: cs_resize_def)
  have diff: "cs_diff ?c (cs_i_end cs) n = cs_i_end cs + s - n" if "cs_i_end cs < n" "n \<le> cs_cap cs" for n
    using that e grow small by (simp add: cs_diff_def f size_t_simps)
  show "cs_back ?c = Inl Undefined" if "cs_i_end cs = 0"
    using that wrapped e grow cs_resize_unwritten [OF ok, of "s - 1" s] diff [of 1] by (simp add: cs_back_def f)
  show "cs_front ?c = Inl Undefined" if "cs_cap cs + cs_sz cs \<le> cs_i_end cs + s"
    using that wrapped e grow cs_resize_unwritten [OF ok, of "cs_i_end cs + s - cs_sz cs" s] diff [of "cs_sz cs"]
    by (simp add: cs_front_def f)
qed

text \<open>Evaluation of the operations on small stacks.\<close>

lemmas cs_eval = cs_new_def cs_push_def cs_write_def cs_front_def cs_back_def cs_index_def cs_read_def
  cs_diff_def cs_begin_def cs_end_def cs_resize_def it_deref_def it_next_def it_eq_def pos_inc_def
  sz_add_def sz_sub_def SIZE_MOD_def cs_list_def slot_def upt_rec cs_size_def
  cs_capacity_def

lemma replicate_numeral_Cons:
  "replicate (numeral k) x = x # replicate (pred_numeral k) x"
  by (simp add: numeral_eq_Suc)

lemma cs_ok_small:
  "cs_ok \<lparr>cs_v = [Some 1, Some (2 :: nat)], cs_cap = 2, cs_sz = 2, cs_i_end = 0\<rparr>"
  "cs_ok \<lparr>cs_v = [Some 1, Some (2 :: nat), None], cs_cap = 3, cs_sz = 2, cs_i_end = 2\<rparr>"
  "cs_ok \<lparr>cs_v = [Some 3, Some (2 :: nat)], cs_cap = 2, cs_sz = 2, cs_i_end = 1\<rparr>"
  "cs_ok \<lparr>cs_v = [None, None :: nat option], cs_cap = 2, cs_sz = 0, cs_i_end = 0\<rparr>"
  by (auto simp: cs_ok_def SIZE_MOD_def slot_def less_2_cases_iff)

section \<open>Properties\<close>

text \<open>
  C23: from a fresh stack of capacity \<open>s\<close>, any sequence of pushes succeeds and leaves the last
  \<open>s\<close> elements: size and capacity are as documented, \<^verbatim>\<open>operator[]\<close> reads them oldest first
  and throws exactly at the indices past the size, \<^verbatim>\<open>front\<close> and \<^verbatim>\<open>back\<close> are the oldest and the
  newest; no cell that was never written is read.
\<close>

theorem cstack_keeps_last:
  assumes "0 < s" and "2 * s < SIZE_MOD"
  shows "\<exists>cs :: 'a cstack. bindR (cs_new s) (foldR cs_push xs) = Inr cs
    \<and> cs_capacity cs = s \<and> cs_size cs = min s (length xs)
    \<and> (\<forall>i. cs_index cs i = (if i < cs_size cs then Inr (lastn s xs ! i)
             else Inl (Exception ''Buffer accessing out of size'')))
    \<and> cs_back cs = (if xs = [] then Inl (Exception ''Buffer accessing out of size'')
                     else Inr (last xs))
    \<and> cs_front cs = (if xs = [] then Inl (Exception ''Buffer accessing out of size'')
                     else Inr (hd (lastn s xs)))"
proof -
  obtain c :: "'a cstack" where c: "cs_new s = Inr c" "cs_ok c" "cs_cap c = s" "cs_list c = []"
    using cs_new_ok [OF assms] by blast
  obtain cs where cs: "foldR cs_push xs c = Inr cs" "cs_ok cs" "cs_cap cs = s"
    "cs_list cs = lastn s xs"
    using cstack.push_all [OF c(2)] c by fastforce
  have sz: "cs_sz cs = min s (length xs)" using cs(4) length_cs_list by (metis length_lastn)
  have ne: "lastn s xs = [] \<longleftrightarrow> xs = []" using assms(1) by (cases xs) (auto simp: lastn_def)
  show ?thesis
    using c cs sz ne assms last_lastn [of s xs]
    by (auto simp: cs_capacity_def cs_size_def cs_index_ok cs_back_ok cs_front_ok)
qed

theorem cstack_keeps_last_witness:
  "\<exists>cs. bindR (cs_new 2) (foldR cs_push [7, 8, 9 :: nat]) = Inr cs
    \<and> cs_index cs 0 = Inr 8 \<and> cs_back cs = Inr 9 \<and> cs_size cs = 2"
  using cstack_keeps_last [of 2 "[7, 8, 9 :: nat]"]
  by (auto simp: SIZE_MOD_def lastn_def)

text \<open>
  C24: popping is the rollback of pushing: after \<open>k\<close> pushes, with \<open>k\<close> at most the capacity, a
  pop of \<open>k\<close> succeeds and leaves exactly the elements of before, less the ones the pushes had
  to overwrite.
\<close>

theorem cstack_push_pop:
  assumes "cs_ok cs" and "length xs \<le> cs_capacity cs"
  shows "\<exists>cs'. bindR (foldR cs_push xs cs) (cs_pop (length xs)) = Inr cs' \<and> cs_ok cs'
    \<and> cs_list cs' = lastn (cs_capacity cs - length xs) (cs_list cs)"
  using cstack.push_pop_all [OF assms(1)] assms(2) by (auto simp: cs_capacity_def)

theorem cstack_push_pop_witness:
  "\<exists>cs'. bindR (foldR cs_push [3] \<lparr>cs_v = [Some 1, Some (2 :: nat)], cs_cap = 2, cs_sz = 2,
     cs_i_end = 0\<rparr>) (cs_pop 1) = Inr cs' \<and> cs_list cs' = [2]"
proof -
  let ?c = "\<lparr>cs_v = [Some 1, Some (2 :: nat)], cs_cap = 2, cs_sz = 2, cs_i_end = 0\<rparr>"
  have "cs_list ?c = [1, 2]" by (simp add: cs_list_def slot_def upt_rec)
  then show ?thesis
    using cstack_push_pop [of ?c "[3]"] cs_ok_small(1) by (auto simp: cs_capacity_def lastn_def)
qed

text \<open>
  C25: the iterator loop from \<^verbatim>\<open>begin()\<close> to \<^verbatim>\<open>end()\<close>, on any stack.  The position of an iterator
  is a cell of the buffer, but \<^verbatim>\<open>operator*\<close> takes it as an index from the oldest element.  So the
  loop reads the elements from index \<open>cs_begin\<close> on, oldest first, and stops: that is all of them
  if the oldest is in the first cell, and only the newer ones once the buffer has wrapped.  If
  there is no element with this index, as on an empty stack, the first access throws.
\<close>

theorem cstack_iteration:
  assumes "cs_ok cs" and "cs_size cs + 1 < fuel"
  shows "cs_walk fuel cs (cs_begin cs) =
    Some (if cs_begin cs < cs_size cs then map Inr (drop (cs_begin cs) (cs_list cs))
          else [Inl (Exception ''Buffer accessing out of size'')])"
proof (cases "cs_begin cs < cs_size cs")
  case True
  then show ?thesis using cs_walk_suffix [OF assms(1), of "cs_begin cs" fuel] assms(2) by (simp add: cs_size_def)
next
  case False
  have "fuel = Suc (Suc (fuel - 2))" using assms(2) by simp
  moreover have "cs_walk (Suc (Suc (fuel - 2))) cs (cs_begin cs)
      = Some [Inl (Exception ''Buffer accessing out of size'')]"
    using False by (intro cs_walk_outside [OF assms(1) _ cs_begin_less [OF assms(1)]]) (simp add: cs_size_def)
  ultimately show ?thesis using False by simp
qed

theorem cstack_iteration_witness:
  "cs_walk 4 \<lparr>cs_v = [Some 1, Some (2 :: nat), None], cs_cap = 3, cs_sz = 2, cs_i_end = 2\<rparr> 0
     = Some [Inr 1, Inr 2]
   \<and> cs_walk 4 \<lparr>cs_v = [Some 3, Some (2 :: nat)], cs_cap = 2, cs_sz = 2, cs_i_end = 1\<rparr> 1 = Some [Inr 3]
   \<and> cs_walk 2 \<lparr>cs_v = [None, None :: nat option], cs_cap = 2, cs_sz = 0, cs_i_end = 0\<rparr> 0
     = Some [Inl (Exception ''Buffer accessing out of size'')]"
proof -
  let ?a = "\<lparr>cs_v = [Some 1, Some (2 :: nat), None], cs_cap = 3, cs_sz = 2, cs_i_end = 2\<rparr>"
  let ?b = "\<lparr>cs_v = [Some 3, Some (2 :: nat)], cs_cap = 2, cs_sz = 2, cs_i_end = 1\<rparr>"
  let ?c = "\<lparr>cs_v = [None, None :: nat option], cs_cap = 2, cs_sz = 0, cs_i_end = 0\<rparr>"
  have "cs_list ?a = [1, 2]" "cs_begin ?a = 0" "cs_list ?b = [2, 3]" "cs_begin ?b = 1" "cs_begin ?c = 0"
    by (simp_all add: cs_eval)
  then show ?thesis
    using cstack_iteration [of ?a 4] cstack_iteration [of ?b 4] cstack_iteration [of ?c 2] cs_ok_small
    by (simp add: cs_size_def)
qed

text \<open>
  C30: what \<^verbatim>\<open>resize\<close> does to any stack, as only the capacity, the size and the allocation change.
  If the elements lie in one piece before the end index and the new capacity is beyond it, they
  are all kept.  If the new capacity is not beyond the end index, the next push writes past the
  allocation.  If the buffer has wrapped and grows, the places of the elements are computed with
  the new capacity: \<^verbatim>\<open>front()\<close> reads memory that was never written when the growth is at least
  the number of elements behind the end index, as it is for a stack that is just full and is
  doubled, and so does \<^verbatim>\<open>back()\<close> when the end index is the first cell.
\<close>

theorem cstack_resize:
  assumes "cs_ok cs" and "2 * s < SIZE_MOD"
  shows "cs_capacity (cs_resize s cs) = s \<and> cs_size (cs_resize s cs) = min s (cs_size cs)
    \<and> (cs_size cs \<le> cs_i_end cs \<and> cs_i_end cs < s \<longrightarrow>
         cs_ok (cs_resize s cs) \<and> cs_list (cs_resize s cs) = cs_list cs)
    \<and> (s \<le> cs_i_end cs \<longrightarrow> cs_push x (cs_resize s cs) = Inl Undefined)
    \<and> (cs_i_end cs < cs_size cs \<and> cs_capacity cs < s \<longrightarrow>
         (cs_i_end cs = 0 \<longrightarrow> cs_back (cs_resize s cs) = Inl Undefined)
         \<and> (cs_capacity cs + cs_size cs \<le> cs_i_end cs + s \<longrightarrow> cs_front (cs_resize s cs) = Inl Undefined))"
proof (intro conjI impI; (elim conjE)?)
  show "cs_capacity (cs_resize s cs) = s" "cs_size (cs_resize s cs) = min s (cs_size cs)"
    by (simp_all add: cs_resize_def cs_capacity_def cs_size_def)
next
  assume "cs_size cs \<le> cs_i_end cs" "cs_i_end cs < s"
  from cs_resize_ok [OF assms(1) _ this(2) assms(2)] this(1)
  show "cs_ok (cs_resize s cs)" "cs_list (cs_resize s cs) = cs_list cs" by (simp_all add: cs_size_def)
next
  assume "s \<le> cs_i_end cs"
  then show "cs_push x (cs_resize s cs) = Inl Undefined" by (rule cs_resize_push [OF assms(1)])
next
  assume a: "cs_i_end cs < cs_size cs" "cs_capacity cs < s"
  note g = cs_resize_grow [OF assms(1) _ _ assms(2)]
  show "cs_back (cs_resize s cs) = Inl Undefined" if "cs_i_end cs = 0"
    using g(1) that a by (simp add: cs_size_def cs_capacity_def)
  show "cs_front (cs_resize s cs) = Inl Undefined" if "cs_capacity cs + cs_size cs \<le> cs_i_end cs + s"
    using g(2) that a by (simp add: cs_size_def cs_capacity_def)
qed

theorem cstack_resize_witness:
  "cs_list (cs_resize 5 \<lparr>cs_v = [Some 1, Some (2 :: nat), None], cs_cap = 3, cs_sz = 2, cs_i_end = 2\<rparr>)
     = [1, 2]
   \<and> cs_push 3 (cs_resize 2 \<lparr>cs_v = [Some 1, Some (2 :: nat), None], cs_cap = 3, cs_sz = 2, cs_i_end = 2\<rparr>)
     = Inl Undefined
   \<and> cs_front (cs_resize 4 \<lparr>cs_v = [Some 1, Some (2 :: nat)], cs_cap = 2, cs_sz = 2, cs_i_end = 0\<rparr>)
     = Inl Undefined"
proof -
  let ?a = "\<lparr>cs_v = [Some 1, Some (2 :: nat), None], cs_cap = 3, cs_sz = 2, cs_i_end = 2\<rparr>"
  let ?b = "\<lparr>cs_v = [Some 1, Some (2 :: nat)], cs_cap = 2, cs_sz = 2, cs_i_end = 0\<rparr>"
  have "cs_list ?a = [1, 2]" by (simp add: cs_eval)
  moreover have "cs_list (cs_resize 5 ?a) = cs_list ?a" "cs_push 3 (cs_resize 2 ?a) = Inl Undefined"
    "cs_front (cs_resize 4 ?b) = Inl Undefined"
    using cstack_resize [of ?a 5] cstack_resize [of ?a 2 3] cstack_resize [of ?b 4] cs_ok_small
    by (simp_all add: cs_size_def cs_capacity_def SIZE_MOD_def)
  ultimately show ?thesis by simp
qed

end
