(* ===== verification/Merkle_Tree.thy ===== *)
theory Merkle_Tree
  imports Prelude "HOL-Library.Sublist"
begin

text \<open>
  The class \<^verbatim>\<open>MerkleTree\<close> (\<^verbatim>\<open>include/ametsuchi/merkle_tree/merkle_tree.h\<close>,
  \<^verbatim>\<open>src/ametsuchi/merkle_tree/merkle_tree.cc\<close>): complete binary trees of hashes stored in
  arrays, one per block, the root of a full block being the first leaf of the next.  The hash
  function \<^verbatim>\<open>SHA3_256\<close> comes from the Keccak package and is the parameter \<open>sha3\<close> throughout.
\<close>

section \<open>State and operations\<close>

type_synonym byte = "8 word"
type_synonym hash_t = "byte list"

definition HASH_LEN :: nat where
  "HASH_LEN = 32"

definition zero_hash :: hash_t where
  "zero_hash = replicate HASH_LEN 0"

record merkle_tree =
  mt_trees :: "hash_t list list"
  mt_max_blocks :: nat
  mt_size :: nat
  mt_leafs :: nat
  mt_i_current :: nat
  mt_i_root :: nat

text \<open>Access to a \<^verbatim>\<open>std::vector\<close> by \<^verbatim>\<open>operator[]\<close>: no check, no meaning out of range.\<close>

definition vec_get :: "'a list \<Rightarrow> nat \<Rightarrow> error + 'a" where
  "vec_get xs i = (if i < length xs then Inr (xs ! i) else Inl Undefined)"

definition vec_set :: "'a list \<Rightarrow> nat \<Rightarrow> 'a \<Rightarrow> error + 'a list" where
  "vec_set xs i x = (if i < length xs then Inr (xs[i := x]) else Inl Undefined)"

definition list_back :: "'a list \<Rightarrow> error + 'a" where
  "list_back xs = (if xs = [] then Inl Undefined else Inr (last xs))"

fun mt_log2 :: "nat \<Rightarrow> nat" where
  "mt_log2 x = (if 1 < x then Suc (mt_log2 (x div 2)) else 0)"

declare mt_log2.simps [simp del]

text \<open>\<^verbatim>\<open>1u\<close> is a 32-bit operand: shifting it by 32 or more has no meaning.\<close>

definition ceil2 :: "nat \<Rightarrow> error + nat" where
  "ceil2 x =
     (if mt_log2 x < 32
      then (let l = 2 ^ mt_log2 x in Inr (if l = x then l else sz_add l 1))
      else Inl Undefined)"

definition treesize :: "nat \<Rightarrow> nat" where
  "treesize leafs = sz_sub (sz_mul leafs 2) 1"

definition mt_left :: "nat \<Rightarrow> nat" where
  "mt_left p = sz_add (sz_mul p 2) 1"

definition mt_right :: "nat \<Rightarrow> nat" where
  "mt_right p = sz_add (sz_mul p 2) 2"

definition mt_parent :: "nat \<Rightarrow> nat" where
  "mt_parent node = (if node = 0 then 0 else (node - 1) div 2)"

text \<open>The three overloads of \<^verbatim>\<open>MerkleTree::hash\<close>.\<close>

definition hash_pair :: "(byte list \<Rightarrow> hash_t) \<Rightarrow> hash_t \<Rightarrow> hash_t \<Rightarrow> hash_t" where
  "hash_pair sha3 a b = sha3 (a @ b)"

definition hash_data :: "(byte list \<Rightarrow> hash_t) \<Rightarrow> byte list \<Rightarrow> hash_t" where
  "hash_data sha3 data = sha3 data"

definition mt_new :: "nat \<Rightarrow> nat \<Rightarrow> error + merkle_tree" where
  "mt_new leafs blocks =
     (if blocks = 0 then Inl Bad_Alloc
      else bindR (ceil2 leafs) (\<lambda>l.
        Inr \<lparr>mt_trees = [replicate (treesize l) zero_hash], mt_max_blocks = blocks,
             mt_size = treesize l, mt_leafs = l, mt_i_current = sz_sub l 1,
             mt_i_root = sz_sub l 1\<rparr>))"

definition mt_root :: "merkle_tree \<Rightarrow> error + hash_t" where
  "mt_root m = bindR (list_back (mt_trees m)) (\<lambda>tree. vec_get tree (mt_i_root m))"

text \<open>
  The loop of \<^verbatim>\<open>push\<close> that climbs \<open>np\<close> levels: the tree, the position of the parent to fill, the
  child it is reached from, and the root pointer.
\<close>

fun push_loop :: "(byte list \<Rightarrow> hash_t) \<Rightarrow> nat \<Rightarrow> hash_t list \<Rightarrow> nat \<Rightarrow> nat \<Rightarrow> nat \<Rightarrow>
    error + hash_t list \<times> nat" where
  "push_loop sha3 0 tree subtree_root current i_root = Inr (tree, i_root)"
| "push_loop sha3 (Suc np) tree subtree_root current i_root =
     (let l = mt_left subtree_root; r = mt_right subtree_root in
      bindR (vec_get tree l) (\<lambda>a.
      bindR (if current = l then Inr a
             else bindR (vec_get tree r) (\<lambda>b. Inr (hash_pair sha3 a b))) (\<lambda>node.
      bindR (vec_set tree subtree_root node) (\<lambda>tree'.
      push_loop sha3 np tree' (mt_parent subtree_root) (mt_parent current) subtree_root))))"

definition mt_push :: "(byte list \<Rightarrow> hash_t) \<Rightarrow> hash_t \<Rightarrow> merkle_tree \<Rightarrow> error + merkle_tree" where
  "mt_push sha3 item m =
     bindR (list_back (mt_trees m)) (\<lambda>tree0.
     bindR (vec_set tree0 (mt_i_current m) item) (\<lambda>tree.
     if mt_i_current m = sz_sub (mt_leafs m) 1
     then Inr (m\<lparr>mt_trees := butlast (mt_trees m) @ [tree], mt_i_root := mt_i_current m,
                 mt_i_current := sz_add (mt_i_current m) 1\<rparr>)
     else
       (let np = sz_add 1 (mt_log2 (sz_sub (mt_i_current m) (sz_sub (mt_leafs m) 1))) in
        bindR (push_loop sha3 np tree (mt_parent (mt_i_current m)) (mt_i_current m) (mt_i_root m))
        (\<lambda>(tree', root').
          let current' = sz_add (mt_i_current m) 1;
              trees' = butlast (mt_trees m) @ [tree']
          in if current' = mt_size m
             then
               bindR (vec_get tree' 0) (\<lambda>top.
               bindR (vec_set (replicate (mt_size m) zero_hash) (sz_sub (mt_leafs m) 1) top)
               (\<lambda>fresh.
                 let trees'' = trees' @ [fresh]
                 in Inr (m\<lparr>mt_trees := (if length trees'' = sz_add (mt_max_blocks m) 2
                                        then tl trees'' else trees''),
                           mt_i_root := sz_sub (mt_leafs m) 1,
                           mt_i_current := mt_leafs m\<rparr>)))
             else Inr (m\<lparr>mt_trees := trees', mt_i_root := root', mt_i_current := current'\<rparr>)))))"

definition mt_max_rollback :: "merkle_tree \<Rightarrow> nat" where
  "mt_max_rollback m =
     sz_add (sz_mul (sz_sub (length (mt_trees m)) 1) (sz_sub (mt_leafs m) 1))
            (sz_sub (mt_i_current m) (mt_leafs m))"

text \<open>The loop \<^verbatim>\<open>while (steps >= leafs_)\<close>; \<^verbatim>\<open>pop_back\<close> of an empty list has no meaning.\<close>

function rollback_loop :: "nat \<Rightarrow> nat \<Rightarrow> hash_t list list \<Rightarrow> error + nat \<times> hash_t list list" where
  "rollback_loop leafs steps trees =
     (if leafs \<le> steps
      then (if trees = [] then Inl Undefined
            else rollback_loop leafs (sz_sub steps (sz_sub leafs 1)) (butlast trees))
      else Inr (steps, trees))"
  by pat_completeness auto
termination
  by (relation "measure (\<lambda>(leafs, steps, trees). length trees)") auto

declare rollback_loop.simps [simp del]

definition mt_rollback :: "(byte list \<Rightarrow> hash_t) \<Rightarrow> nat \<Rightarrow> merkle_tree \<Rightarrow> error + merkle_tree" where
  "mt_rollback sha3 steps m =
     (if steps = 0 then Inr m
      else if mt_max_rollback m < steps then Inl Bad_Exception
      else
        bindR (rollback_loop (mt_leafs m) steps (mt_trees m)) (\<lambda>(steps1, trees1).
        bindR (if sz_sub (mt_i_current m) steps1 < mt_leafs m
               then (if trees1 = [] then Inl Undefined
                     else Inr (m\<lparr>mt_trees := butlast trees1, mt_i_current := mt_size m,
                                 mt_i_root := 0\<rparr>,
                               sz_sub steps1 (sz_sub (mt_i_current m) (mt_leafs m))))
               else Inr (m\<lparr>mt_trees := trees1\<rparr>, steps1)) (\<lambda>(m2, steps2).
        bindR (list_back (mt_trees m2)) (\<lambda>tree.
          let current' = sz_sub (sz_sub (mt_i_current m2) steps2) 1
          in bindR (vec_get tree current') (\<lambda>item.
             mt_push sha3 item (m2\<lparr>mt_i_current := current'\<rparr>))))))"

definition mt_last_block :: "merkle_tree \<Rightarrow> error + hash_t list" where
  "mt_last_block m =
     (if 0 < length (mt_trees m) then Inr (last (mt_trees m))
      else Inl (Exception ''empty tree''))"

definition mt_last_block_begin :: "merkle_tree \<Rightarrow> nat" where
  "mt_last_block_begin m = sz_sub (mt_leafs m) 1"

definition mt_last_block_end :: "merkle_tree \<Rightarrow> nat" where
  "mt_last_block_end m = mt_i_current m"

section \<open>The root of a list of hashes\<close>

text \<open>The reference: pair the hashes of one level up until one is left.\<close>

fun pair_up :: "('h \<Rightarrow> 'h \<Rightarrow> 'h) \<Rightarrow> 'h list \<Rightarrow> 'h list" where
  "pair_up h [] = []"
| "pair_up h [x] = [x]"
| "pair_up h (x # y # zs) = h x y # pair_up h zs"

lemma length_pair_up [simp]: "length (pair_up h xs) = (length xs + 1) div 2"
  by (induction h xs rule: pair_up.induct) auto

function merkle_root_of :: "('h \<Rightarrow> 'h \<Rightarrow> 'h) \<Rightarrow> 'h list \<Rightarrow> 'h" where
  "merkle_root_of h xs = (if length xs \<le> 1 then hd xs else merkle_root_of h (pair_up h xs))"
  by pat_completeness auto
termination
  by (relation "measure (\<lambda>(h, xs). length xs)") auto

declare merkle_root_of.simps [simp del]

lemma merkle_root_of_single [simp]: "merkle_root_of h [x] = x"
  by (simp add: merkle_root_of.simps)

lemma merkle_root_of_pair_up:
  assumes "xs \<noteq> []"
  shows "merkle_root_of h (pair_up h xs) = merkle_root_of h xs"
proof (cases "length xs \<le> 1")
  case True
  with assms have "length xs = 1" by (cases xs) auto
  then obtain x where "xs = [x]" by (auto simp: length_Suc_conv)
  then show ?thesis by simp
next
  case False
  then show ?thesis by (simp add: merkle_root_of.simps [of h xs])
qed

text \<open>
  Node \<open>j\<close> of level \<open>d\<close> above the leaves \<open>lv\<close>: it covers the leaves \<open>j * 2 ^ d\<close> up to
  \<open>(j + 1) * 2 ^ d\<close>, and passes its left child on when there is nothing under its right one.
\<close>

fun mnode :: "('h \<Rightarrow> 'h \<Rightarrow> 'h) \<Rightarrow> 'h list \<Rightarrow> nat \<Rightarrow> nat \<Rightarrow> 'h" where
  "mnode h lv 0 j = lv ! j"
| "mnode h lv (Suc d) j =
     (if (2 * j + 1) * 2 ^ d < length lv
      then h (mnode h lv d (2 * j)) (mnode h lv d (2 * j + 1))
      else mnode h lv d (2 * j))"

lemma mnode_append:
  "(j + 1) * 2 ^ d \<le> length lv \<Longrightarrow> mnode h (lv @ ys) d j = mnode h lv d j"
proof (induction d arbitrary: j)
  case 0
  then show ?case by (simp add: nth_append)
next
  case (Suc d)
  have e: "(2 * j + 1 + 1) * 2 ^ d = (j + 1) * 2 ^ Suc d" by simp
  have "(2 * j + 1) * 2 ^ d < (j + 1) * 2 ^ Suc d" by simp
  then have lt: "(2 * j + 1) * 2 ^ d < length lv" using Suc.prems by linarith
  have "mnode h (lv @ ys) d (2 * j) = mnode h lv d (2 * j)" using lt by (intro Suc.IH) simp
  moreover have "mnode h (lv @ ys) d (2 * j + 1) = mnode h lv d (2 * j + 1)"
    using Suc.prems e by (intro Suc.IH) simp
  ultimately show ?case using lt by simp
qed

definition level_count :: "nat \<Rightarrow> nat \<Rightarrow> nat" where
  "level_count n d = (n + 2 ^ d - 1) div 2 ^ d"

lemma less_level_count: "a < level_count n d \<longleftrightarrow> a * 2 ^ d < n"
proof -
  have "a < level_count n d \<longleftrightarrow> Suc a * 2 ^ d \<le> n + 2 ^ d - 1"
    by (simp add: level_count_def less_eq_div_iff_mult_less_eq Suc_le_eq [symmetric])
  also have "\<dots> \<longleftrightarrow> a * 2 ^ d < n"
  proof -
    have "x + m \<le> n + m - 1 \<longleftrightarrow> x < n" if "0 < m" for x m :: nat using that by arith
    from this [of "2 ^ d" "a * 2 ^ d"] show ?thesis by (simp add: add.commute)
  qed
  finally show ?thesis .
qed

lemma level_count_Suc: "(level_count n d + 1) div 2 = level_count n (Suc d)"
proof -
  have "a < (level_count n d + 1) div 2 \<longleftrightarrow> a < level_count n (Suc d)" for a
  proof -
    have "a < (level_count n d + 1) div 2 \<longleftrightarrow> 2 * a < level_count n d" by arith
    also have "\<dots> \<longleftrightarrow> a < level_count n (Suc d)" by (simp add: less_level_count ac_simps)
    finally show ?thesis .
  qed
  then show ?thesis by (metis less_irrefl linorder_neqE_nat)
qed

definition level :: "('h \<Rightarrow> 'h \<Rightarrow> 'h) \<Rightarrow> 'h list \<Rightarrow> nat \<Rightarrow> 'h list" where
  "level h lv d = map (mnode h lv d) [0..<level_count (length lv) d]"

lemma nth_pair_up:
  "j < (length xs + 1) div 2 \<Longrightarrow>
     pair_up h xs ! j = (if 2 * j + 1 < length xs then h (xs ! (2 * j)) (xs ! (2 * j + 1))
                         else xs ! (2 * j))"
proof (induction h xs arbitrary: j rule: pair_up.induct)
  case (3 h x y zs)
  then show ?case by (cases j) auto
qed auto

lemma level_Suc: "pair_up h (level h lv d) = level h lv (Suc d)"
proof (rule nth_equalityI)
  show len: "length (pair_up h (level h lv d)) = length (level h lv (Suc d))"
    using level_count_Suc [of "length lv" d] by (simp add: level_def)
  fix j assume "j < length (pair_up h (level h lv d))"
  then have j: "j < level_count (length lv) (Suc d)" "j < (level_count (length lv) d + 1) div 2"
    using len by (simp_all add: level_def)
  then have "2 * j < level_count (length lv) d" by arith
  then show "pair_up h (level h lv d) ! j = level h lv (Suc d) ! j"
    using j by (simp add: level_def nth_pair_up less_level_count)
qed

lemma merkle_root_of_level:
  "lv \<noteq> [] \<Longrightarrow> merkle_root_of h (level h lv d) = merkle_root_of h lv"
proof (induction d)
  case 0
  have "level h lv 0 = lv" by (intro nth_equalityI) (simp_all add: level_def level_count_def)
  then show ?case by simp
next
  case (Suc d)
  have "level_count (length lv) d \<noteq> 0"
    using Suc.prems less_level_count [of 0 "length lv" d] by simp
  then have "level h lv d \<noteq> []" by (simp add: level_def)
  then show ?case using Suc by (simp add: level_Suc [symmetric] merkle_root_of_pair_up)
qed

lemma mnode_root:
  assumes "lv \<noteq> []" and "length lv \<le> 2 ^ d"
  shows "mnode h lv d 0 = merkle_root_of h lv"
proof -
  have "0 < level_count (length lv) d" "\<not> 1 < level_count (length lv) d"
    unfolding less_level_count using assms by auto
  then have "level_count (length lv) d = 1" by simp
  then have "level h lv d = [mnode h lv d 0]" by (simp add: level_def)
  then show ?thesis using merkle_root_of_level [OF assms(1), of h d] by simp
qed

end
