(* ===== verification/Accumulator.thy ===== *)
theory Accumulator
  imports Prelude
begin

text \<open>
  The contract the two Merkle trees of the program share, \<^verbatim>\<open>MerkleTree\<close> and
  \<^verbatim>\<open>NarrowMerkleTree\<close>: an object to which hashes are added one by one and whose root depends on
  nothing but the hashes added so far.
\<close>

text \<open>
  \<open>holds s xs\<close>: \<open>s\<close> is an object to which the hashes \<open>xs\<close> were added.  \<open>conf\<close> is the size it was
  built with, which no push changes, and \<open>fits\<close> says which histories an object of that size can
  take before the machine arithmetic leaves its range.
\<close>

locale accumulator =
  fixes push :: "'a \<Rightarrow> 's \<Rightarrow> error + 's"
    and root :: "'s \<Rightarrow> error + 'a"
    and conf :: "'s \<Rightarrow> nat"
    and fits :: "nat \<Rightarrow> 'a list \<Rightarrow> bool"
    and digest :: "'a list \<Rightarrow> 'a"
    and holds :: "'s \<Rightarrow> 'a list \<Rightarrow> bool"
  assumes push_spec: "holds s xs \<Longrightarrow> fits (conf s) (xs @ [x]) \<Longrightarrow>
      \<exists>s'. push x s = Inr s' \<and> holds s' (xs @ [x]) \<and> conf s' = conf s"
    and root_spec: "holds s xs \<Longrightarrow> xs \<noteq> [] \<Longrightarrow> root s = Inr (digest xs)"
    and fits_prefix: "fits c (xs @ ys) \<Longrightarrow> fits c xs"
begin

lemma push_all:
  "holds s xs \<Longrightarrow> fits (conf s) (xs @ ys) \<Longrightarrow>
     \<exists>s'. foldR push ys s = Inr s' \<and> holds s' (xs @ ys) \<and> conf s' = conf s"
proof (induction ys arbitrary: s xs)
  case Nil
  then show ?case by simp
next
  case (Cons y ys)
  have "fits (conf s) (xs @ [y])" using Cons.prems(2) fits_prefix [of "conf s" "xs @ [y]" ys] by simp
  then obtain s1 where s1: "push y s = Inr s1" "holds s1 (xs @ [y])" "conf s1 = conf s"
    using push_spec [OF Cons.prems(1)] by blast
  from Cons.IH [OF s1(2)] s1 Cons.prems(2) show ?case by auto
qed

lemma same_root: "holds p xs \<Longrightarrow> holds q xs \<Longrightarrow> xs \<noteq> [] \<Longrightarrow> root p = root q"
  using root_spec [of p xs] root_spec [of q xs] by simp

text \<open>Two objects of the same history and size stay the same, whatever is added to both.\<close>

lemma indistinguishable:
  assumes "holds p xs" "holds q xs" "xs \<noteq> []" "conf q = conf p" "fits (conf p) (xs @ zs)"
  shows "\<exists>p' q'. foldR push zs p = Inr p' \<and> foldR push zs q = Inr q' \<and> root p' = root q'"
proof -
  obtain p' where p': "foldR push zs p = Inr p'" "holds p' (xs @ zs)"
    using push_all [OF assms(1)] assms(5) by blast
  obtain q' where q': "foldR push zs q = Inr q'" "holds q' (xs @ zs)"
    using push_all [OF assms(2)] assms(4,5) by auto
  from same_root [OF p'(2) q'(2)] p'(1) q'(1) assms(3) show ?thesis by simp
qed

end

end
