(* ===== verification/Merkle_Refinement.thy ===== *)
theory Merkle_Refinement
  imports Merkle_Tree Accumulator
begin

text \<open>
  The Merkle tree computes the root of its blocks: the array of a block holds, at every node
  whose leaves are all there, the hash of those leaves; pushing keeps this and ends at the root;
  rolling back returns to the tree of the shorter history.
\<close>

section \<open>The array of a block\<close>

text \<open>The position of node \<open>j\<close> of level \<open>d\<close> in the array of a tree with \<open>2 ^ k\<close> leaves.\<close>

definition ix :: "nat \<Rightarrow> nat \<Rightarrow> nat \<Rightarrow> nat" where
  "ix k d j = 2 ^ (k - d) - 1 + j"

lemma ix_plus1: "ix k d j + 1 = 2 ^ (k - d) + j"
  unfolding ix_def using zero_less_power [of "2 :: nat" "k - d"] by simp

lemma ix_le:
  assumes "d \<le> k" "j < 2 ^ (k - d)"
  shows "ix k d j < 2 * 2 ^ k - 1"
proof -
  have "(2 :: nat) ^ (k - d) \<le> 2 ^ k" by (intro power_increasing) auto
  with assms show ?thesis unfolding ix_def by arith
qed

lemma ix_inj:
  assumes "d \<le> k" "d' \<le> k" "j < 2 ^ (k - d)" "j' < 2 ^ (k - d')" "ix k d j = ix k d' j'"
  shows "d = d' \<and> j = j'"
proof -
  have aux: "\<not> a < b" if "2 ^ a - 1 + j = 2 ^ b - 1 + j'" "j < 2 ^ a" for a b j j' :: nat
  proof
    assume "a < b"
    then have "(2 :: nat) ^ Suc a \<le> 2 ^ b" by (intro power_increasing) auto
    moreover have "(0 :: nat) < 2 ^ a" by simp
    ultimately show False using that by simp
  qed
  have "k - d = k - d'"
    using aux [of "k - d" j "k - d'" j'] aux [of "k - d'" j' "k - d" j] assms
    unfolding ix_def by (metis linorder_neqE_nat)
  then have "d = d'" using assms by arith
  with assms(5) show ?thesis using ix_plus1 [of k d j] ix_plus1 [of k d j'] by simp
qed

lemma ix_double: "d < k \<Longrightarrow> ix k d j + 1 = 2 * 2 ^ (k - Suc d) + j"
  unfolding ix_plus1 by (metis Suc_diff_Suc power_Suc)

lemma ix_parent:
  assumes "d < k"
  shows "mt_parent (ix k d j) = ix k (Suc d) (j div 2)"
proof -
  have "(0 :: nat) < 2 ^ (k - Suc d)" by simp
  moreover have "ix k d j + 1 = 2 * 2 ^ (k - Suc d) + j"
    using assms by (rule ix_double)
  moreover have "ix k (Suc d) (j div 2) + 1 = 2 ^ (k - Suc d) + j div 2" by (rule ix_plus1)
  ultimately show ?thesis unfolding mt_parent_def by auto
qed

lemma pow31: "k \<le> 31 \<Longrightarrow> 4 * 2 ^ k < SIZE_MOD"
proof -
  assume "k \<le> 31"
  then have "(2 :: nat) ^ k \<le> 2 ^ 31" by (intro power_increasing) auto
  then show ?thesis unfolding SIZE_MOD_def by simp
qed

lemma ix_children:
  assumes "k \<le> 31" "d < k" "j < 2 ^ (k - Suc d)"
  shows "mt_left (ix k (Suc d) j) = ix k d (2 * j)" (is ?left)
    and "mt_right (ix k (Suc d) j) = ix k d (2 * j + 1)" (is ?right)
proof -
  have pos: "(0 :: nat) < 2 ^ (k - Suc d)" by simp
  have "ix k (Suc d) j < 2 * 2 ^ k - 1" using assms by (intro ix_le) auto
  then have b: "ix k (Suc d) j * 2 + 2 < SIZE_MOD" using pow31 [OF assms(1)] by simp
  have e: "ix k d i + 1 = 2 * 2 ^ (k - Suc d) + i"
    for i using assms(2) by (rule ix_double)
  have "2 * ix k (Suc d) j + 1 = ix k d (2 * j)" "2 * ix k (Suc d) j + 2 = ix k d (2 * j + 1)"
    using pos e [of "2 * j"] e [of "2 * j + 1"] ix_plus1 [of k "Suc d" j] by simp_all
  then show ?left ?right using b by (simp_all add: mt_left_def mt_right_def size_t_simps)
qed

section \<open>Climbing to the root\<close>

text \<open>
  After \<open>t\<close> rounds of the loop for leaf number \<open>c\<close>: every node that was complete before, and
  every node up to level \<open>t\<close> on the way from the new leaf, is the node of the new leaves \<open>lv\<close>.
\<close>

definition climbed :: "nat \<Rightarrow> ('h \<Rightarrow> 'h \<Rightarrow> 'h) \<Rightarrow> 'h list \<Rightarrow> nat \<Rightarrow> nat \<Rightarrow> 'h list \<Rightarrow> bool" where
  "climbed k h lv c t tree \<longleftrightarrow> length tree = 2 * 2 ^ k - 1 \<and>
     (\<forall>d\<le>k. \<forall>j<2 ^ (k - d). (j + 1) * 2 ^ d \<le> c \<or> d \<le> t \<and> j = c div 2 ^ d \<longrightarrow>
        tree ! ix k d j = mnode h lv d j)"

lemma climbedD:
  "climbed k h lv c t tree \<Longrightarrow> d \<le> k \<Longrightarrow> j < 2 ^ (k - d) \<Longrightarrow>
     (j + 1) * 2 ^ d \<le> c \<or> d \<le> t \<and> j = c div 2 ^ d \<Longrightarrow> tree ! ix k d j = mnode h lv d j"
  unfolding climbed_def by blast

lemma div_pow_less: "c < 2 ^ k \<Longrightarrow> d \<le> k \<Longrightarrow> c div 2 ^ d < (2 :: nat) ^ (k - d)"
  by (simp add: less_mult_imp_div_less power_add [symmetric])

lemma div_pow_Suc: "c div 2 ^ Suc d = c div 2 ^ d div (2 :: nat)"
  by (metis div_mult2_eq mult.commute power_Suc)

lemma climbed_step:
  assumes cl: "climbed k h lv c t tree" and c: "c < 2 ^ k" and t: "t < k"
    and len: "length lv = Suc c"
  shows "climbed k h lv c (Suc t)
    (tree[ix k (Suc t) (c div 2 ^ Suc t) := mnode h lv (Suc t) (c div 2 ^ Suc t)])"
  unfolding climbed_def
proof (intro conjI allI impI)
  let ?p = "c div 2 ^ Suc t"
  have p: "?p < 2 ^ (k - Suc t)" using c t by (intro div_pow_less) auto
  have l: "length tree = 2 * 2 ^ k - 1" using cl by (simp add: climbed_def)
  then show "length (tree[ix k (Suc t) ?p := mnode h lv (Suc t) ?p]) = 2 * 2 ^ k - 1" by simp
  fix d j
  assume d: "d \<le> k" and j: "j < 2 ^ (k - d)"
    and cond: "(j + 1) * 2 ^ d \<le> c \<or> d \<le> Suc t \<and> j = c div 2 ^ d"
  show "tree[ix k (Suc t) ?p := mnode h lv (Suc t) ?p] ! ix k d j = mnode h lv d j"
  proof (cases "ix k (Suc t) ?p = ix k d j")
    case True
    then have "Suc t = d \<and> ?p = j" using p d j t by (intro ix_inj) auto
    then show ?thesis using ix_le [OF d j] by (auto simp: l)
  next
    case False
    then have "(j + 1) * 2 ^ d \<le> c \<or> d \<le> t \<and> j = c div 2 ^ d"
      using cond by (auto simp: le_Suc_eq)
    then show ?thesis using False climbedD [OF cl d j] by simp
  qed
qed

lemma climbed_node:
  assumes "k \<le> 31" and c: "c < 2 ^ k" and lv: "length lv = Suc c" and t: "t < k"
    and climbed: "climbed k (hash_pair sha3) lv c t tree"
    and j: "j = c div 2 ^ t" and p: "p = c div 2 ^ Suc t"
  shows "bindR (if ix k t j = ix k t (2 * p) then Inr (tree ! ix k t (2 * p))
      else bindR (vec_get tree (ix k t (2 * p + 1)))
        (\<lambda>b. Inr (hash_pair sha3 (tree ! ix k t (2 * p)) b))) f
    = f (mnode (hash_pair sha3) lv (Suc t) p)"
proof -
  let ?h = "hash_pair sha3"
  have pl: "p < 2 ^ (k - Suc t)" unfolding p using c t by (intro div_pow_less) auto
  have "(2 :: nat) ^ (k - t) = 2 * 2 ^ (k - Suc t)" using t by (metis Suc_diff_Suc power_Suc)
  then have lt: "2 * p < 2 ^ (k - t)" "2 * p + 1 < 2 ^ (k - t)" using pl by auto
  have "length tree = 2 * 2 ^ k - 1" using climbed by (simp add: climbed_def)
  then have inb: "ix k t (2 * p + 1) < length tree" using ix_le [of t k] lt t by auto
  have jp: "j = 2 * p \<or> j = 2 * p + 1" unfolding j p div_pow_Suc by arith
  have left: "tree ! ix k t (2 * p) = mnode ?h lv t (2 * p)"
  proof (rule climbedD [OF climbed])
    have "(2 * p + 1) * 2 ^ t \<le> j * 2 ^ t" if "j = 2 * p + 1" by (simp only: that)
    also have "j * 2 ^ t \<le> c" by (simp add: j)
    finally show "(2 * p + 1) * 2 ^ t \<le> c \<or> t \<le> t \<and> 2 * p = c div 2 ^ t"
      using jp by (auto simp: j)
  qed (use t lt in auto)
  show ?thesis
  proof (cases "j = 2 * p")
    case True
    have "c < (2 * p + 1) * 2 ^ t"
      using True unfolding j
      by (metis add.commute div_less_iff_less_mult lessI plus_1_eq_Suc zero_less_numeral zero_less_power)
    then have "mnode ?h lv (Suc t) p = mnode ?h lv t (2 * p)" using lv by simp
    with True left show ?thesis by simp
  next
    case False
    then have odd: "j = 2 * p + 1" using jp by simp
    have "tree ! ix k t (2 * p + 1) = mnode ?h lv t (2 * p + 1)"
      using t lt odd by (intro climbedD [OF climbed]) (auto simp: j)
    moreover have "(2 * p + 1) * 2 ^ t \<le> c" unfolding odd [symmetric] by (simp add: j)
    then have "mnode ?h lv (Suc t) p = ?h (mnode ?h lv t (2 * p)) (mnode ?h lv t (2 * p + 1))"
      using lv by simp
    moreover have "ix k t j \<noteq> ix k t (2 * p)" unfolding odd
      using ix_plus1 [of k t "2 * p + 1"] ix_plus1 [of k t "2 * p"] by linarith
    ultimately show ?thesis using left inb by (simp add: vec_get_def)
  qed
qed

lemma push_loop_ok:
  assumes "k \<le> 31" and "c < 2 ^ k" and "length lv = Suc c"
  shows "climbed k (hash_pair sha3) lv c t tree \<Longrightarrow> t + n \<le> k \<Longrightarrow>
    \<exists>tree'. push_loop sha3 n tree (mt_parent (ix k t (c div 2 ^ t))) (ix k t (c div 2 ^ t)) r
        = Inr (tree', if n = 0 then r else ix k (t + n) (c div 2 ^ (t + n)))
      \<and> climbed k (hash_pair sha3) lv c (t + n) tree'"
proof (induction n arbitrary: t tree r)
  case (Suc n)
  let ?h = "hash_pair sha3"
  define j where "j = c div 2 ^ t"
  define p where "p = c div 2 ^ Suc t"
  have t: "t < k" using Suc.prems by simp
  have p: "p < 2 ^ (k - Suc t)" unfolding p_def using assms(2) t by (intro div_pow_less) auto
  have par: "mt_parent (ix k t j) = ix k (Suc t) p"
    by (simp only: ix_parent [OF t] div_pow_Suc j_def p_def)
  have ch: "mt_left (ix k (Suc t) p) = ix k t (2 * p)"
    "mt_right (ix k (Suc t) p) = ix k t (2 * p + 1)"
    using ix_children [OF assms(1) t p] by auto
  have pw: "(2 :: nat) ^ (k - t) = 2 * 2 ^ (k - Suc t)" using t by (metis Suc_diff_Suc power_Suc)
  then have lt: "2 * p < 2 ^ (k - t)" "2 * p + 1 < 2 ^ (k - t)" using p by auto
  have len: "length tree = 2 * 2 ^ k - 1" using Suc.prems by (simp add: climbed_def)
  have inb: "ix k t (2 * p) < length tree" "ix k t (2 * p + 1) < length tree"
    "ix k (Suc t) p < length tree"
    using ix_le [of t k] ix_le [of "Suc t" k] lt p t by (auto simp: len)
  have step: "climbed k ?h lv c (Suc t) (tree[ix k (Suc t) p := mnode ?h lv (Suc t) p])"
    unfolding p_def using climbed_step [OF Suc.prems(1) assms(2) t assms(3)] .
  note node = climbed_node [OF assms(1,2,3) t Suc.prems(1) j_def p_def]
  obtain tree' where tree':
    "push_loop sha3 n (tree[ix k (Suc t) p := mnode ?h lv (Suc t) p])
        (mt_parent (ix k (Suc t) p)) (ix k (Suc t) p) (ix k (Suc t) p)
      = Inr (tree', if n = 0 then ix k (Suc t) p else ix k (Suc t + n) (c div 2 ^ (Suc t + n)))"
    "climbed k ?h lv c (Suc t + n) tree'"
    using Suc.IH [OF step [unfolded p_def]] Suc.prems(2) unfolding p_def by fastforce
  have "push_loop sha3 (Suc n) tree (mt_parent (ix k t j)) (ix k t j) r
     = push_loop sha3 n (tree[ix k (Suc t) p := mnode ?h lv (Suc t) p])
         (mt_parent (ix k (Suc t) p)) (ix k (Suc t) p) (ix k (Suc t) p)"
    unfolding push_loop.simps Let_def par ch vec_get_def [of tree "ix k t (2 * p)"]
    using inb by (simp only: if_True bindR_Inr node vec_set_def)
  also have "\<dots> = Inr (tree', ix k (t + Suc n) (c div 2 ^ (t + Suc n)))"
    unfolding tree'(1) by (simp add: p_def)
  finally show ?case using tree'(2) unfolding j_def by auto
qed (auto simp: add_0_right)

section \<open>Pushing onto a block\<close>

definition tree_ok :: "nat \<Rightarrow> ('h \<Rightarrow> 'h \<Rightarrow> 'h) \<Rightarrow> 'h list \<Rightarrow> 'h list \<Rightarrow> bool" where
  "tree_ok k h tree lv \<longleftrightarrow> length tree = 2 * 2 ^ k - 1 \<and> length lv \<le> 2 ^ k \<and>
     (\<forall>d\<le>k. \<forall>j<2 ^ (k - d). (j + 1) * 2 ^ d \<le> length lv \<longrightarrow> tree ! ix k d j = mnode h lv d j)"

lemma tree_ok_take:
  assumes "tree_ok k h tree lv"
  shows "tree_ok k h tree (take c lv)"
proof -
  have "mnode h (take c lv) d j = mnode h lv d j" if "(j + 1) * 2 ^ d \<le> length (take c lv)" for d j
    using mnode_append [OF that, of h "drop c lv"] by simp
  with assms show ?thesis by (auto simp: tree_ok_def)
qed

lemma tree_ok_leaf:
  assumes "tree_ok k h tree lv" and "i < length lv"
  shows "tree ! (2 ^ k - 1 + i) = lv ! i"
proof -
  have "i < 2 ^ (k - 0)" using assms by (auto simp: tree_ok_def)
  with assms have "tree ! ix k 0 i = mnode h lv 0 i"
    unfolding tree_ok_def by (metis One_nat_def Suc_eq_plus1 Suc_leI le0 mult.right_neutral power_0)
  then show ?thesis by (simp add: ix_def)
qed

lemma climbed_leaf:
  assumes ok: "tree_ok k h tree lv" and room: "length lv < 2 ^ k"
  shows "climbed k h (lv @ [x]) (length lv) 0 (tree[2 ^ k - 1 + length lv := x])"
  unfolding climbed_def
proof (intro conjI allI impI)
  fix d j
  assume d: "d \<le> k" and j: "j < 2 ^ (k - d)"
    and c: "(j + 1) * 2 ^ d \<le> length lv \<or> d \<le> 0 \<and> j = length lv div 2 ^ d"
  have at: "2 ^ k - 1 + length lv = ix k 0 (length lv)" by (simp add: ix_def)
  have len: "length tree = 2 * 2 ^ k - 1" using ok by (simp add: tree_ok_def)
  show "tree[2 ^ k - 1 + length lv := x] ! ix k d j = mnode h (lv @ [x]) d j"
  proof (cases "ix k 0 (length lv) = ix k d j")
    case True
    then have "0 = d \<and> length lv = j" using d j room by (intro ix_inj) auto
    moreover have "ix k d j < length tree" using ix_le [OF d j] len by simp
    ultimately show ?thesis unfolding at by auto
  next
    case False
    then have "(j + 1) * 2 ^ d \<le> length lv" using c by auto
    moreover from this have "tree ! ix k d j = mnode h lv d j"
      using ok d j by (auto simp: tree_ok_def)
    ultimately show ?thesis using False mnode_append [of j d lv h "[x]"] unfolding at by simp
  qed
qed (use ok in \<open>simp add: tree_ok_def\<close>)

lemma mt_log2_bounds: "0 < x \<Longrightarrow> 2 ^ mt_log2 x \<le> x \<and> x < 2 ^ Suc (mt_log2 x)"
proof (induction x rule: mt_log2.induct)
  case (1 x)
  show ?case
  proof (cases "1 < x")
    case True
    then have "2 ^ mt_log2 (x div 2) \<le> x div 2 \<and> x div 2 < 2 ^ Suc (mt_log2 (x div 2))"
      using 1 by simp
    moreover have "mt_log2 x = Suc (mt_log2 (x div 2))" using True by (simp add: mt_log2.simps [of x])
    ultimately show ?thesis by auto
  next
    case False
    then have "x = 1" "mt_log2 x = 0" using 1 by (simp_all add: mt_log2.simps [of x])
    then show ?thesis by simp
  qed
qed

lemma mt_log2_less:
  assumes "0 < x" "x < 2 ^ k"
  shows "mt_log2 x < k"
proof -
  have "(2 :: nat) ^ mt_log2 x < 2 ^ k" using mt_log2_bounds [OF assms(1)] assms(2) by linarith
  then show ?thesis by (simp add: power_strict_increasing_iff)
qed

text \<open>A completely climbed tree holds all complete nodes of the longer list.\<close>

lemma climbed_tree_ok:
  assumes "climbed k h lv c np tree" and "length lv = Suc c" and "c < 2 ^ k" and "c < 2 ^ np"
  shows "tree_ok k h tree lv"
  unfolding tree_ok_def
proof (intro conjI allI impI)
  fix d j
  assume d: "d \<le> k" and j: "j < 2 ^ (k - d)" and c: "(j + 1) * 2 ^ d \<le> length lv"
  have "(j + 1) * 2 ^ d \<le> c \<or> d \<le> np \<and> j = c div 2 ^ d"
  proof (cases "(j + 1) * 2 ^ d \<le> c")
    case False
    then have eq: "(j + 1) * 2 ^ d = Suc c" using c assms(2) by simp
    have e: "(j + 1) * 2 ^ d = 2 ^ d * j + 2 ^ d" "2 ^ d * Suc j = 2 ^ d * j + 2 ^ d"
      by simp_all
    have aux: "y + m = Suc c \<Longrightarrow> 0 < m \<Longrightarrow> y \<le> c \<and> c < y + m" for y m by arith
    have "2 ^ d * j \<le> c" "c < 2 ^ d * Suc j"
      using aux [of "2 ^ d * j" "2 ^ d"] eq unfolding e by simp_all
    then have "j = c div 2 ^ d" using div_nat_eqI by metis
    moreover have "2 ^ d \<le> (j + 1) * 2 ^ d" by simp
    then have "(2 :: nat) ^ d \<le> 2 ^ np" using eq assms(4) by linarith
    then have "d \<le> np" by (simp add: power_increasing_iff)
    ultimately show ?thesis by simp
  qed simp
  then show "tree ! ix k d j = mnode h lv d j" using climbedD [OF assms(1) d j] by simp
qed (use assms in \<open>simp_all add: climbed_def\<close>)

text \<open>The state around the last block, whose leaves so far are \<open>lv\<close>.\<close>

definition mt_block :: "(byte list \<Rightarrow> hash_t) \<Rightarrow> nat \<Rightarrow> merkle_tree \<Rightarrow> hash_t list \<Rightarrow> bool" where
  "mt_block sha3 k m lv \<longleftrightarrow> 1 \<le> k \<and> k \<le> 31 \<and> mt_leafs m = 2 ^ k \<and> mt_size m = 2 * 2 ^ k - 1
     \<and> mt_trees m \<noteq> [] \<and> tree_ok k (hash_pair sha3) (last (mt_trees m)) lv
     \<and> mt_i_current m = 2 ^ k - 1 + length lv"

lemma push_first:
  assumes "mt_block sha3 k m []"
  shows "\<exists>tree'. mt_push sha3 x m = Inr (m\<lparr>mt_trees := butlast (mt_trees m) @ [tree'],
      mt_i_root := 2 ^ k - 1, mt_i_current := 2 ^ k\<rparr>)
    \<and> tree_ok k (hash_pair sha3) tree' [x] \<and> tree' ! (2 ^ k - 1) = x"
proof -
  let ?t = "last (mt_trees m)"
  from assms have b: "(1 :: nat) \<le> 2 ^ k" "k \<le> 31" "mt_leafs m = 2 ^ k" "mt_trees m \<noteq> []"
    "tree_ok k (hash_pair sha3) ?t []" "mt_i_current m = 2 ^ k - 1" "length ?t = 2 * 2 ^ k - 1"
    by (auto simp: mt_block_def tree_ok_def)
  then have i: "2 ^ k - 1 < length ?t" by linarith
  have sz: "sz_sub (2 ^ k) 1 = 2 ^ k - 1" "sz_add (2 ^ k - 1) 1 = 2 ^ k"
    using b(1) pow31 [OF b(2)] by (simp_all add: size_t_simps)
  have "climbed k (hash_pair sha3) [x] 0 0 (?t[2 ^ k - 1 := x])"
    using climbed_leaf [OF b(5), of x] by simp
  then have "tree_ok k (hash_pair sha3) (?t[2 ^ k - 1 := x]) [x]"
    by (rule climbed_tree_ok) auto
  with b i sz show ?thesis
    by (auto simp: mt_push_def list_back_def vec_set_def)
qed

lemma push_climb:
  assumes blk: "mt_block sha3 k m lv" and ne: "lv \<noteq> []" and room: "length lv < 2 ^ k"
  shows "\<exists>tree' r. push_loop sha3
          (sz_add 1 (mt_log2 (sz_sub (mt_i_current m) (sz_sub (mt_leafs m) 1))))
          ((last (mt_trees m))[mt_i_current m := x]) (mt_parent (mt_i_current m)) (mt_i_current m)
          (mt_i_root m) = Inr (tree', r)
    \<and> tree_ok k (hash_pair sha3) tree' (lv @ [x]) \<and> r < length tree'
    \<and> tree' ! r = merkle_root_of (hash_pair sha3) (lv @ [x])
    \<and> (Suc (length lv) = 2 ^ k \<longrightarrow> r = 0)"
proof -
  let ?h = "hash_pair sha3" and ?c = "length lv" and ?t = "last (mt_trees m)"
  define np where "np = Suc (mt_log2 ?c)"
  from blk have b: "1 \<le> k" "k \<le> 31" "mt_leafs m = 2 ^ k" "tree_ok k ?h ?t lv"
    "mt_i_current m = 2 ^ k - 1 + ?c"
    by (auto simp: mt_block_def)
  have c: "0 < ?c" using ne by simp
  have npk: "np \<le> k" using mt_log2_less [OF c room] by (simp add: np_def)
  have cnp: "?c < 2 ^ np" using mt_log2_bounds [OF c] by (simp add: np_def)
  have pk: "(0 :: nat) < 2 ^ k" by simp
  have "2 ^ k - 1 + ?c < SIZE_MOD" "2 ^ k < SIZE_MOD" "1 + mt_log2 ?c < SIZE_MOD"
    using pow31 [OF b(2)] room npk b(2) by (simp_all add: np_def) (simp add: SIZE_MOD_def)
  then have n: "sz_add 1 (mt_log2 (sz_sub (mt_i_current m) (sz_sub (mt_leafs m) 1))) = np"
    using b pk by (simp add: size_t_simps np_def)
  have cur: "mt_i_current m = ix k 0 (?c div 2 ^ 0)" using b by (simp add: ix_def)
  obtain tree' where t': "push_loop sha3 np (?t[mt_i_current m := x])
      (mt_parent (mt_i_current m)) (mt_i_current m) (mt_i_root m) = Inr (tree', ix k np (?c div 2 ^ np))"
    "climbed k ?h (lv @ [x]) ?c np tree'"
    using push_loop_ok [OF b(2) room, of "lv @ [x]" sha3 0 "?t[2 ^ k - 1 + ?c := x]" np "mt_i_root m"]
      climbed_leaf [OF b(4) room, of x] npk
    unfolding cur [symmetric] by (auto simp: b(5) np_def)
  have ok: "tree_ok k ?h tree' (lv @ [x])"
    using climbed_tree_ok [OF t'(2) _ room cnp] by simp
  have z: "?c div 2 ^ np = 0" using cnp by simp
  have r: "ix k np 0 < length tree'"
    using ok ix_le [OF npk, of 0] by (simp add: tree_ok_def)
  have "tree' ! ix k np 0 = mnode ?h (lv @ [x]) np 0"
    using climbedD [OF t'(2) npk, of 0] z by simp
  also have "\<dots> = merkle_root_of ?h (lv @ [x])" using cnp by (intro mnode_root) auto
  finally have root: "tree' ! ix k np 0 = merkle_root_of ?h (lv @ [x])" .
  have "ix k np 0 = 0" if "Suc ?c = 2 ^ k"
  proof -
    have "(2 :: nat) ^ k \<le> 2 ^ np" using cnp unfolding that [symmetric] by simp
    then have "k = np" using npk power_increasing_iff [of "2 :: nat" k np] by simp
    then show ?thesis by (simp add: ix_def)
  qed
  with n t'(1) ok r root show ?thesis unfolding z by auto
qed

lemma push_within:
  assumes blk: "mt_block sha3 k m lv" and room: "Suc (length lv) < 2 ^ k"
  shows "\<exists>tree' r. mt_push sha3 x m = Inr (m\<lparr>mt_trees := butlast (mt_trees m) @ [tree'],
      mt_i_root := r, mt_i_current := mt_i_current m + 1\<rparr>)
    \<and> tree_ok k (hash_pair sha3) tree' (lv @ [x]) \<and> r < length tree'
    \<and> tree' ! r = merkle_root_of (hash_pair sha3) (lv @ [x])"
proof (cases "lv = []")
  case True
  then have b0: "mt_block sha3 k m []" using blk by simp
  obtain t where t: "mt_push sha3 x m = Inr (m\<lparr>mt_trees := butlast (mt_trees m) @ [t],
      mt_i_root := 2 ^ k - 1, mt_i_current := 2 ^ k\<rparr>)"
    "tree_ok k (hash_pair sha3) t [x]" "t ! (2 ^ k - 1) = x"
    using push_first [OF b0] by blast
  have p: "(0 :: nat) < 2 ^ k" by simp
  then have "2 ^ k = mt_i_current m + 1" using b0 by (simp add: mt_block_def)
  moreover have "2 ^ k - 1 < length t"
    using t(2) p unfolding tree_ok_def by linarith
  ultimately show ?thesis using t True by auto
next
  case False
  have "length lv < 2 ^ k" using room by simp
  from push_climb [OF blk False this, of x] obtain tree' r where c:
    "push_loop sha3
          (sz_add 1 (mt_log2 (sz_sub (mt_i_current m) (sz_sub (mt_leafs m) 1))))
          ((last (mt_trees m))[mt_i_current m := x]) (mt_parent (mt_i_current m)) (mt_i_current m)
          (mt_i_root m) = Inr (tree', r)"
    "tree_ok k (hash_pair sha3) tree' (lv @ [x])" "r < length tree'"
    "tree' ! r = merkle_root_of (hash_pair sha3) (lv @ [x])" by blast
  from blk have b: "k \<le> 31" "mt_trees m \<noteq> []" "mt_leafs m = 2 ^ k" "mt_size m = 2 * 2 ^ k - 1"
    "length (last (mt_trees m)) = 2 * 2 ^ k - 1" "mt_i_current m = 2 ^ k - 1 + length lv"
    by (auto simp: mt_block_def tree_ok_def)
  have lv: "0 < length lv" using False by simp
  have sz: "sz_sub (mt_leafs m) 1 = 2 ^ k - 1" "sz_add (mt_i_current m) 1 = mt_i_current m + 1"
    using pow31 [OF b(1)] room b(3,6) by (simp_all add: size_t_simps)
  have cur: "mt_i_current m < length (last (mt_trees m))" "mt_i_current m \<noteq> 2 ^ k - 1"
    "mt_i_current m + 1 \<noteq> mt_size m"
    using b room lv by linarith+
  have "mt_push sha3 x m = Inr (m\<lparr>mt_trees := butlast (mt_trees m) @ [tree'],
      mt_i_root := r, mt_i_current := mt_i_current m + 1\<rparr>)"
    unfolding mt_push_def list_back_def vec_set_def Let_def
    using b(2) sz cur c(1) by (simp del: One_nat_def)
  with c(2-) show ?thesis by blast
qed

text \<open>The push that fills the block starts the next one with the root of this one.\<close>

lemma push_completes:
  assumes blk: "mt_block sha3 k m lv" and full: "Suc (length lv) = 2 ^ k"
    and small: "(mt_max_blocks m + 2) * 2 ^ k < SIZE_MOD"
  shows "\<exists>tree' fresh. mt_push sha3 x m = Inr (m\<lparr>mt_trees :=
        (let ts = butlast (mt_trees m) @ [tree', fresh]
         in if length ts = mt_max_blocks m + 2 then tl ts else ts),
      mt_i_root := 2 ^ k - 1, mt_i_current := 2 ^ k\<rparr>)
    \<and> tree_ok k (hash_pair sha3) tree' (lv @ [x])
    \<and> tree_ok k (hash_pair sha3) fresh [merkle_root_of (hash_pair sha3) (lv @ [x])]
    \<and> fresh ! (2 ^ k - 1) = merkle_root_of (hash_pair sha3) (lv @ [x])"
proof -
  let ?root = "merkle_root_of (hash_pair sha3) (lv @ [x])"
  from blk have b: "1 \<le> k" "k \<le> 31" "mt_trees m \<noteq> []" "mt_leafs m = 2 ^ k"
    "mt_size m = 2 * 2 ^ k - 1" "length (last (mt_trees m)) = 2 * 2 ^ k - 1"
    "mt_i_current m = 2 ^ k - 1 + length lv"
    by (auto simp: mt_block_def tree_ok_def)
  have "(2 :: nat) ^ 1 \<le> 2 ^ k" using b(1) by (intro power_increasing) auto
  then have k2: "2 \<le> (2 :: nat) ^ k" by simp
  then have lv: "lv \<noteq> []" using full by auto
  have room: "length lv < 2 ^ k" using full by simp
  from push_climb [OF blk lv room, of x] full obtain tree' where c:
    "push_loop sha3
          (sz_add 1 (mt_log2 (sz_sub (mt_i_current m) (sz_sub (mt_leafs m) 1))))
          ((last (mt_trees m))[mt_i_current m := x]) (mt_parent (mt_i_current m)) (mt_i_current m)
          (mt_i_root m) = Inr (tree', 0)"
    "tree_ok k (hash_pair sha3) tree' (lv @ [x])" "0 < length tree'" "tree' ! 0 = ?root" by blast
  define fresh where "fresh = (replicate (mt_size m) zero_hash)[2 ^ k - 1 := ?root]"
  have "length (replicate (mt_size m) zero_hash) = 2 * 2 ^ k - 1" using b by simp
  then have "tree_ok k (hash_pair sha3) (replicate (mt_size m) zero_hash) []"
    by (simp add: tree_ok_def)
  then have "climbed k (hash_pair sha3) [?root] 0 0 fresh"
    using climbed_leaf [of k "hash_pair sha3" _ "[]" ?root] by (simp add: fresh_def)
  then have fr: "tree_ok k (hash_pair sha3) fresh [?root]"
    by (rule climbed_tree_ok) auto
  have i: "2 ^ k - 1 < mt_size m" using b k2 by linarith
  have f0: "fresh ! (2 ^ k - 1) = ?root" using i by (simp add: fresh_def)
  have mb: "mt_max_blocks m + 2 < SIZE_MOD"
  proof -
    have "(mt_max_blocks m + 2) * 1 \<le> (mt_max_blocks m + 2) * 2 ^ k" by (intro mult_le_mono) auto
    with small show ?thesis by simp
  qed
  have sz: "sz_sub (mt_leafs m) 1 = 2 ^ k - 1" "sz_add (mt_i_current m) 1 = mt_i_current m + 1"
    "sz_add (mt_max_blocks m) 2 = mt_max_blocks m + 2"
    using pow31 [OF b(2)] room b(4,7) k2 mb by (simp_all add: size_t_simps)
  have cur: "mt_i_current m < length (last (mt_trees m))" "mt_i_current m \<noteq> 2 ^ k - 1"
    "mt_i_current m + 1 = mt_size m"
    using b full k2 by linarith+
  have "mt_push sha3 x m = Inr (m\<lparr>mt_trees :=
        (let ts = butlast (mt_trees m) @ [tree', fresh]
         in if length ts = mt_max_blocks m + 2 then tl ts else ts),
      mt_i_root := 2 ^ k - 1, mt_i_current := 2 ^ k\<rparr>)"
    unfolding mt_push_def list_back_def vec_set_def vec_get_def Let_def fresh_def
    using b(3,4) sz cur c(1,3,4) i by (simp del: One_nat_def)
  with c(2) fr f0 show ?thesis by blast
qed

section \<open>The history of the tree\<close>

text \<open>
  The reference for a sequence of pushes: the blocks, each a list of leaves.  A block that
  reaches the number of leaves is followed by one that starts with its root.
\<close>

definition blk_push :: "('h \<Rightarrow> 'h \<Rightarrow> 'h) \<Rightarrow> nat \<Rightarrow> 'h list list \<Rightarrow> 'h \<Rightarrow> 'h list list" where
  "blk_push h leafs bs x =
     (let b = last bs @ [x]
      in if length b = leafs then butlast bs @ [b, [merkle_root_of h b]] else butlast bs @ [b])"

definition blk_of :: "('h \<Rightarrow> 'h \<Rightarrow> 'h) \<Rightarrow> nat \<Rightarrow> 'h list \<Rightarrow> 'h list list" where
  "blk_of h leafs xs = foldl (blk_push h leafs) [[]] xs"

lemma blk_of_Nil [simp]: "blk_of h l [] = [[]]"
  by (simp add: blk_of_def)

lemma blk_of_snoc: "blk_of h l (xs @ [x]) = blk_push h l (blk_of h l xs) x"
  by (simp add: blk_of_def)

lemma blk_of_nonempty [simp]: "blk_of h l xs \<noteq> []"
  by (cases xs rule: rev_cases) (simp_all add: blk_of_snoc blk_push_def Let_def)

lemma blk_last:
  assumes "2 \<le> l"
  shows "length (last (blk_of h l xs)) < l \<and> (last (blk_of h l xs) = [] \<longleftrightarrow> xs = [])"
  by (induction xs rule: rev_induct)
     (use assms in \<open>auto simp: blk_of_snoc blk_push_def Let_def\<close>)

text \<open>How many leaves: every block but the first repeats one hash.\<close>

lemma blk_total:
  assumes "2 \<le> l"
  shows "length xs = (length (blk_of h l xs) - 1) * (l - 1) + length (last (blk_of h l xs))"
proof (induction xs rule: rev_induct)
  case (snoc x xs)
  obtain bs b where bs: "blk_of h l xs = bs @ [b]"
    by (metis blk_of_nonempty rev_exhaust)
  then show ?case
    using snoc assms by (auto simp: blk_of_snoc blk_push_def Let_def)
qed simp

text \<open>The blocks of a shorter history are the blocks of the longer one, cut off.\<close>

lemma blk_prefix:
  assumes "bsx = blk_of h l xs" and "bs = blk_of h l (xs @ ys)"
  shows "length bsx \<le> length bs \<and> butlast bsx = take (length bsx - 1) bs
    \<and> last bsx = take (length (last bsx)) (bs ! (length bsx - 1))"
  using assms(2)
proof (induction ys arbitrary: bs rule: rev_induct)
  case Nil
  then have "bs = bsx" "bsx \<noteq> []" using assms(1) by auto
  then show ?case by (auto simp: butlast_conv_take last_conv_nth)
next
  case (snoc y ys)
  define b0 where "b0 = blk_of h l (xs @ ys)"
  note IH = snoc.IH [OF b0_def]
  have bs: "bs = blk_push h l b0 y" using snoc.prems by (simp add: b0_def blk_of_snoc flip: append_assoc)
  have ne: "b0 \<noteq> []" "bsx \<noteq> []" by (simp_all add: b0_def assms(1))
  obtain c0 c where c: "b0 = c0 @ [c]" using ne by (metis rev_exhaust)
  obtain cs where cs: "bs = c0 @ (c @ [y]) # cs"
    unfolding bs c blk_push_def Let_def
    by (cases "length (c @ [y]) = l") (auto simp: butlast_append)
  show ?case
  proof (cases "length bsx = length b0")
    case True
    then have l: "length bsx - 1 = length c0" by (simp add: c)
    then have t: "last bsx = take (length (last bsx)) c" using IH by (simp add: c)
    then have "length (last bsx) \<le> length c" by (metis length_take min.cobounded1)
    then show ?thesis using IH True l t by (auto simp: cs c)
  next
    case False
    then have "length bsx - 1 < length c0" using IH ne by (cases "length bsx") (auto simp: c)
    then show ?thesis using IH by (auto simp: cs c nth_append)
  qed
qed

text \<open>The tree and the sequence of hashes pushed so far.\<close>

definition hist_rel :: "(byte list \<Rightarrow> hash_t) \<Rightarrow> nat \<Rightarrow> merkle_tree \<Rightarrow> hash_t list \<Rightarrow> bool" where
  "hist_rel sha3 k m xs \<longleftrightarrow>
     (let bs = blk_of (hash_pair sha3) (2 ^ k) xs in
      mt_block sha3 k m (last bs)
      \<and> list_all2 (tree_ok k (hash_pair sha3)) (mt_trees m) (lastn (length (mt_trees m)) bs)
      \<and> length (mt_trees m) \<le> mt_max_blocks m + 1 \<and> 0 < mt_max_blocks m
      \<and> (mt_max_blocks m + 2) * 2 ^ k < SIZE_MOD
      \<and> (xs \<noteq> [] \<longrightarrow> mt_i_root m < length (last (mt_trees m))
           \<and> last (mt_trees m) ! mt_i_root m = merkle_root_of (hash_pair sha3) (last bs)))"

lemma hist_relD:
  assumes "hist_rel sha3 k m xs"
  shows "mt_block sha3 k m (last (blk_of (hash_pair sha3) (2 ^ k) xs))"
    and "list_all2 (tree_ok k (hash_pair sha3)) (mt_trees m)
      (lastn (length (mt_trees m)) (blk_of (hash_pair sha3) (2 ^ k) xs))"
    and "length (mt_trees m) \<le> mt_max_blocks m + 1" and "0 < mt_max_blocks m"
    and "(mt_max_blocks m + 2) * 2 ^ k < SIZE_MOD"
    and "length (mt_trees m) \<le> length (blk_of (hash_pair sha3) (2 ^ k) xs)"
    and "2 \<le> (2 :: nat) ^ k"
  using assms
proof -
  show "length (mt_trees m) \<le> length (blk_of (hash_pair sha3) (2 ^ k) xs)"
    using assms by (auto simp: hist_rel_def Let_def dest: list_all2_lengthD)
  have "(2 :: nat) ^ 1 \<le> 2 ^ k"
    using assms by (intro power_increasing) (auto simp: hist_rel_def Let_def mt_block_def)
  then show "2 \<le> (2 :: nat) ^ k" by simp
qed (auto simp: hist_rel_def Let_def)

lemma hist_rel_root:
  assumes "hist_rel sha3 k m xs" and "xs \<noteq> []"
  shows "mt_root m = Inr (merkle_root_of (hash_pair sha3) (last (blk_of (hash_pair sha3) (2 ^ k) xs)))"
  using assms by (auto simp: hist_rel_def Let_def mt_root_def list_back_def vec_get_def mt_block_def)

lemma mt_log2_eq:
  assumes "2 ^ k \<le> x" and "x < 2 ^ Suc k"
  shows "mt_log2 x = k"
proof -
  have "0 < x" using assms(1) by (cases x) auto
  note b = mt_log2_bounds [OF this]
  have "(2 :: nat) ^ mt_log2 x < 2 ^ Suc k" "(2 :: nat) ^ k < 2 ^ Suc (mt_log2 x)" using b assms by linarith+
  then have "mt_log2 x < Suc k" "k < Suc (mt_log2 x)"
    using power_strict_increasing_iff [of "2 :: nat"] by (simp_all del: power_Suc)
  then show ?thesis by simp
qed

lemma ceil2_power: "k \<le> 31 \<Longrightarrow> ceil2 (2 ^ k) = Inr (2 ^ k)"
  using mt_log2_eq [of k "2 ^ k"] by (simp add: ceil2_def)

lemma ceil2_between:
  assumes "k \<le> 31" and "2 ^ k < x" and "x < 2 ^ Suc k"
  shows "ceil2 x = Inr (2 ^ k + 1)"
proof -
  have "mt_log2 x = k" using assms by (intro mt_log2_eq) auto
  moreover have "(1 :: nat) \<le> 2 ^ k" by simp
  then have "sz_add (2 ^ k) 1 = 2 ^ k + 1" using pow31 [OF assms(1)] by (intro sz_add_eq) linarith
  ultimately show ?thesis using assms by (simp add: ceil2_def)
qed

lemma hist_rel_new:
  assumes "1 \<le> k" "k \<le> 31" "0 < blocks" "(blocks + 2) * 2 ^ k < SIZE_MOD"
  shows "\<exists>m. mt_new (2 ^ k) blocks = Inr m \<and> hist_rel sha3 k m [] \<and> mt_max_blocks m = blocks"
proof -
  have pos: "(0 :: nat) < 2 ^ k" by simp
  have sz: "treesize (2 ^ k) = 2 * 2 ^ k - 1" "sz_sub (2 ^ k) 1 = 2 ^ k - 1"
    using pow31 [OF assms(2)] pos by (simp_all add: treesize_def size_t_simps)
  then show ?thesis
    using assms pos ceil2_power [OF assms(2)]
    by (simp add: mt_new_def hist_rel_def Let_def mt_block_def tree_ok_def lastn_def)
qed

lemma list_all2_snoc: "list_all2 P (xs @ [x]) (ys @ [y]) \<longleftrightarrow> list_all2 P xs ys \<and> P x y"
  by (cases "length xs = length ys") (auto simp: list_all2_append dest: list_all2_lengthD)

lemma list_all2_tl: "list_all2 P xs ys \<Longrightarrow> list_all2 P (tl xs) (tl ys)"
  by (cases xs; cases ys) auto

lemma hist_rel_push_within:
  assumes rel: "hist_rel sha3 k m xs" and bs: "blk_of (hash_pair sha3) (2 ^ k) xs = bs @ [b]"
    and room: "Suc (length b) < 2 ^ k"
  shows "\<exists>m'. mt_push sha3 x m = Inr m' \<and> hist_rel sha3 k m' (xs @ [x])
    \<and> mt_max_blocks m' = mt_max_blocks m \<and> length (mt_trees m') = length (mt_trees m)
    \<and> length (blk_of (hash_pair sha3) (2 ^ k) (xs @ [x])) = Suc (length bs)"
proof -
  let ?h = "hash_pair sha3"
  note r = hist_relD [OF rel]
  have blk: "mt_block sha3 k m b" using r(1) bs by simp
  then obtain ts t where ts: "mt_trees m = ts @ [t]" by (metis mt_block_def rev_exhaust)
  have f: "mt_leafs m = 2 ^ k" "mt_size m = 2 * 2 ^ k - 1" "mt_i_current m = 2 ^ k - 1 + length b"
    "1 \<le> k" "k \<le> 31"
    using blk by (auto simp: mt_block_def)
  have l2: "list_all2 (tree_ok k ?h) ts (lastn (length ts) bs)"
    using r(2) by (simp add: bs ts list_all2_snoc)
  have b': "blk_of ?h (2 ^ k) (xs @ [x]) = bs @ [b @ [x]]"
    using room by (simp add: blk_of_snoc bs blk_push_def)
  obtain t' rt where p: "mt_push sha3 x m = Inr (m\<lparr>mt_trees := butlast (mt_trees m) @ [t'],
      mt_i_root := rt, mt_i_current := mt_i_current m + 1\<rparr>)"
    "tree_ok k ?h t' (b @ [x])" "rt < length t'" "t' ! rt = merkle_root_of ?h (b @ [x])"
    using push_within [OF blk room] by blast
  show ?thesis
    using p r f l2 ts by (simp add: hist_rel_def Let_def b' bs mt_block_def list_all2_snoc)
qed

lemma hist_rel_push_completes:
  assumes rel: "hist_rel sha3 k m xs" and bs: "blk_of (hash_pair sha3) (2 ^ k) xs = bs @ [b]"
    and full: "Suc (length b) = 2 ^ k"
  shows "\<exists>m'. mt_push sha3 x m = Inr m' \<and> hist_rel sha3 k m' (xs @ [x])
    \<and> mt_max_blocks m' = mt_max_blocks m
    \<and> length (mt_trees m') = min (mt_max_blocks m + 1) (length (mt_trees m) + 1)
    \<and> length (blk_of (hash_pair sha3) (2 ^ k) (xs @ [x])) = Suc (Suc (length bs))"
proof -
  let ?h = "hash_pair sha3"
  note r = hist_relD [OF rel]
  have blk: "mt_block sha3 k m b" using r(1) bs by simp
  then obtain ts t where ts: "mt_trees m = ts @ [t]" by (metis mt_block_def rev_exhaust)
  have f: "mt_leafs m = 2 ^ k" "mt_size m = 2 * 2 ^ k - 1" "1 \<le> k" "k \<le> 31"
    using blk by (auto simp: mt_block_def)
  have l2: "list_all2 (tree_ok k ?h) ts (lastn (length ts) bs)"
    using r(2) by (simp add: bs ts list_all2_snoc)
  have b': "blk_of ?h (2 ^ k) (xs @ [x]) = bs @ [b @ [x], [merkle_root_of ?h (b @ [x])]]"
    using full by (simp add: blk_of_snoc bs blk_push_def Let_def)
  obtain t' fr where p: "mt_push sha3 x m = Inr (m\<lparr>mt_trees :=
        (let u = butlast (mt_trees m) @ [t', fr]
         in if length u = mt_max_blocks m + 2 then tl u else u),
      mt_i_root := 2 ^ k - 1, mt_i_current := 2 ^ k\<rparr>)"
    "tree_ok k ?h t' (b @ [x])" "tree_ok k ?h fr [merkle_root_of ?h (b @ [x])]"
    "fr ! (2 ^ k - 1) = merkle_root_of ?h (b @ [x])"
    using push_completes [OF blk full r(5), of x] by blast
  define u where "u = ts @ [t', fr]"
  define u' where "u' = (if length u = mt_max_blocks m + 2 then tl u else u)"
  have p': "mt_push sha3 x m = Inr (m\<lparr>mt_trees := u', mt_i_root := 2 ^ k - 1, mt_i_current := 2 ^ k\<rparr>)"
    using p(1) by (simp add: u'_def u_def ts Let_def)
  have eq: "u = (ts @ [t']) @ [fr]" "bs @ [b @ [x], [merkle_root_of ?h (b @ [x])]]
      = (bs @ [b @ [x]]) @ [[merkle_root_of ?h (b @ [x])]]" by (simp_all add: u_def)
  have u: "list_all2 (tree_ok k ?h) u (lastn (length u) (bs @ [b @ [x], [merkle_root_of ?h (b @ [x])]]))"
    unfolding eq length_append_singleton lastn_snoc list_all2_snoc using l2 p(2,3) by simp
  have len: "length u \<le> length (bs @ [b @ [x], [merkle_root_of ?h (b @ [x])]])"
    using list_all2_lengthD [OF l2] by (simp add: u_def)
  have "0 < length u" by (simp add: u_def)
  then have u2: "list_all2 (tree_ok k ?h) u' (lastn (length u') (bs @ [b @ [x], [merkle_root_of ?h (b @ [x])]]))"
    using list_all2_tl [OF u] tl_lastn [OF _ len] u by (cases "length u = mt_max_blocks m + 2") (simp_all add: u'_def)
  have last: "u' \<noteq> []" "last u' = fr" using eq(1) by (cases ts; auto simp: u'_def)+
  have "length u' = min (mt_max_blocks m + 1) (length (mt_trees m) + 1)"
    using r(3) by (auto simp: u'_def u_def ts)
  moreover have "2 ^ k - 1 < length fr" using p(3) r(7) unfolding tree_ok_def by linarith
  ultimately show ?thesis
    using p(3,4) p' r(4,5) f u2 last by (simp add: hist_rel_def Let_def b' bs mt_block_def)
qed

lemma hist_rel_push:
  assumes rel: "hist_rel sha3 k m xs"
  shows "\<exists>m'. mt_push sha3 x m = Inr m' \<and> hist_rel sha3 k m' (xs @ [x])
    \<and> mt_max_blocks m' = mt_max_blocks m
    \<and> length (mt_trees m') = min (mt_max_blocks m + 1) (length (mt_trees m)
        + (length (blk_of (hash_pair sha3) (2 ^ k) (xs @ [x]))
            - length (blk_of (hash_pair sha3) (2 ^ k) xs)))"
proof -
  note r = hist_relD [OF rel]
  obtain bs b where bs: "blk_of (hash_pair sha3) (2 ^ k) xs = bs @ [b]" by (metis blk_of_nonempty rev_exhaust)
  show ?thesis
  proof (cases "Suc (length b) = 2 ^ k")
    case False
    then have "Suc (length b) < 2 ^ k" using blk_last [OF r(7), of "hash_pair sha3" xs] by (simp add: bs)
    from hist_rel_push_within [OF rel bs this, of x] show ?thesis using r(3) by (auto simp: bs)
  next
    case True
    from hist_rel_push_completes [OF rel bs this, of x] show ?thesis by (auto simp: bs)
  qed
qed

interpretation mtree: accumulator "mt_push sha3" mt_root mt_max_blocks "\<lambda>_ _. True"
  "\<lambda>xs. merkle_root_of (hash_pair sha3) (last (blk_of (hash_pair sha3) (2 ^ k) xs))" "hist_rel sha3 k"
  for sha3 k
  by unfold_locales (use hist_rel_push hist_rel_root in blast)+

lemma hist_rel_push_all:
  "hist_rel sha3 k m xs \<Longrightarrow> \<exists>m'. foldR (mt_push sha3) ys m = Inr m' \<and> hist_rel sha3 k m' (xs @ ys)
    \<and> mt_max_blocks m' = mt_max_blocks m"
  by (rule mtree.push_all) simp_all

section \<open>Rolling back\<close>

lemma rollback_loop_ok:
  assumes l: "2 \<le> l"
  shows "1 \<le> s' \<Longrightarrow> s' < l \<Longrightarrow> p * (l - 1) + s' < SIZE_MOD \<Longrightarrow> p \<le> length trees \<Longrightarrow>
    rollback_loop l (p * (l - 1) + s') trees = Inr (s', take (length trees - p) trees)"
proof (induction p arbitrary: trees)
  case 0
  then show ?case by (simp add: rollback_loop.simps)
next
  case (Suc p)
  let ?s = "Suc p * (l - 1) + s'"
  have "l \<le> ?s" using l Suc.prems(1) by simp
  moreover have "l - 1 < SIZE_MOD" using Suc.prems(3) by simp
  then have "sz_sub l 1 = l - 1" using l \<open>l \<le> ?s\<close> Suc.prems(3) by (intro sz_sub_eq) linarith+
  moreover have "sz_sub ?s (l - 1) = p * (l - 1) + s'"
    using Suc.prems(3) by (subst sz_sub_eq) auto
  moreover have "trees \<noteq> []" using Suc.prems(4) by auto
  moreover have "rollback_loop l (p * (l - 1) + s') (butlast trees)
      = Inr (s', take (length (butlast trees) - p) (butlast trees))"
    using Suc.prems by (intro Suc.IH) auto
  moreover have "take (length (butlast trees) - p) (butlast trees) = take (length trees - Suc p) trees"
    by (simp add: butlast_conv_take)
  ultimately show ?case by (simp only: rollback_loop.simps [of l ?s trees] if_True if_False)
qed

text \<open>How far back the tree goes.\<close>

lemma max_rollback_eq:
  assumes rel: "hist_rel sha3 k m xs" and ne: "xs \<noteq> []"
  shows "mt_max_rollback m = (length (mt_trees m) - 1) * (2 ^ k - 1)
    + (length (last (blk_of (hash_pair sha3) (2 ^ k) xs)) - 1)"
proof -
  let ?b = "last (blk_of (hash_pair sha3) (2 ^ k) xs)"
  note r = hist_relD [OF rel]
  have f: "mt_leafs m = 2 ^ k" "mt_i_current m = 2 ^ k - 1 + length ?b" "k \<le> 31" "mt_trees m \<noteq> []"
    using r(1) by (auto simp: mt_block_def)
  have b: "length ?b < 2 ^ k" "0 < length ?b" using blk_last [OF r(7)] ne by auto
  have T: "1 \<le> length (mt_trees m)" using f(4) by (cases "mt_trees m") auto
  have "(length (mt_trees m) - 1) * (2 ^ k - 1) + 2 ^ k \<le> (mt_max_blocks m + 2) * 2 ^ k"
  proof -
    have "(length (mt_trees m) - 1) * (2 ^ k - 1) \<le> (mt_max_blocks m + 1) * 2 ^ k"
      using r(3) by (intro mult_le_mono) auto
    then show ?thesis by simp
  qed
  then have small: "(length (mt_trees m) - 1) * (2 ^ k - 1) + 2 ^ k < SIZE_MOD" using r(5) by simp
  have "length (mt_trees m) * 1 \<le> (mt_max_blocks m + 2) * 2 ^ k"
    using r(3) by (intro mult_le_mono) auto
  then have Ts: "length (mt_trees m) < SIZE_MOD" using r(5) by simp
  have "sz_sub (length (mt_trees m)) 1 = length (mt_trees m) - 1"
    using T Ts by (simp add: size_t_simps)
  moreover have "sz_sub (2 ^ k) 1 = 2 ^ k - 1" using r(7) pow31 [OF f(3)] by (simp add: size_t_simps)
  moreover have "sz_sub (2 ^ k - 1 + length ?b) (2 ^ k) = length ?b - 1"
  proof -
    have "2 ^ k \<le> 2 ^ k - 1 + length ?b" "2 ^ k - 1 + length ?b < SIZE_MOD"
      using b pow31 [OF f(3)] by linarith+
    then show ?thesis by (simp add: sz_sub_eq)
  qed
  ultimately show ?thesis
    using small b(1) by (simp add: mt_max_rollback_def f sz_mul_eq sz_add_eq)
qed

text \<open>
  The tree cut back to the blocks of a shorter history: its last array is that of a longer block
  \<open>b\<close>, of which the shorter history has the leaves up to number \<open>c\<close>, and the index is at that leaf.
\<close>

lemma repush_cut:
  assumes rel: "hist_rel sha3 k m (xs @ ys)" and ne: "xs \<noteq> []"
    and bsx: "bsx = blk_of (hash_pair sha3) (2 ^ k) xs"
    and bs: "bs = blk_of (hash_pair sha3) (2 ^ k) (xs @ ys)"
    and P: "length bsx = length bs - P" "P < length (mt_trees m)"
    and m2: "m2 = m\<lparr>mt_trees := take (length (mt_trees m) - P) (mt_trees m), mt_i_root := rt,
      mt_i_current := 2 ^ k - 1 + (length (last bsx) - 1)\<rparr>"
  shows "\<exists>b c. length (last bsx) = Suc c \<and> last bsx = take c b @ [b ! c] \<and> c < length b
    \<and> tree_ok k (hash_pair sha3) (last (mt_trees m2)) b
    \<and> list_all2 (tree_ok k (hash_pair sha3)) (butlast (mt_trees m2))
        (lastn (length (mt_trees m) - P - 1) (butlast bsx))"
proof -
  let ?h = "hash_pair sha3" and ?T = "length (mt_trees m)"
  define c b where "c = length (last bsx) - 1" and "b = bs ! (length bsx - 1)"
  note r = hist_relD [OF rel, folded bs]
  note pre = blk_prefix [OF bsx bs]
  have lx: "0 < length (last bsx)"
    using blk_last [OF r(7), of ?h xs] ne by (auto simp: bsx)
  then have Suc_c: "length (last bsx) = Suc c" by (simp add: c_def)
  have T: "?T \<le> length bs" using r(6) by auto
  have nb: "bsx \<noteq> []" by (simp add: bsx)
  have l1: "last bsx = take (length (last bsx)) b" using pre by (simp add: b_def)
  then have cb: "c < length b" using Suc_c by (metis length_take min.cobounded1 Suc_le_eq)
  then have lastb: "last bsx = take c b @ [b ! c]"
    using l1 unfolding Suc_c by (simp add: take_Suc_conv_app_nth)
  have "take (?T - P) (mt_trees m) \<noteq> []" using P(2) by auto
  then have tl: "last (mt_trees m2) = mt_trees m ! (?T - P - 1)"
    using P(2) by (simp add: m2 last_conv_nth)
  have "tree_ok k ?h (mt_trees m ! (?T - P - 1)) (lastn ?T bs ! (?T - P - 1))"
    using list_all2_nthD [OF r(2), of "?T - P - 1"] P(2) by simp
  moreover have "lastn ?T bs ! (?T - P - 1) = b"
    using P T nb by (simp add: nth_lastn b_def)
  ultimately have tb: "tree_ok k ?h (last (mt_trees m2)) b" using tl by simp
  have bl: "butlast (mt_trees m2) = take (?T - P - 1) (mt_trees m)"
    using P(2) by (simp add: m2 butlast_take)
  have "length bs - ?T + (?T - P - 1) = length bsx - 1" using P T by simp
  then have "take (?T - P - 1) (lastn ?T bs) = lastn (?T - P - 1) (butlast bsx)"
    using lastn_take [of ?T bs "?T - P - 1"] T pre by simp
  moreover have "list_all2 (tree_ok k ?h) (take (?T - P - 1) (mt_trees m)) (take (?T - P - 1) (lastn ?T bs))"
    using r(2) by (rule list_all2_takeI)
  ultimately show ?thesis using Suc_c lastb cb tb bl by auto
qed

text \<open>Pushing that leaf again makes it the tree of the shorter history.\<close>

lemma repush:
  assumes rel: "hist_rel sha3 k m (xs @ ys)" and ne: "xs \<noteq> []"
    and bsx: "bsx = blk_of (hash_pair sha3) (2 ^ k) xs"
    and bs: "bs = blk_of (hash_pair sha3) (2 ^ k) (xs @ ys)"
    and P: "length bsx = length bs - P" "P < length (mt_trees m)"
    and m2: "m2 = m\<lparr>mt_trees := take (length (mt_trees m) - P) (mt_trees m), mt_i_root := rt,
      mt_i_current := 2 ^ k - 1 + (length (last bsx) - 1)\<rparr>"
  shows "\<exists>m'. vec_get (last (mt_trees m2)) (mt_i_current m2) = Inr (last (last bsx))
    \<and> mt_push sha3 (last (last bsx)) m2 = Inr m' \<and> hist_rel sha3 k m' xs \<and> mt_max_blocks m' = mt_max_blocks m"
proof -
  let ?h = "hash_pair sha3" and ?T = "length (mt_trees m)"
  obtain b c where Suc_c: "length (last bsx) = Suc c" and lastb: "last bsx = take c b @ [b ! c]"
    and cb: "c < length b" and tb: "tree_ok k ?h (last (mt_trees m2)) b"
    and l2: "list_all2 (tree_ok k ?h) (butlast (mt_trees m2)) (lastn (?T - P - 1) (butlast bsx))"
    using repush_cut [OF assms] by blast
  note r = hist_relD [OF rel, folded bs]
  have lx: "Suc c < 2 ^ k" using blk_last [OF r(7), of ?h xs] Suc_c by (simp add: bsx)
  have item: "vec_get (last (mt_trees m2)) (mt_i_current m2) = Inr (b ! c)"
  proof -
    have "2 ^ k - 1 + c < length (last (mt_trees m2))"
      using tb lx unfolding tree_ok_def by linarith
    then show ?thesis using tree_ok_leaf [OF tb cb] by (simp add: vec_get_def m2 Suc_c)
  qed
  have f: "1 \<le> k" "k \<le> 31" "mt_leafs m = 2 ^ k" "mt_size m = 2 * 2 ^ k - 1"
    using r(1) by (auto simp: mt_block_def)
  have "mt_trees m2 \<noteq> []" using P(2) by (auto simp: m2)
  moreover have len: "length (take c b) = c" using cb by simp
  ultimately have blk: "mt_block sha3 k m2 (take c b)"
    using f tree_ok_take [OF tb] by (simp add: mt_block_def m2 Suc_c)
  obtain t' rt' where p: "mt_push sha3 (b ! c) m2 = Inr (m2\<lparr>mt_trees := butlast (mt_trees m2) @ [t'],
      mt_i_root := rt', mt_i_current := mt_i_current m2 + 1\<rparr>)"
    "tree_ok k ?h t' (take c b @ [b ! c])" "rt' < length t'"
    "t' ! rt' = merkle_root_of ?h (take c b @ [b ! c])"
    using push_within [OF blk, of "b ! c"] lx len by auto
  have sn: "bsx = butlast bsx @ [take c b @ [b ! c]]"
    using lastb by (metis append_butlast_last_id blk_of_nonempty bsx)
  have lt: "length (butlast (mt_trees m2) @ [t']) = Suc (?T - P - 1)" using P(2) by (simp add: m2 butlast_take)
  have "list_all2 (tree_ok k ?h) (butlast (mt_trees m2) @ [t'])
      (lastn (Suc (?T - P - 1)) (butlast bsx @ [take c b @ [b ! c]]))"
    unfolding lastn_snoc list_all2_snoc using l2 p(2) by simp
  then have l3: "list_all2 (tree_ok k ?h) (butlast (mt_trees m2) @ [t'])
      (lastn (length (butlast (mt_trees m2) @ [t'])) bsx)"
    unfolding lt using sn by simp
  have "hist_rel sha3 k (m2\<lparr>mt_trees := butlast (mt_trees m2) @ [t'],
      mt_i_root := rt', mt_i_current := mt_i_current m2 + 1\<rparr>) xs"
    using l3 lt p(2-4) f r(3-5) P(2) Suc_c cb
    unfolding hist_rel_def Let_def bsx [symmetric] mt_block_def lastb
    by (auto simp: m2 lastb)
  moreover have "last (last bsx) = b ! c" by (simp add: lastb)
  ultimately show ?thesis using item p(1) by (auto simp: m2)
qed

lemma quotient_unique:
  fixes a a' c c' d :: nat
  assumes "a * d + c = a' * d + c'" "1 \<le> c" "c \<le> d" "1 \<le> c'" "c' \<le> d"
  shows "a = a' \<and> c = c'"
proof -
  have "(a * d + (c - 1)) div d = a" "(a' * d + (c' - 1)) div d = a'"
    using assms by (simp_all add: div_nat_eqI algebra_simps)
  moreover have "a * d + (c - 1) = a' * d + (c' - 1)" using assms by linarith
  ultimately have "a = a'" by simp
  with assms(1) show ?thesis by simp
qed

text \<open>
  The arithmetic of a rollback by \<open>n\<close> leaves over \<open>t\<close> blocks, the last of which has \<open>len\<close>: it
  gives up \<open>p\<close> whole blocks, each counted without its first leaf, and \<open>s\<close> leaves more.
\<close>

lemma rollback_steps:
  fixes l n t len :: nat
  assumes l: "2 \<le> l" and n: "1 \<le> n" "n \<le> (t - 1) * (l - 1) + (len - 1)"
    and len: "1 \<le> len" "len < l" and t: "1 \<le> t"
  obtains p s where "n = p * (l - 1) + s" "1 \<le> s" "s < l" "p < t" "len \<le> s \<Longrightarrow> Suc p < t"
proof -
  define p s where "p = (n - 1) div (l - 1)" and "s = (n - 1) mod (l - 1) + 1"
  have "(n - 1) mod (l - 1) < l - 1" using l by simp
  then have s: "1 \<le> s" "s < l" by (simp_all add: s_def less_diff_conv)
  have "p * (l - 1) + (n - 1) mod (l - 1) = n - 1" unfolding p_def by (rule div_mult_mod_eq)
  then have eq: "n = p * (l - 1) + s" using n(1) unfolding s_def by linarith
  have "p < t"
  proof (rule ccontr)
    assume "\<not> p < t"
    then have "t * (l - 1) \<le> p * (l - 1)" by simp
    moreover have "t * (l - 1) = (t - 1) * (l - 1) + (l - 1)" using t by (cases t) auto
    ultimately show False using n(2) eq s len by linarith
  qed
  moreover have "Suc p < t" if "len \<le> s"
  proof (rule ccontr)
    assume "\<not> Suc p < t"
    then have "(t - 1) * (l - 1) \<le> p * (l - 1)" by (intro mult_le_mono1) linarith
    then show False using n(2) eq that len by linarith
  qed
  ultimately show thesis using that eq s by blast
qed

lemma rollback_cut:
  fixes x b bx lx :: nat
  assumes "x = (bx - 1) * d + lx" "1 \<le> lx" "lx \<le> d" "1 \<le> bx" "p < b"
    and "x + p * d = (b - 1) * d + c" "1 \<le> c" "c \<le> d"
  shows "bx = b - p \<and> lx = c"
proof -
  have "b - 1 = (b - 1 - p) + p" using assms(5) by simp
  then have "(b - 1) * d = (b - 1 - p) * d + p * d" by (metis add_mult_distrib)
  then have "(bx - 1) * d + lx = (b - 1 - p) * d + c" using assms(1,6) by linarith
  from quotient_unique [OF this assms(2,3,7,8)] show ?thesis using assms(4,5) by linarith
qed

text \<open>
  The end of a rollback that gave up \<open>p\<close> blocks, in \<open>rt\<close> and \<open>trees\<close>: the last leaf that stays is
  pushed again.
\<close>

lemma rollback_repush:
  fixes rt :: nat
  assumes rel: "hist_rel sha3 k m (xs @ ys)" and ne: "xs \<noteq> []"
    and bs: "bsx = blk_of (hash_pair sha3) (2 ^ k) xs" "bs = blk_of (hash_pair sha3) (2 ^ k) (xs @ ys)"
    and p: "length bsx = length bs - p" "p < length (mt_trees m)"
    and cur: "sz_sub (sz_sub i s) 1 = 2 ^ k - 1 + (length (last bsx) - 1)"
  defines "m2 \<equiv> m\<lparr>mt_trees := take (length (mt_trees m) - p) (mt_trees m), mt_i_root := rt,
      mt_i_current := i\<rparr>"
  shows "\<exists>m'. bindR (list_back (mt_trees m2)) (\<lambda>tree.
        let current' = sz_sub (sz_sub (mt_i_current m2) s) 1
        in bindR (vec_get tree current') (\<lambda>item. mt_push sha3 item (m2\<lparr>mt_i_current := current'\<rparr>))) = Inr m'
    \<and> hist_rel sha3 k m' xs \<and> mt_max_blocks m' = mt_max_blocks m"
proof -
  have "mt_trees m2 \<noteq> []" using p(2) by (auto simp: m2_def)
  moreover obtain m' where "vec_get (last (mt_trees m2)) (2 ^ k - 1 + (length (last bsx) - 1)) = Inr (last (last bsx))"
    "mt_push sha3 (last (last bsx)) (m2\<lparr>mt_i_current := 2 ^ k - 1 + (length (last bsx) - 1)\<rparr>) = Inr m'"
    "hist_rel sha3 k m' xs" "mt_max_blocks m' = mt_max_blocks m"
    using repush [OF rel ne bs p refl, of rt] by (auto simp: m2_def)
  moreover have "mt_i_current m2 = i" by (simp add: m2_def)
  ultimately show ?thesis using cur by (simp add: list_back_def)
qed

text \<open>Where the last leaf is after \<open>s\<close> leaves are dropped: in the same tree, or in the one before it.\<close>

lemma cursor_within:
  assumes "s < len" "1 \<le> s" "len < l" "4 * l < SIZE_MOD"
  shows "l \<le> sz_sub (l - 1 + len) s" and "sz_sub (sz_sub (l - 1 + len) s) 1 = l - 1 + (len - s - 1)"
proof -
  have *: "sz_sub (l - 1 + len) s = l - 1 + len - s" using assms by (subst sz_sub_eq) linarith+
  then show "l \<le> sz_sub (l - 1 + len) s" using assms by linarith
  show "sz_sub (sz_sub (l - 1 + len) s) 1 = l - 1 + (len - s - 1)"
    unfolding * using assms by (subst sz_sub_eq) linarith+
qed

lemma cursor_before:
  assumes "len \<le> s" "s < l" "1 \<le> len" "4 * l < SIZE_MOD"
  shows "sz_sub (l - 1 + len) s < l"
    and "sz_sub (sz_sub (2 * l - 1) (sz_sub s (sz_sub (l - 1 + len) l))) 1 = l - 1 + (l - 1 + len - s - 1)"
proof -
  have "sz_sub (l - 1 + len) s = l - 1 + len - s" using assms by (subst sz_sub_eq) linarith+
  then show "sz_sub (l - 1 + len) s < l" using assms by linarith
  have 1: "sz_sub (l - 1 + len) l = len - 1" using assms by (subst sz_sub_eq) linarith+
  have 2: "sz_sub s (len - 1) = s - (len - 1)" using assms by (subst sz_sub_eq) linarith+
  have 3: "sz_sub (2 * l - 1) (s - (len - 1)) = 2 * l - 1 - (s - (len - 1))"
    using assms by (subst sz_sub_eq) linarith+
  show "sz_sub (sz_sub (2 * l - 1) (sz_sub s (sz_sub (l - 1 + len) l))) 1 = l - 1 + (l - 1 + len - s - 1)"
    unfolding 1 2 3 using assms by (subst sz_sub_eq) linarith+
qed

lemma hist_rel_rollback:
  assumes rel: "hist_rel sha3 k m (xs @ ys)" and ne: "xs \<noteq> []"
    and n: "length ys \<le> mt_max_rollback m"
  shows "\<exists>m'. mt_rollback sha3 (length ys) m = Inr m' \<and> hist_rel sha3 k m' xs
    \<and> mt_max_blocks m' = mt_max_blocks m"
proof (cases "ys = []")
  case True
  then show ?thesis using rel by (simp add: mt_rollback_def)
next
  case False
  define l where "l = (2 :: nat) ^ k"
  define bs where "bs = blk_of (hash_pair sha3) (2 ^ k) (xs @ ys)"
  define bsx where "bsx = blk_of (hash_pair sha3) (2 ^ k) xs"
  define len T N where "len = length (last bs)" and "T = length (mt_trees m)" and "N = length ys"
  note r = hist_relD [OF rel, folded bs_def l_def]
  note fin = rollback_repush [OF rel ne bsx_def bs_def, folded T_def l_def]
  have f: "mt_leafs m = l" "mt_i_current m = l - 1 + len" "mt_size m = 2 * l - 1" "k \<le> 31"
    using r(1) by (auto simp: mt_block_def l_def len_def)
  have l2: "2 \<le> l" and l4: "4 * l < SIZE_MOD" using r(7) pow31 [OF f(4)] by (auto simp: l_def)
  have lenb: "1 \<le> len" "len < l"
    using blk_last [of l "hash_pair sha3" "xs @ ys"] l2 ne by (auto simp: len_def bs_def l_def Suc_le_eq)
  have lenx: "1 \<le> length (last bsx)" "length (last bsx) \<le> l - 1" "1 \<le> length bsx"
    using blk_last [of l "hash_pair sha3" xs] l2 ne by (auto simp: bsx_def l_def Suc_le_eq)
  have tot: "length xs + N = (length bs - 1) * (l - 1) + len"
    using blk_total [of l "xs @ ys" "hash_pair sha3"] l2 by (simp add: N_def len_def bs_def l_def)
  have totx: "length xs = (length bsx - 1) * (l - 1) + length (last bsx)"
    using blk_total [of l xs "hash_pair sha3"] l2 by (simp add: bsx_def l_def)
  have mx: "N \<le> (T - 1) * (l - 1) + (len - 1)"
    using n max_rollback_eq [OF rel] ne by (simp add: N_def T_def l_def len_def bs_def)
  have TB: "1 \<le> T" "T \<le> length bs" using r(1,6) by (auto simp: T_def mt_block_def Suc_le_eq)
  have N1: "1 \<le> N" using False by (simp add: N_def Suc_le_eq)
  obtain p s where Nps: "N = p * (l - 1) + s" and s: "1 \<le> s" "s < l" and pT: "p < T"
    and pT': "len \<le> s \<Longrightarrow> Suc p < T"
    using rollback_steps [OF l2 N1 mx lenb TB(1)] by blast
  have "(T - 1) * (l - 1) \<le> (mt_max_blocks m + 1) * l" using r(3) by (intro mult_le_mono) (auto simp: T_def)
  then have "N < (mt_max_blocks m + 2) * l" using mx lenb by simp
  then have small: "N < SIZE_MOD" using r(5) by simp
  have loop: "rollback_loop l N (mt_trees m) = Inr (s, take (T - p) (mt_trees m))"
    using rollback_loop_ok [OF l2 s, of p "mt_trees m"] small pT by (simp add: Nps f T_def)
  have guard: "N \<noteq> 0" "\<not> mt_max_rollback m < N" using N1 n by (auto simp: N_def)
  note cut = rollback_cut [OF totx lenx]
  show ?thesis
  proof (cases "s < len")
    case True
    have u: "length bsx = length bs - p" "length (last bsx) = len - s"
      using cut [of p "length bs" "len - s"] pT TB tot Nps True lenb by linarith+
    have at: "\<not> sz_sub (mt_i_current m) s < l"
      "sz_sub (sz_sub (mt_i_current m) s) 1 = l - 1 + (length (last bsx) - 1)"
      unfolding f(2) u(2) using cursor_within [OF True s(1) lenb(2) l4] by simp_all
    show ?thesis
      using fin [OF u(1) pT at(2), of "mt_i_root m"] guard at(1)
      by (simp add: mt_rollback_def loop f(1) N_def [symmetric])
  next
    case False
    then have pT': "Suc p < T" using pT' by simp
    have "Suc p * (l - 1) = p * (l - 1) + (l - 1)" by simp
    then have u: "length bsx = length bs - Suc p" "length (last bsx) = l - 1 + len - s"
      using cut [of "Suc p" "length bs" "l - 1 + len - s"] pT' TB tot Nps False lenb s l2 by linarith+
    have lt: "sz_sub (mt_i_current m) s < l"
      and cur: "sz_sub (sz_sub (mt_size m) (sz_sub s (sz_sub (mt_i_current m) l))) 1 = l - 1 + (length (last bsx) - 1)"
      unfolding f(2,3) u(2) using cursor_before [OF _ s(2) lenb(1) l4] False by linarith+
    have bt: "butlast (take (T - p) (mt_trees m)) = take (T - Suc p) (mt_trees m)"
      "mt_trees m \<noteq> []" "\<not> T \<le> p"
      using pT' by (auto simp: butlast_take T_def)
    show ?thesis
      using fin [OF u(1) pT' cur, of 0] guard lt
      by (simp add: mt_rollback_def loop f(1) bt N_def [symmetric] del: One_nat_def)
  qed
qed

text \<open>Without rollbacks the tree holds as many blocks as there are, up to one more than asked for.\<close>

lemma blk_length_mono: "length (blk_of h l xs) \<le> length (blk_of h l (xs @ ys))"
  using blk_prefix [OF refl refl, of h l xs ys] by simp

lemma hist_rel_trees:
  assumes "hist_rel sha3 k m xs" and "mt_max_blocks m = blocks"
    and "length (mt_trees m) = min (blocks + 1) (length (blk_of (hash_pair sha3) (2 ^ k) xs))"
  shows "foldR (mt_push sha3) ys m = Inr m' \<Longrightarrow>
    length (mt_trees m') = min (blocks + 1) (length (blk_of (hash_pair sha3) (2 ^ k) (xs @ ys)))"
  using assms
proof (induction ys arbitrary: m xs)
  case (Cons y ys)
  let ?B = "\<lambda>zs. length (blk_of (hash_pair sha3) (2 ^ k) zs)"
  obtain m1 where m1: "mt_push sha3 y m = Inr m1" "hist_rel sha3 k m1 (xs @ [y])"
    "mt_max_blocks m1 = blocks"
    "length (mt_trees m1) = min (blocks + 1) (length (mt_trees m) + (?B (xs @ [y]) - ?B xs))"
    using hist_rel_push [OF Cons.prems(2), of y] Cons.prems(3) by auto
  have "?B xs \<le> ?B (xs @ [y])" by (rule blk_length_mono)
  then have "length (mt_trees m1) = min (blocks + 1) (?B (xs @ [y]))"
    using m1(4) Cons.prems(4) by auto
  with Cons.IH [of m1 "xs @ [y]"] m1 Cons.prems(1) show ?case by simp
qed simp

text \<open>Starting again from the leaves of the last block.\<close>

lemma blk_short: "length xs < l \<Longrightarrow> blk_of h l xs = [xs]"
  by (induction xs rule: rev_induct) (simp_all add: blk_of_snoc blk_push_def)

lemma blk_resume:
  assumes "2 \<le> l"
  shows "blk_of h l (xs @ zs) = butlast (blk_of h l xs) @ blk_of h l (last (blk_of h l xs) @ zs)"
proof (induction zs rule: rev_induct)
  case Nil
  then show ?case using blk_last [OF assms, of h xs] by (simp add: blk_short)
next
  case (snoc z zs)
  have "blk_push h l (us @ vs) z = us @ blk_push h l vs z" if "vs \<noteq> []" for us vs :: "'a list list"
    using that by (simp add: blk_push_def Let_def butlast_append)
  then show ?case using snoc by (simp add: blk_of_snoc flip: append_assoc)
qed

text \<open>The tree after a sequence of pushes into a new one.\<close>

definition mt_run :: "(byte list \<Rightarrow> hash_t) \<Rightarrow> nat \<Rightarrow> nat \<Rightarrow> hash_t list \<Rightarrow> error + merkle_tree" where
  "mt_run sha3 leafs blocks xs = bindR (mt_new leafs blocks) (foldR (mt_push sha3) xs)"

lemma mt_run_rel:
  assumes "1 \<le> k" "k \<le> 31" "0 < blocks" "(blocks + 2) * 2 ^ k < SIZE_MOD"
  shows "\<exists>m. mt_run sha3 (2 ^ k) blocks xs = Inr m \<and> hist_rel sha3 k m xs \<and> mt_max_blocks m = blocks
    \<and> length (mt_trees m) = min (blocks + 1) (length (blk_of (hash_pair sha3) (2 ^ k) xs))"
proof -
  obtain m0 where m0: "mt_new (2 ^ k) blocks = Inr m0" "hist_rel sha3 k m0 []" "mt_max_blocks m0 = blocks"
    using hist_rel_new [OF assms] by blast
  obtain m where m: "foldR (mt_push sha3) xs m0 = Inr m" "hist_rel sha3 k m xs" "mt_max_blocks m = blocks"
    using hist_rel_push_all [OF m0(2), of xs] m0(3) by auto
  have "length (mt_trees m0) = 1" using m0(1) assms(3)
    by (auto simp: mt_new_def bindR_eq_Inr_iff)
  then have "length (mt_trees m) = min (blocks + 1) (length (blk_of (hash_pair sha3) (2 ^ k) xs))"
    using hist_rel_trees [OF m0(2,3) _ m(1)] by simp
  with m0 m show ?thesis by (simp add: mt_run_def)
qed

lemma mt_run_max_rollback:
  assumes "1 \<le> k" "k \<le> 31" "0 < blocks" "(blocks + 2) * 2 ^ k < SIZE_MOD"
    and "mt_run sha3 (2 ^ k) blocks xs = Inr m" and "xs \<noteq> []"
  shows "mt_max_rollback m =
      min blocks (length (blk_of (hash_pair sha3) (2 ^ k) xs) - 1) * (2 ^ k - 1)
        + (length (last (blk_of (hash_pair sha3) (2 ^ k) xs)) - 1)"
proof -
  have rel: "hist_rel sha3 k m xs"
    and T: "length (mt_trees m) = min (blocks + 1) (length (blk_of (hash_pair sha3) (2 ^ k) xs))"
    using mt_run_rel [OF assms(1-4), of sha3 xs] assms(5) by auto
  have "length (mt_trees m) - 1 = min blocks (length (blk_of (hash_pair sha3) (2 ^ k) xs) - 1)"
    unfolding T by auto
  then show ?thesis using max_rollback_eq [OF rel assms(6)] by simp
qed

lemma merkle_leaves:
  assumes rel: "hist_rel sha3 k m xs"
  shows "\<exists>tree. mt_last_block m = Inr tree \<and> mt_last_block_end m \<le> length tree
    \<and> mt_last_block_begin m = 2 ^ k - 1
    \<and> map (\<lambda>i. tree ! i) [mt_last_block_begin m ..< mt_last_block_end m]
       = last (blk_of (hash_pair sha3) (2 ^ k) xs)"
proof -
  let ?b = "last (blk_of (hash_pair sha3) (2 ^ k) xs)"
  note r = hist_relD [OF rel]
  have f: "mt_trees m \<noteq> []" "tree_ok k (hash_pair sha3) (last (mt_trees m)) ?b"
    "mt_i_current m = 2 ^ k - 1 + length ?b" "mt_leafs m = 2 ^ k" "k \<le> 31"
    using r(1) by (auto simp: mt_block_def)
  have "sz_sub (2 ^ k) 1 = 2 ^ k - 1" using r(7) pow31 [OF f(5)] by (simp add: size_t_simps)
  then have be: "mt_last_block_begin m = 2 ^ k - 1" "mt_last_block_end m = 2 ^ k - 1 + length ?b"
    by (simp_all add: mt_last_block_begin_def mt_last_block_end_def f)
  have "length ?b < 2 ^ k" using blk_last [OF r(7)] by blast
  moreover have "length (last (mt_trees m)) = 2 * 2 ^ k - 1" using f(2) by (simp add: tree_ok_def)
  ultimately have le: "2 ^ k - 1 + length ?b \<le> length (last (mt_trees m))" using r(7) by linarith
  have "map (\<lambda>i. last (mt_trees m) ! i) [2 ^ k - 1 ..< 2 ^ k - 1 + length ?b] = ?b"
  proof (rule nth_equalityI)
    fix i assume "i < length (map (\<lambda>i. last (mt_trees m) ! i) [2 ^ k - 1 ..< 2 ^ k - 1 + length ?b])"
    then have i: "i < length ?b" by simp
    have "[2 ^ k - 1 ..< 2 ^ k - 1 + length ?b] ! i = 2 ^ k - 1 + i"
      by (intro nth_upt add_strict_left_mono i)
    then show "map (\<lambda>i. last (mt_trees m) ! i) [2 ^ k - 1 ..< 2 ^ k - 1 + length ?b] ! i = ?b ! i"
      using i tree_ok_leaf [OF f(2) i] by simp
  qed simp
  then show ?thesis using le f(1) unfolding be by (simp add: mt_last_block_def)
qed

text \<open>Evaluation on small trees.\<close>

lemma mt_log2_small: "mt_log2 0 = 0" "mt_log2 1 = 0" "mt_log2 (Suc 0) = 0" "mt_log2 2 = 1" "mt_log2 3 = 1" "mt_log2 4 = 2" "mt_log2 5 = 2"
  by (simp_all add: mt_log2.simps)

lemma ceil2_small: "ceil2 (Suc 0) = Inr (Suc 0)" "ceil2 4 = Inr 4" "ceil2 5 = Inr 5"
  by (simp_all add: ceil2_def mt_log2_small sz_add_def SIZE_MOD_def)

lemma push_loop_numeral:
  "push_loop sha3 (numeral k) tree sr c ir =
     (let l = mt_left sr; r = mt_right sr in
      bindR (vec_get tree l) (\<lambda>a.
      bindR (if c = l then Inr a
             else bindR (vec_get tree r) (\<lambda>b. Inr (hash_pair sha3 a b))) (\<lambda>node.
      bindR (vec_set tree sr node) (\<lambda>tree'.
      push_loop sha3 (pred_numeral k) tree' (mt_parent sr) (mt_parent c) sr))))"
  by (simp add: numeral_eq_Suc)

lemmas mt_eval = mt_new_def ceil2_small mt_log2_small treesize_def mt_left_def mt_right_def mt_parent_def
  mt_push_def vec_get_def vec_set_def list_back_def sz_add_def sz_sub_def sz_mul_def SIZE_MOD_def
  push_loop_numeral

section \<open>Properties\<close>

text \<open>
  C7: on a tree with \<open>2 ^ k\<close> leaves, every sequence of pushes succeeds, and after it the root is
  the root, computed level by level, of the leaves of the last block; while fewer hashes than
  leaves have been pushed it is the root of the hashes themselves.
\<close>

theorem merkle_push_root:
  assumes "1 \<le> k" and "k \<le> 31" and "0 < blocks" and "(blocks + 2) * 2 ^ k < SIZE_MOD"
  shows "\<exists>m. mt_run sha3 (2 ^ k) blocks xs = Inr m
    \<and> (xs \<noteq> [] \<longrightarrow> mt_root m = Inr (merkle_root_of (hash_pair sha3)
          (last (blk_of (hash_pair sha3) (2 ^ k) xs))))
    \<and> (xs \<noteq> [] \<and> length xs < 2 ^ k \<longrightarrow> mt_root m = Inr (merkle_root_of (hash_pair sha3) xs))"
proof -
  obtain m where m: "mt_run sha3 (2 ^ k) blocks xs = Inr m" "hist_rel sha3 k m xs"
    using mt_run_rel [OF assms] by blast
  then show ?thesis using hist_rel_root [OF m(2)] by (auto simp: blk_short)
qed

theorem merkle_push_root_witness:
  "\<exists>m. mt_run (take 1) (2 ^ 2) 1 [[1], [2], [3]] = Inr m
    \<and> mt_root m = Inr (merkle_root_of (hash_pair (take 1)) [[1], [2], [3 :: byte]])"
  using merkle_push_root [of 2 1 "take 1" "[[1], [2], [3]]"] by (auto simp: SIZE_MOD_def)

text \<open>
  C8: rolling back undoes pushes.  After pushing \<open>xs\<close> and then \<open>ys\<close>, a rollback of as many steps
  as \<open>ys\<close> has hashes, if \<^verbatim>\<open>max_rollback()\<close> allows it, succeeds, and from then on the tree cannot
  be told from one that never saw \<open>ys\<close>: whatever is pushed next, the roots agree.
\<close>

theorem merkle_rollback:
  assumes "1 \<le> k" and "k \<le> 31" and "0 < blocks" and "(blocks + 2) * 2 ^ k < SIZE_MOD"
    and "mt_run sha3 (2 ^ k) blocks (xs @ ys) = Inr m"
    and "xs \<noteq> []" and "length ys \<le> mt_max_rollback m"
  shows "\<exists>m'. mt_rollback sha3 (length ys) m = Inr m'
    \<and> (\<forall>zs. \<exists>p q. foldR (mt_push sha3) zs m' = Inr p \<and> mt_run sha3 (2 ^ k) blocks (xs @ zs) = Inr q
         \<and> mt_root p = mt_root q)"
proof -
  have rel: "hist_rel sha3 k m (xs @ ys)"
    using mt_run_rel [OF assms(1-4), of sha3 "xs @ ys"] assms(5) by auto
  obtain m' where m': "mt_rollback sha3 (length ys) m = Inr m'" "hist_rel sha3 k m' xs"
    using hist_rel_rollback [OF rel assms(6,7)] by blast
  have "\<exists>p q. foldR (mt_push sha3) zs m' = Inr p \<and> mt_run sha3 (2 ^ k) blocks (xs @ zs) = Inr q
         \<and> mt_root p = mt_root q" for zs
  proof -
    obtain p where p: "foldR (mt_push sha3) zs m' = Inr p" "hist_rel sha3 k p (xs @ zs)"
      using hist_rel_push_all [OF m'(2)] by blast
    obtain q where q: "mt_run sha3 (2 ^ k) blocks (xs @ zs) = Inr q" "hist_rel sha3 k q (xs @ zs)"
      using mt_run_rel [OF assms(1-4)] by blast
    from mtree.same_root [OF p(2) q(2)] p q assms(6) show ?thesis by auto
  qed
  with m' show ?thesis by blast
qed

theorem merkle_rollback_witness:
  "\<exists>m m'. mt_run (take 1) (2 ^ 2) 1 ([[1], [2], [3], [4]] @ [[5], [6 :: byte]]) = Inr m
    \<and> mt_rollback (take 1) 2 m = Inr m'
    \<and> (\<exists>p q. foldR (mt_push (take 1)) [[7]] m' = Inr p
         \<and> mt_run (take 1) (2 ^ 2) 1 ([[1], [2], [3], [4]] @ [[7]]) = Inr q \<and> mt_root p = mt_root q)"
proof -
  let ?xs = "[[1], [2], [3], [4 :: byte]]" and ?ys = "[[5], [6 :: byte]]"
  have len: "length (blk_of (hash_pair (take 1)) 4 (?xs @ ?ys)) = 2"
    "length (last (blk_of (hash_pair (take 1)) 4 (?xs @ ?ys))) = 3"
    by (simp_all add: blk_of_def blk_push_def Let_def)
  obtain m where m: "mt_run (take 1) (2 ^ 2) 1 (?xs @ ?ys) = Inr m"
    using mt_run_rel [of 2 1 "take 1" "?xs @ ?ys"] by (auto simp: SIZE_MOD_def)
  have r: "length ?ys \<le> mt_max_rollback m"
    using mt_run_max_rollback [OF _ _ _ _ m] len by (simp add: SIZE_MOD_def)
  obtain m' where m': "mt_rollback (take 1) (length ?ys) m = Inr m'"
    "\<forall>zs. \<exists>p q. foldR (mt_push (take 1)) zs m' = Inr p
       \<and> mt_run (take 1) (2 ^ 2) 1 (?xs @ zs) = Inr q \<and> mt_root p = mt_root q"
    using merkle_rollback [OF _ _ _ _ m _ r] by (auto simp: SIZE_MOD_def)
  have "length ?ys = 2" by simp
  then show ?thesis using m m' by metis
qed

text \<open>
  C9: how far a rollback can go.  After pushing \<open>xs\<close>, \<^verbatim>\<open>max_rollback()\<close> is the number of leaves
  of the last block less one, and one block less its first leaf for every earlier block still
  held; the tree holds one block more than it was asked to.  A larger rollback throws
  \<^verbatim>\<open>bad_exception\<close>.
\<close>

theorem merkle_rollback_limit:
  assumes "1 \<le> k" and "k \<le> 31" and "0 < blocks" and "(blocks + 2) * 2 ^ k < SIZE_MOD"
    and "mt_run sha3 (2 ^ k) blocks xs = Inr m" and "xs \<noteq> []"
  shows "mt_max_rollback m =
      min blocks (length (blk_of (hash_pair sha3) (2 ^ k) xs) - 1) * (2 ^ k - 1)
        + (length (last (blk_of (hash_pair sha3) (2 ^ k) xs)) - 1)
    \<and> (mt_max_rollback m < n \<longrightarrow> mt_rollback sha3 n m = Inl Bad_Exception)"
  using mt_run_max_rollback [OF assms] by (auto simp: mt_rollback_def)

theorem merkle_rollback_limit_witness:
  "\<exists>m. mt_run (take 1) (2 ^ 2) 2 [[1], [2], [3], [4], [5], [6], [7], [8], [9 :: byte]] = Inr m
    \<and> mt_max_rollback m = 8"
proof -
  let ?xs = "[[1], [2], [3], [4], [5], [6], [7], [8], [9 :: byte]]"
  have len: "length (blk_of (hash_pair (take 1)) 4 ?xs) = 3"
    "length (last (blk_of (hash_pair (take 1)) 4 ?xs)) = 3"
    by (simp_all add: blk_of_def blk_push_def Let_def)
  obtain m where m: "mt_run (take 1) (2 ^ 2) 2 ?xs = Inr m"
    using mt_run_rel [of 2 2 "take 1" ?xs] by (auto simp: SIZE_MOD_def)
  show ?thesis using merkle_rollback_limit [OF _ _ _ _ m, of 0] m len by (simp add: SIZE_MOD_def)
qed

text \<open>
  A tree whose number of leaves is odd and at least three: the second leaf is a left child in the
  array, so its parent passes it on alone.
\<close>

lemma mt_two_pushes:
  assumes new: "mt_new x blocks = Inr m" and c: "ceil2 x = Inr (2 * q + 1)" and q: "1 \<le> q" "4 * q + 4 < SIZE_MOD"
  shows "bindR (foldR (mt_push sha3) [a, b] m) mt_root = Inr b"
proof -
  define l n where "l = 2 * q + 1" and "n = 4 * q + 1"
  have sz: "treesize l = n" "sz_sub l 1 = 2 * q" "sz_add (2 * q) 1 = l" "sz_sub l (2 * q) = 1"
    "mt_left q = l" "mt_right q = l + 1" "mt_parent l = q" "sz_add l 1 = l + 1" "sz_add 1 (mt_log2 1) = 1"
    using q by (simp_all add: l_def n_def treesize_def size_t_simps mt_left_def mt_right_def mt_parent_def
        mt_log2.simps [of "Suc 0"])
  have less: "2 * q < n" "l < n" "q < n" "Suc l \<noteq> n" "l \<noteq> 2 * q" using q by (auto simp: l_def n_def)
  let ?t = "(replicate n zero_hash)[2 * q := a]"
  have m: "m = \<lparr>mt_trees = [replicate n zero_hash], mt_max_blocks = blocks, mt_size = n, mt_leafs = l,
      mt_i_current = 2 * q, mt_i_root = 2 * q\<rparr>"
    using new c unfolding l_def [symmetric] by (simp add: mt_new_def sz [unfolded One_nat_def] split: if_splits)
  note ev = mt_push_def m list_back_def vec_set_def vec_get_def Let_def less sz [unfolded One_nat_def] less [unfolded One_nat_def]
  have 1: "mt_push sha3 a m = Inr (m\<lparr>mt_trees := [?t], mt_i_root := 2 * q, mt_i_current := l\<rparr>)"
    by (simp add: ev)
  have "mt_push sha3 b (m\<lparr>mt_trees := [?t], mt_i_root := 2 * q, mt_i_current := l\<rparr>)
      = Inr (m\<lparr>mt_trees := [?t[l := b, q := b]], mt_i_root := q, mt_i_current := l + 1\<rparr>)"
    by (simp add: ev)
  then show ?thesis using 1 less by (simp add: mt_root_def list_back_def vec_get_def)
qed

lemma empty_rollback:
  assumes k: "1 \<le> k" "k \<le> 31" and m: "mt_new (2 ^ k) blocks = Inr m" and n: "0 < n" "n < SIZE_MOD"
  shows "mt_max_rollback m = SIZE_MOD - 1 \<and> mt_rollback sha3 n m = Inl Undefined"
proof -
  define l where "l = (2 :: nat) ^ k"
  have l: "2 \<le> l" "4 * l < SIZE_MOD" using k pow31 [OF k(2)] power_increasing [of 1 k "2 :: nat"] by (simp_all add: l_def)
  have f: "mt_trees m = [replicate (treesize l) zero_hash]" "mt_leafs m = l" "mt_i_current m = l - 1"
    using m ceil2_power [OF k(2)] l by (auto simp: mt_new_def l_def [symmetric] size_t_simps split: if_splits)
  have max: "mt_max_rollback m = SIZE_MOD - 1"
    using l by (simp add: mt_max_rollback_def f size_t_simps sz_sub_wrap sz_mul_def sz_add_def)
  have "mt_rollback sha3 n m = Inl Undefined"
  proof (cases "l \<le> n")
    case True
    have "rollback_loop l s [] = Inl Undefined \<or> (s < l \<and> rollback_loop l s [] = Inr (s, []))" for s
      by (simp add: rollback_loop.simps)
    then have "rollback_loop l n (mt_trees m) = Inl Undefined
        \<or> (\<exists>s<l. rollback_loop l n (mt_trees m) = Inr (s, []))"
      using True by (subst (1 2) rollback_loop.simps) (auto simp: f)
    then show ?thesis
    proof (elim disjE exE conjE)
      fix s assume s: "s < l" "rollback_loop l n (mt_trees m) = Inr (s, [])"
      have "sz_sub (l - 1) s < l" using s(1) l by (simp add: size_t_simps)
      then show ?thesis using n s(2) by (simp add: mt_rollback_def max f)
    qed (use n in \<open>simp add: mt_rollback_def max f\<close>)
  next
    case False
    then have "sz_sub (l - 1) n < l" using l by (simp add: size_t_simps)
    then show ?thesis using False n by (simp add: mt_rollback_def max f rollback_loop.simps list_back_def)
  qed
  then show ?thesis using max by blast
qed

text \<open>
  C31: outside the documented use the tree goes wrong.  A number of leaves between two powers of
  two is not rounded up to the greater one but becomes the smaller one and 1, and the root after
  two pushes into such a tree is the second hash alone.  A tree of one leaf writes past its array
  on the second push.  On an empty tree \<^verbatim>\<open>max_rollback()\<close> wraps to the largest \<^verbatim>\<open>size_t\<close>, so
  that no number of steps is refused, and every rollback reads the back of an empty list.
\<close>

theorem merkle_edge_cases:
  assumes "0 < blocks"
  shows "(1 \<le> k \<and> k \<le> 31 \<and> 2 ^ k < x \<and> x < 2 ^ (k + 1) \<longrightarrow>
      ceil2 x = Inr (2 ^ k + 1) \<and> bindR (mt_run sha3 x blocks [a, b]) mt_root = Inr b)
    \<and> mt_run sha3 1 blocks (a # b # zs) = Inl Undefined
    \<and> (1 \<le> k \<and> k \<le> 31 \<and> 0 < n \<and> n < SIZE_MOD \<longrightarrow> (\<exists>m. mt_new (2 ^ k) blocks = Inr m
         \<and> mt_max_rollback m = SIZE_MOD - 1 \<and> mt_rollback sha3 n m = Inl Undefined))"
proof (intro conjI impI; (elim conjE)?)
  assume k: "1 \<le> k" "k \<le> 31" and x: "2 ^ k < x" "x < 2 ^ (k + 1)"
  show c: "ceil2 x = Inr (2 ^ k + 1)" using ceil2_between [OF k(2) x(1)] x(2) by simp
  have "(2 :: nat) ^ k = 2 * 2 ^ (k - 1)" using k(1) by (simp flip: power_Suc)
  then have q: "ceil2 x = Inr (2 * 2 ^ (k - 1) + 1)" "4 * 2 ^ (k - 1) + 4 < SIZE_MOD"
    using c pow31 [of 31] pow31 [OF k(2)] by (simp_all add: SIZE_MOD_def)
  obtain m where "mt_new x blocks = Inr m" using assms c by (simp add: mt_new_def)
  with mt_two_pushes [OF this q(1) _ q(2)] show "bindR (mt_run sha3 x blocks [a, b]) mt_root = Inr b"
    by (simp add: mt_run_def)
next
  show "mt_run sha3 1 blocks (a # b # zs) = Inl Undefined"
    using assms by (simp add: mt_run_def mt_eval)
next
  assume k: "1 \<le> k" "k \<le> 31" and n: "0 < n" "n < SIZE_MOD"
  obtain m where "mt_new (2 ^ k) blocks = Inr m"
    using assms ceil2_power [OF k(2)] by (simp add: mt_new_def)
  with empty_rollback [OF k this n] show "\<exists>m. mt_new (2 ^ k) blocks = Inr m
      \<and> mt_max_rollback m = SIZE_MOD - 1 \<and> mt_rollback sha3 n m = Inl Undefined" by blast
qed

theorem merkle_edge_cases_witness:
  "ceil2 11 = Inr 9 \<and> bindR (mt_run (take 1) 11 1 [[1], [2 :: byte]]) mt_root = Inr [2]
    \<and> mt_run (take 1) 1 1 [[1], [2 :: byte], [3]] = Inl Undefined
    \<and> (\<exists>m. mt_new (2 ^ 3) 1 = Inr m \<and> mt_rollback (take 1) 5 m = Inl Undefined)"
  using merkle_edge_cases [of 1 3 11 "take 1" "[1]" "[2]" "[[3]]" 5] by (auto simp: SIZE_MOD_def)

end
