(* ===== verification/Merkle_Print.thy ===== *)
theory Merkle_Print
  imports Merkle_Refinement
begin

text \<open>
  The debug output of \<^verbatim>\<open>MerkleTree\<close> (\<^verbatim>\<open>printelement\<close> and \<^verbatim>\<open>dump\<close> of
  \<^verbatim>\<open>src/ametsuchi/merkle_tree/merkle_tree.cc\<close>): the last tree as a line of hexadecimal digits with
  the root and the next free leaf in colour.  What \<^verbatim>\<open>printf\<close> writes is the result here.  The lemmas
  say when the line can be printed at all and what can be read back from it.
\<close>

section \<open>Operations\<close>

definition alph :: string where
  "alph = ''0123456789abcdef''"

text \<open>The digits of the first \<open>amount\<close> bytes of a hash, appended to \<open>out\<close> byte by byte.\<close>

definition print_byte :: "hash_t \<Rightarrow> nat \<Rightarrow> string \<Rightarrow> error + string" where
  "print_byte h j out =
     bindR (vec_get h j) (\<lambda>b. Inr (out @ [alph ! unat (b div 16), alph ! unat (b mod 16)]))"

definition mt_printelement :: "merkle_tree \<Rightarrow> hash_t list \<Rightarrow> nat \<Rightarrow> nat \<Rightarrow> error + string" where
  "mt_printelement m tree i amount =
     (let out1 = (if i = mt_i_root m then CHR 0x1B # ''[0;31m'' else '''');
          out2 = out1 @ (if i = mt_i_current m then CHR 0x1B # ''[0;32m'' else '''')
      in
      bindR (vec_get tree i) (\<lambda>h.
      bindR (vec_get h 0) (\<lambda>b0.
      bindR (if b0 = 0 then bindR (vec_get h 1) (\<lambda>b1. Inr (b1 = 0)) else Inr False) (\<lambda>zeros.
      bindR (if zeros then Inr (out2 @ replicate (sz_mul amount 2) CHR ''0'')
             else foldR (print_byte h) [0..<amount] out2) (\<lambda>out3.
        let out4 = out3 @ (if i = mt_i_root m then CHR 0x1B # ''[0m'' else '''');
            out5 = out4 @ (if i = mt_i_current m then CHR 0x1B # ''[0m'' else '''')
        in Inr (out5 @ (if i \<noteq> sz_sub (length tree) 1 then '', '' else '''')))))))"

definition mt_dump :: "nat \<Rightarrow> merkle_tree \<Rightarrow> error + string" where
  "mt_dump amount m =
     bindR (list_back (mt_trees m)) (\<lambda>tree.
     bindR (foldR (\<lambda>i out. bindR (mt_printelement m tree i amount) (\<lambda>e. Inr (out @ e)))
              [0..<length tree] ''['') (\<lambda>out.
     Inr (out @ '']'' @ [CHR 0x0A])))"

section \<open>One element\<close>

text \<open>A hash that begins with two zero bytes is taken for one that is not there.\<close>

definition absent :: "hash_t \<Rightarrow> bool" where
  "absent h \<longleftrightarrow> h ! 0 = 0 \<and> h ! 1 = 0"

definition shown :: "nat \<Rightarrow> hash_t \<Rightarrow> hash_t" where
  "shown a h = (if absent h then replicate a 0 else take a h)"

definition hex :: "hash_t \<Rightarrow> string" where
  "hex bs = concat (map (\<lambda>b. [alph ! unat (b div 16), alph ! unat (b mod 16)]) bs)"

definition mark_on :: "merkle_tree \<Rightarrow> nat \<Rightarrow> string" where
  "mark_on m i = (if i = mt_i_root m then CHR 0x1B # ''[0;31m'' else '''')
     @ (if i = mt_i_current m then CHR 0x1B # ''[0;32m'' else '''')"

definition mark_off :: "merkle_tree \<Rightarrow> nat \<Rightarrow> string" where
  "mark_off m i = (if i = mt_i_root m then CHR 0x1B # ''[0m'' else '''')
     @ (if i = mt_i_current m then CHR 0x1B # ''[0m'' else '''')"

definition elem_text :: "merkle_tree \<Rightarrow> hash_t list \<Rightarrow> nat \<Rightarrow> nat \<Rightarrow> string" where
  "elem_text m tree a i = mark_on m i @ hex (shown a (tree ! i)) @ mark_off m i
     @ (if i \<noteq> length tree - 1 then '', '' else '''')"

lemma hex_simps [simp]:
  "hex [] = []"
  "hex (b # bs) = alph ! unat (b div 16) # alph ! unat (b mod 16) # hex bs"
  "hex (bs @ cs) = hex bs @ hex cs"
  by (simp_all add: hex_def)

lemma length_hex [simp]: "length (hex bs) = 2 * length bs"
  by (induction bs) simp_all

lemma nibbles: "unat ((b :: byte) div 16) < 16" "unat (b mod 16) < 16" "b div 16 * 16 + b mod 16 = b"
  using unsigned_less [where w = b and 'a = nat] by (simp_all add: unat_div_distrib unat_mod_distrib div_mult_mod_eq)

lemma alph_inj: "i < 16 \<Longrightarrow> j < 16 \<Longrightarrow> alph ! i = alph ! j \<longleftrightarrow> i = j"
  by (subst nth_eq_iff_index_eq) (simp_all add: alph_def)

lemma alph_hd: "i < 16 \<Longrightarrow> alph ! i \<noteq> CHR 0x1B"
proof
  assume "i < 16" and e: "alph ! i = CHR 0x1B"
  then have "alph ! i \<in> set alph" by (intro nth_mem) (simp add: alph_def)
  then show False unfolding e by (simp add: alph_def)
qed

text \<open>The digits determine the bytes: two digits for each, one for each half.\<close>

lemma byte_digits_inj:
  "alph ! unat (b div 16) = alph ! unat (c div 16) \<Longrightarrow> alph ! unat (b mod 16) = alph ! unat (c mod 16)
     \<Longrightarrow> b = (c :: byte)"
  using nibbles [of b] nibbles [of c] by (simp add: alph_inj) (metis word_unat_eq_iff)

lemma hex_inj: "hex bs = hex cs \<longleftrightarrow> bs = cs"
proof (induction bs arbitrary: cs)
  case Nil
  then show ?case by (cases cs) simp_all
next
  case (Cons b bs)
  then show ?case by (cases cs) (auto dest: byte_digits_inj)
qed

lemma hex_zeros [simp]: "hex (replicate n 0) = replicate (2 * n) CHR ''0''"
  by (induction n) (simp_all add: alph_def)

lemma print_bytes:
  "a \<le> length h \<Longrightarrow> foldR (print_byte h) [0..<a] out = Inr (out @ hex (take a h))"
  by (induction a) (simp_all add: foldR_append print_byte_def vec_get_def take_Suc_conv_app_nth)

lemma print_bytes_beyond:
  assumes "length h < a"
  shows "foldR (print_byte h) [0..<a] out = Inl Undefined"
proof -
  have "[0..<a] = [0..<length h] @ length h # [Suc (length h)..<a]"
    using assms upt_add_eq_append [of 0 "length h" "a - length h"] by (simp add: upt_conv_Cons)
  then show ?thesis by (simp add: foldR_append print_bytes print_byte_def vec_get_def)
qed

lemma printelement:
  assumes "i < length tree" and "length (tree ! i) = HASH_LEN" and "length tree < SIZE_MOD"
    and "2 * a < SIZE_MOD"
  shows "mt_printelement m tree i a =
     (if a \<le> HASH_LEN \<or> absent (tree ! i) then Inr (elem_text m tree a i) else Inl Undefined)"
proof -
  have "sz_mul a 2 = 2 * a" "sz_sub (length tree) 1 = length tree - 1"
    using assms by (simp_all add: size_t_simps mult.commute)
  then show ?thesis
    using assms print_bytes [of a "tree ! i"] print_bytes_beyond [of "tree ! i" a]
    by (auto simp: mt_printelement_def vec_get_def absent_def shown_def elem_text_def mark_on_def
        mark_off_def HASH_LEN_def Let_def)
qed


section \<open>The whole line\<close>

lemma dump_loop:
  assumes "\<And>i. i < n \<Longrightarrow> f i = Inr (g i)"
  shows "foldR (\<lambda>i out. bindR (f i) (\<lambda>e. Inr (out @ e))) [0..<n] out
    = Inr (out @ concat (map g [0..<n]))"
  using assms by (induction n) (simp_all add: foldR_append)

lemma dump_loop_fails:
  assumes "\<And>i. i < n \<Longrightarrow> f i = (if P i then Inr (g i) else Inl e)" and "i < n" and "\<not> P i"
  shows "foldR (\<lambda>i out. bindR (f i) (\<lambda>e. Inr (out @ e))) [0..<n] out = Inl e"
  using assms
proof (induction n arbitrary: i)
  case (Suc n)
  show ?case
  proof (cases "\<exists>j < n. \<not> P j")
    case True
    then obtain j where "j < n" "\<not> P j" by blast
    with Suc.IH [of j] Suc.prems(1) show ?thesis by (simp add: foldR_append)
  next
    case False
    then have "f j = Inr (g j)" if "j < n" for j using Suc.prems(1) [of j] that by simp
    moreover have "f n = Inl e" using False Suc.prems by (cases "i = n") auto
    ultimately show ?thesis by (simp add: foldR_append dump_loop)
  qed
qed simp

text \<open>What can be read off the text of one element, and where it ends.\<close>

lemma shown_length [simp]: "a \<le> length h \<Longrightarrow> length (shown a h) = a"
  by (simp add: shown_def)

lemma hex_no_escape: "bs \<noteq> [] \<Longrightarrow> \<exists>c r. hex bs = c # r \<and> c \<noteq> CHR 0x1B"
  by (cases bs) (simp_all add: alph_hd nibbles)

lemma elem_text_inj:
  assumes "0 < a" and "a \<le> length (t ! i)" and "a \<le> length (t' ! i)" and "length t = length t'"
  shows "elem_text m t a i @ r = elem_text m' t' a i @ r' \<longleftrightarrow>
     (i = mt_i_root m \<longleftrightarrow> i = mt_i_root m') \<and> (i = mt_i_current m \<longleftrightarrow> i = mt_i_current m')
     \<and> shown a (t ! i) = shown a (t' ! i) \<and> r = r'"
proof -
  have ne: "shown a (t ! i) \<noteq> []" "shown a (t' ! i) \<noteq> []"
    using assms(1) shown_length [OF assms(2)] shown_length [OF assms(3)] by (metis length_greater_0_conv)+
  obtain c1 r1 c2 r2 where h: "hex (shown a (t ! i)) = c1 # r1" "c1 \<noteq> CHR 0x1B"
      "hex (shown a (t' ! i)) = c2 # r2" "c2 \<noteq> CHR 0x1B"
    using hex_no_escape [OF ne(1)] hex_no_escape [OF ne(2)] by metis
  have len: "length (hex (shown a (t ! i))) = length (hex (shown a (t' ! i)))"
    using assms by simp
  have on: "mark_on m i @ hex (shown a (t ! i)) @ s = mark_on m' i @ hex (shown a (t' ! i)) @ s' \<longleftrightarrow>
      (i = mt_i_root m \<longleftrightarrow> i = mt_i_root m') \<and> (i = mt_i_current m \<longleftrightarrow> i = mt_i_current m')
      \<and> shown a (t ! i) = shown a (t' ! i) \<and> s = s'" for s s'
    using h len hex_inj [of "shown a (t ! i)" "shown a (t' ! i)"]
    by (cases "i = mt_i_root m"; cases "i = mt_i_root m'"; cases "i = mt_i_current m";
        cases "i = mt_i_current m'") (auto simp: mark_on_def)
  show ?thesis unfolding elem_text_def append_assoc on using assms(4) by (auto simp: mark_off_def)
qed


text \<open>A tree that can be printed: one block at least, every node a hash of the right length.\<close>

definition hashes :: "merkle_tree \<Rightarrow> bool" where
  "hashes m \<longleftrightarrow> mt_trees m \<noteq> [] \<and> (\<forall>t \<in> set (mt_trees m). \<forall>h \<in> set t. length h = HASH_LEN)"

lemma hashesD:
  "hashes m \<Longrightarrow> mt_trees m \<noteq> []"
  "hashes m \<Longrightarrow> h \<in> set (last (mt_trees m)) \<Longrightarrow> length h = HASH_LEN"
  by (auto simp: hashes_def)

lemma dump_text:
  assumes "hashes m" and "length (last (mt_trees m)) < SIZE_MOD" and "2 * a < SIZE_MOD"
  shows "mt_dump a m =
     (if a \<le> HASH_LEN \<or> (\<forall>h \<in> set (last (mt_trees m)). absent h)
      then Inr (''['' @ concat (map (elem_text m (last (mt_trees m)) a) [0..<length (last (mt_trees m))])
                @ '']'' @ [CHR 0x0A])
      else Inl Undefined)"
proof -
  define t where "t = last (mt_trees m)"
  have e: "mt_printelement m t i a =
      (if a \<le> HASH_LEN \<or> absent (t ! i) then Inr (elem_text m t a i) else Inl Undefined)"
    if "i < length t" for i
    using that assms hashesD [OF assms(1)] by (intro printelement) (auto simp: t_def)
  show ?thesis
  proof (cases "a \<le> HASH_LEN \<or> (\<forall>h \<in> set t. absent h)")
    case True
    then have "mt_printelement m t i a = Inr (elem_text m t a i)" if "i < length t" for i
      using e [OF that] that by auto
    then show ?thesis using True hashesD(1) [OF assms(1)]
      by (simp add: mt_dump_def list_back_def dump_loop flip: t_def)
  next
    case False
    then obtain i where "i < length t" "\<not> (a \<le> HASH_LEN \<or> absent (t ! i))"
      by (auto simp: in_set_conv_nth)
    then have "foldR (\<lambda>i out. bindR (mt_printelement m t i a) (\<lambda>e. Inr (out @ e)))
        [0..<length t] ''['' = Inl Undefined"
      using e by (intro dump_loop_fails [where P = "\<lambda>i. a \<le> HASH_LEN \<or> absent (t ! i)"
          and g = "elem_text m t a" and i = i]) auto
    then show ?thesis using False hashesD(1) [OF assms(1)]
      by (auto simp: mt_dump_def list_back_def simp flip: t_def)
  qed
qed

lemma texts_inj:
  assumes "0 < a" and "length t = length t'"
    and "\<And>i. i < length t \<Longrightarrow> a \<le> length (t ! i)" and "\<And>i. i < length t \<Longrightarrow> a \<le> length (t' ! i)"
    and "n \<le> length t"
  shows "concat (map (elem_text m t a) [length t - n..<length t]) @ r
      = concat (map (elem_text m' t' a) [length t - n..<length t]) @ r' \<longleftrightarrow>
    (\<forall>i \<in> {length t - n..<length t}. (i = mt_i_root m \<longleftrightarrow> i = mt_i_root m')
      \<and> (i = mt_i_current m \<longleftrightarrow> i = mt_i_current m') \<and> shown a (t ! i) = shown a (t' ! i)) \<and> r = r'"
  using assms(5)
proof (induction n)
  case (Suc n)
  define j where "j = length t - Suc n"
  have j: "[length t - Suc n..<length t] = j # [length t - n..<length t]"
    "{length t - Suc n..<length t} = insert j {length t - n..<length t}" "j < length t"
    using Suc.prems by (auto simp: j_def upt_conv_Cons Suc_diff_Suc)
  show ?case
    using Suc by (simp add: j elem_text_inj [OF assms(1,3,4) assms(2)])
qed simp


section \<open>Every node is a hash\<close>

lemma set_list_update: "y \<in> set (xs[i := x]) \<Longrightarrow> y = x \<or> y \<in> set xs"
  using set_update_subset_insert [of xs i x] by blast

lemma push_loop_hashes:
  assumes "\<And>x. length (sha3 x) = HASH_LEN"
  shows "push_loop sha3 np t s c r = Inr (t', r') \<Longrightarrow> \<forall>h \<in> set t. length h = HASH_LEN \<Longrightarrow>
    \<forall>h \<in> set t'. length h = HASH_LEN"
proof (induction np arbitrary: t s c r)
  case (Suc np)
  then have len: "length node = HASH_LEN" if "node = t ! i" "i < length t" for node i
    using that Suc.prems(2) by simp
  obtain node where node: "length node = HASH_LEN"
    "push_loop sha3 np (t[s := node]) (mt_parent s) (mt_parent c) s = Inr (t', r')"
    using Suc.prems(1) len assms by (auto simp: Let_def bindR_eq_Inr_iff vec_get_def vec_set_def hash_pair_def
        split: if_splits)
  have "\<forall>h \<in> set (t[s := node]). length h = HASH_LEN"
    using Suc.prems(2) node(1) by (auto dest: set_list_update)
  with Suc.IH [OF node(2)] show ?case by blast
qed simp

lemma push_hashes:
  assumes sha3: "\<And>x. length (sha3 x) = HASH_LEN" and x: "length x = HASH_LEN"
    and m: "hashes m" and p: "mt_push sha3 x m = Inr m'"
  shows "hashes m'"
proof -
  obtain ts t where ts: "mt_trees m = ts @ [t]" using hashesD(1) [OF m] by (metis rev_exhaust)
  let ?ok = "\<lambda>t. \<forall>h \<in> set t. length h = HASH_LEN"
  define t1 where "t1 = t[mt_i_current m := x]"
  have rest: "\<forall>t \<in> set ts. ?ok t" and t1: "?ok t1"
    using m x by (auto simp: hashes_def ts t1_def dest: set_list_update)
  show ?thesis
  proof (cases "mt_i_current m = sz_sub (mt_leafs m) 1")
    case True
    then show ?thesis using p rest t1
      by (auto simp: mt_push_def ts list_back_def vec_set_def t1_def hashes_def split: if_splits)
  next
    case False
    define np where "np = sz_add 1 (mt_log2 (sz_sub (mt_i_current m) (sz_sub (mt_leafs m) 1)))"
    obtain t2 r where t2: "push_loop sha3 np t1 (mt_parent (mt_i_current m)) (mt_i_current m) (mt_i_root m)
        = Inr (t2, r)"
      using p False by (auto simp: mt_push_def ts list_back_def vec_set_def t1_def Let_def np_def
          bindR_eq_Inr_iff split: if_splits)
    have t2_ok: "?ok t2" by (rule push_loop_hashes [OF sha3 t2 t1])
    define u where "u = (replicate (mt_size m) zero_hash)[sz_sub (mt_leafs m) 1 := t2 ! 0]"
    have u_ok: "t2 \<noteq> [] \<Longrightarrow> ?ok u"
      using t2_ok by (auto simp: u_def zero_hash_def dest!: set_list_update)
    have "mt_trees m' = ts @ [t2]
        \<or> t2 \<noteq> [] \<and> (mt_trees m' = ts @ [t2, u] \<or> mt_trees m' = tl (ts @ [t2, u]))"
      using p False t2 by (auto simp del: One_nat_def simp: mt_push_def ts list_back_def vec_set_def
          vec_get_def Let_def simp flip: t1_def np_def u_def split: if_splits)
    then show ?thesis using rest t2_ok u_ok by (cases ts) (auto simp: hashes_def)
  qed
qed

lemma new_hashes: "mt_new l blocks = Inr m \<Longrightarrow> hashes m"
  by (auto simp: mt_new_def bindR_eq_Inr_iff hashes_def zero_hash_def split: if_splits)

lemma run_hashes:
  assumes "\<And>x. length (sha3 x) = HASH_LEN" and "\<forall>x \<in> set xs. length x = HASH_LEN"
    and "mt_run sha3 l blocks xs = Inr m"
  shows "hashes m"
proof -
  have "foldR (mt_push sha3) xs m0 = Inr m \<Longrightarrow> hashes m0 \<Longrightarrow> hashes m" for m0
    using assms(2)
  proof (induction xs arbitrary: m0)
    case (Cons x xs)
    then obtain m1 where "mt_push sha3 x m0 = Inr m1" "foldR (mt_push sha3) xs m1 = Inr m"
      by (auto simp: bindR_eq_Inr_iff)
    moreover from this have "hashes m1" using push_hashes [of sha3] assms(1) Cons.prems by auto
    ultimately show ?case using Cons by simp
  qed simp
  moreover obtain m0 where "mt_new l blocks = Inr m0" "foldR (mt_push sha3) xs m0 = Inr m"
    using assms(3) by (auto simp: mt_run_def bindR_eq_Inr_iff)
  ultimately show ?thesis using new_hashes by blast
qed


lemma hist_rel_size: "hist_rel sha3 k m xs \<Longrightarrow>
    length (last (mt_trees m)) = 2 * 2 ^ k - 1 \<and> 2 * 2 ^ k - 1 < SIZE_MOD"
  using pow31 [of k] by (auto simp: hist_rel_def Let_def mt_block_def tree_ok_def)

lemma run_in_range:
  assumes "1 \<le> k" "k \<le> 31" "0 < blocks" "(blocks + 2) * 2 ^ k < SIZE_MOD"
    and "mt_run sha3 (2 ^ k) blocks xs = Inr m"
  shows "length (last (mt_trees m)) = 2 * 2 ^ k - 1" and "2 * 2 ^ k - 1 < SIZE_MOD"
    and "mt_i_root m < 2 * 2 ^ k - 1" and "mt_i_current m < 2 * 2 ^ k - 1"
proof -
  have rel: "hist_rel sha3 k m xs" using mt_run_rel [OF assms(1-4), of sha3 xs] assms(5) by auto
  show len: "length (last (mt_trees m)) = 2 * 2 ^ k - 1" "2 * 2 ^ k - 1 < SIZE_MOD"
    using hist_rel_size [OF rel] by auto
  have "length (last (blk_of (hash_pair sha3) (2 ^ k) xs)) < 2 ^ k"
    using blk_last [of "2 ^ k" "hash_pair sha3" xs] hist_relD(7) [OF rel] by simp
  then show "mt_i_current m < 2 * 2 ^ k - 1"
    using hist_relD(1) [OF rel] by (auto simp: mt_block_def)
  show "mt_i_root m < 2 * 2 ^ k - 1"
  proof (cases "xs = []")
    case True
    then have "mt_i_root m = 2 ^ k - 1"
      using assms(2,5) hist_relD(1) [OF rel] pow31 [of k]
      by (auto simp: mt_run_def mt_new_def bindR_eq_Inr_iff mt_block_def size_t_simps split: if_splits)
    then show ?thesis using hist_relD(7) [OF rel] by linarith
  next
    case False
    then show ?thesis using rel len by (auto simp: hist_rel_def Let_def)
  qed
qed

lemma last_wide:
  assumes "hashes m" and "a \<le> HASH_LEN" and "i < length (last (mt_trees m))"
  shows "a \<le> length (last (mt_trees m) ! i)"
  using hashesD(2) [OF assms(1)] assms(2,3) by simp

text \<open>Two printed lines of trees of one size.\<close>

lemma dumps_equal:
  assumes h: "hashes m" "hashes m'"
    and n: "length (last (mt_trees m)) = n" "length (last (mt_trees m')) = n" "n < SIZE_MOD"
    and r: "mt_i_root m < n" "mt_i_current m < n" "mt_i_root m' < n" "mt_i_current m' < n"
    and a: "0 < a" "a \<le> HASH_LEN"
  shows "mt_dump a m = mt_dump a m' \<longleftrightarrow> mt_i_root m = mt_i_root m' \<and> mt_i_current m = mt_i_current m'
      \<and> map (shown a) (last (mt_trees m)) = map (shown a) (last (mt_trees m'))"
proof -
  let ?t = "last (mt_trees m)" and ?t' = "last (mt_trees m')"
  have a2: "2 * a < SIZE_MOD" using a(2) by (simp add: HASH_LEN_def SIZE_MOD_def)
  have "mt_dump a m = mt_dump a m' \<longleftrightarrow>
      concat (map (elem_text m ?t a) [0..<n]) @ '']'' @ [CHR 0x0A]
        = concat (map (elem_text m' ?t' a) [0..<n]) @ '']'' @ [CHR 0x0A]"
    using dump_text [OF h(1) _ a2] dump_text [OF h(2) _ a2] n a(2) by simp
  also have "\<dots> \<longleftrightarrow> (\<forall>i \<in> {0..<n}. (i = mt_i_root m \<longleftrightarrow> i = mt_i_root m')
      \<and> (i = mt_i_current m \<longleftrightarrow> i = mt_i_current m') \<and> shown a (?t ! i) = shown a (?t' ! i))"
    using texts_inj [of a ?t ?t' n m "'']'' @ [CHR 0x0A]" m' "'']'' @ [CHR 0x0A]"]
      last_wide [OF h(1) a(2)] last_wide [OF h(2) a(2)] n a(1) by simp
  also have "\<dots> \<longleftrightarrow> mt_i_root m = mt_i_root m' \<and> mt_i_current m = mt_i_current m'
      \<and> map (shown a) ?t = map (shown a) ?t'"
  proof -
    have "map (shown a) ?t = map (shown a) ?t' \<longleftrightarrow> (\<forall>i < n. shown a (?t ! i) = shown a (?t' ! i))"
      by (subst list_eq_iff_nth_eq) (simp add: n)
    then show ?thesis using r by auto
  qed
  finally show ?thesis .
qed

section \<open>Properties\<close>

text \<open>
  C35: the debug output after any pushes.  Printing fails, with no meaning, exactly when more than
  32 bytes of a hash are asked for and some node of the last tree does not begin with two zero
  bytes.  Up to 32 bytes it succeeds, and two trees of the same size print the same line exactly
  when they have the same root position, the same next leaf and agree in the printed bytes of
  every node, where a hash that begins with two zero bytes is printed as all zeros.
\<close>

theorem merkle_dump:
  assumes "1 \<le> k" and "k \<le> 31" and "0 < blocks" and "(blocks + 2) * 2 ^ k < SIZE_MOD"
    and sha3: "\<And>x. length (sha3 x) = HASH_LEN"
    and xs: "\<forall>x \<in> set xs. length x = HASH_LEN" and ys: "\<forall>y \<in> set ys. length y = HASH_LEN"
    and m: "mt_run sha3 (2 ^ k) blocks xs = Inr m" and m': "mt_run sha3 (2 ^ k) blocks ys = Inr m'"
    and a: "0 < a" "2 * a < SIZE_MOD"
  shows "(mt_dump a m = Inl Undefined \<longleftrightarrow>
        32 < a \<and> (\<exists>h \<in> set (last (mt_trees m)). h ! 0 \<noteq> 0 \<or> h ! 1 \<noteq> 0))
    \<and> (a \<le> 32 \<longrightarrow> (\<exists>s. mt_dump a m = Inr s) \<and> (mt_dump a m = mt_dump a m' \<longleftrightarrow>
        mt_i_root m = mt_i_root m' \<and> mt_i_current m = mt_i_current m'
        \<and> map (shown a) (last (mt_trees m)) = map (shown a) (last (mt_trees m'))))"
proof -
  note h = run_hashes [OF sha3 xs m] run_hashes [OF sha3 ys m']
  note r = run_in_range [OF assms(1-4) m] run_in_range [OF assms(1-4) m']
  have "mt_dump a m = Inl Undefined \<longleftrightarrow>
      \<not> (a \<le> HASH_LEN \<or> (\<forall>h \<in> set (last (mt_trees m)). absent h))"
    using dump_text [OF h(1) _ a(2)] r(1,2) by simp
  moreover have "\<exists>s. mt_dump a m = Inr s" if "a \<le> HASH_LEN"
    using dump_text [OF h(1) _ a(2)] r(1,2) that by simp
  moreover note dumps_equal [OF h r(1,5,2) r(3,4,7,8) a(1)]
  ultimately show ?thesis by (auto simp: absent_def HASH_LEN_def not_le)
qed

theorem merkle_dump_witness:
  "\<exists>m m'. mt_run (\<lambda>x. take 32 (x @ zero_hash)) 2 1 [replicate 32 1] = Inr m
    \<and> mt_run (\<lambda>x. take 32 (x @ zero_hash)) 2 1 [replicate 32 2] = Inr m'
    \<and> mt_dump 2 m \<noteq> mt_dump 2 m' \<and> mt_dump 33 m = Inl Undefined"
proof -
  define sha3 where "sha3 = (\<lambda>x :: hash_t. take 32 (x @ zero_hash))"
  have len: "length (sha3 x) = HASH_LEN" for x by (simp add: sha3_def zero_hash_def HASH_LEN_def)
  have sz: "(1 + 2) * 2 ^ 1 < SIZE_MOD" by (simp add: SIZE_MOD_def)
  have two: "ceil2 2 = Inr 2" by (simp add: ceil2_def mt_log2_small)
  obtain m where m: "mt_run sha3 (2 ^ 1) 1 [replicate 32 1] = Inr m"
    "last (mt_trees m) ! 1 = replicate 32 1" "length (last (mt_trees m)) = 3"
    by (simp add: mt_run_def mt_eval two)
  obtain m' where m': "mt_run sha3 (2 ^ 1) 1 [replicate 32 2] = Inr m'"
    "last (mt_trees m') ! 1 = replicate 32 2" "length (last (mt_trees m')) = 3"
    by (simp add: mt_run_def mt_eval two)
  have xs: "\<forall>x \<in> set [replicate 32 (b :: byte)]. length x = HASH_LEN" for b
    by (simp add: HASH_LEN_def)
  note p = merkle_dump [OF _ _ _ sz len xs xs m(1) m'(1)]
  have "map (shown 2) (last (mt_trees m)) ! 1 \<noteq> map (shown 2) (last (mt_trees m')) ! 1"
    using m m' by (simp add: shown_def absent_def)
  then have "mt_dump 2 m \<noteq> mt_dump 2 m'" using p [of 2] by (auto simp: SIZE_MOD_def)
  moreover have "\<exists>h \<in> set (last (mt_trees m)). h ! 0 \<noteq> 0"
    using m nth_mem [of 1 "last (mt_trees m)"] by (intro bexI [of _ "replicate 32 1"]) auto
  then have "mt_dump 33 m = Inl Undefined" using p [of 33] by (auto simp: SIZE_MOD_def)
  ultimately show ?thesis using m(1) m'(1) by (auto simp: sha3_def)
qed

end
