(* ===== verification/Narrow_Merkle_Tree.thy ===== *)
theory Narrow_Merkle_Tree
  imports Circular_Stack Merkle_Refinement
begin

text \<open>
  The class template \<^verbatim>\<open>NarrowMerkleTree<T>\<close>
  (\<^verbatim>\<open>include/ametsuchi/merkle_tree/narrow_merkle_tree.h\<close>): layer \<open>j\<close> is a circular stack of
  the hashes of the first \<open>i * capacity ^ j\<close> transactions, the newest on top.  \<^verbatim>\<open>HashFn\<close> and
  the default value \<^verbatim>\<open>T()\<close> are the parameters \<open>h\<close> and \<open>t0\<close>.  \<^verbatim>\<open>path_diff\<close>, which nothing
  calls and which works on the floating point logarithm, is not modelled.
\<close>

section \<open>State and operations\<close>

record 'a narrow =
  nm_data :: "'a cstack list"
  nm_capacity :: nat
  nm_txs :: nat
  nm_prev :: nat

text \<open>
  \<^verbatim>\<open>popcount(n)\<close> for a type of \<open>bytes\<close> bytes: the bit set has that many bits, so it is the lowest
  \<open>bytes\<close> bits of \<open>n\<close> that are counted.
\<close>

definition nm_popcount :: "nat \<Rightarrow> nat \<Rightarrow> nat" where
  "nm_popcount bytes n = length (filter (bit n) [0..<bytes])"

partial_function (option) height_loop :: "nat \<Rightarrow> nat \<Rightarrow> nat \<Rightarrow> nat \<Rightarrow> nat option" where
  "height_loop c n num cap =
     (if cap \<le> n then height_loop c n (sz_add num 1) (sz_mul cap c) else Some num)"

definition nm_height :: "nat \<Rightarrow> nat \<Rightarrow> error + nat" where
  "nm_height c n = (case height_loop c n 0 1 of None \<Rightarrow> Inl Diverges | Some num \<Rightarrow> Inr num)"

definition nm_merkle :: "'a narrow \<Rightarrow> 'a cstack list" where
  "nm_merkle m = nm_data m"

fun first_back :: "'a \<Rightarrow> 'a cstack list \<Rightarrow> error + 'a" where
  "first_back t0 [] = Inr t0"
| "first_back t0 (layer # rest) =
     (if cs_size layer \<noteq> 0 then cs_back layer else first_back t0 rest)"

definition nm_get_root :: "'a \<Rightarrow> 'a narrow \<Rightarrow> error + 'a" where
  "nm_get_root t0 m = first_back t0 (nm_data m)"

definition nm_size :: "'a narrow \<Rightarrow> nat" where
  "nm_size m = nm_txs m"

text \<open>Both overloads of \<^verbatim>\<open>grow\<close> append an empty layer; the class only calls it with its capacity.\<close>

definition nm_grow :: "nat \<Rightarrow> 'a narrow \<Rightarrow> error + 'a narrow" where
  "nm_grow c m = bindR (cs_new c) (\<lambda>l. Inr (m\<lparr>nm_data := nm_data m @ [l]\<rparr>))"

definition nm_new :: "nat \<Rightarrow> error + 'a narrow" where
  "nm_new c =
     (if c = 0 then Inl (Literal ''capacity can't assign empty.'')
      else nm_grow c \<lparr>nm_data = [], nm_capacity = c, nm_txs = 0, nm_prev = 0\<rparr>)"

text \<open>When \<^verbatim>\<open>add\<close> opens a layer; \<open>n\<close> is the new number of transactions.\<close>

definition nm_grows :: "nat \<Rightarrow> nat \<Rightarrow> nat \<Rightarrow> error + bool" where
  "nm_grows c n layers =
     (if n = 1 then Inr False
      else bindR (nm_height c n) (\<lambda>ht.
           bindR (nm_height c (sz_sub n 1)) (\<lambda>below. Inr (below < ht \<and> layers < ht))))"

text \<open>The loop of \<^verbatim>\<open>add\<close> up the layers: \<open>child\<close> and \<open>parent\<close> are the first two.\<close>

fun add_loop :: "nat \<Rightarrow> nat \<Rightarrow> 'a cstack list \<Rightarrow> error + 'a cstack list" where
  "add_loop c idx (child # parent # rest) =
     (if c = 0 then Inl Undefined
      else if idx mod c = c - 1
      then bindR (cs_back child) (\<lambda>t.
           bindR (cs_push t parent) (\<lambda>parent'.
           bindR (add_loop c (idx div c) (parent' # rest)) (\<lambda>layers.
             Inr (child # layers))))
      else Inr (child # parent # rest))"
| "add_loop c idx layers = Inr layers"

definition nm_add :: "('a \<Rightarrow> 'a \<Rightarrow> 'a) \<Rightarrow> 'a \<Rightarrow> 'a \<Rightarrow> 'a narrow \<Rightarrow> error + 'a narrow" where
  "nm_add h t0 t m =
     (let n = sz_add (nm_txs m) 1
      in bindR (nm_get_root t0 m) (\<lambda>root.
         case nm_data m of [] \<Rightarrow> Inl Undefined
         | layer # rest \<Rightarrow>
             bindR (cs_push (h root t) layer) (\<lambda>layer'.
             let m1 = m\<lparr>nm_txs := n, nm_data := layer' # rest\<rparr>
             in bindR (nm_grows (nm_capacity m) n (length (nm_data m1))) (\<lambda>grows.
                bindR (if grows then nm_grow (nm_capacity m) m1 else Inr m1) (\<lambda>m2.
                bindR (add_loop (nm_capacity m) (sz_sub n 1) (nm_data m2)) (\<lambda>layers.
                  Inr (m2\<lparr>nm_data := layers\<rparr>)))))))"

text \<open>
  The loop of \<^verbatim>\<open>drop\<close>: \<open>id_tx\<close>, \<open>cap\<close>, \<^verbatim>\<open>txs\<close> (here \<open>n\<close>) and \<^verbatim>\<open>upd_flag\<close> are its variables, \<open>xcap\<close>
  the capacity.
\<close>

fun drop_loop :: "nat \<Rightarrow> nat \<Rightarrow> nat \<Rightarrow> nat \<Rightarrow> nat \<Rightarrow> bool \<Rightarrow> 'a cstack list \<Rightarrow>
    error + nat \<times> 'a cstack list" where
  "drop_loop ind xcap id_tx cap n upd [] = Inr (n, [])"
| "drop_loop ind xcap id_tx cap n upd (layer # rest) =
     (if sz_mul cap xcap = 0 \<or> cap = 0 then Inl Undefined
      else let num = id_tx mod sz_mul cap xcap div cap;
               rm = min (cs_size layer) (sz_sub (sz_add (sz_sub id_tx ind) cap) 1 div cap)
           in bindR (cs_pop rm layer) (\<lambda>layer'.
              let found = (\<not> upd \<and> cs_size layer' \<noteq> 0)
              in bindR (drop_loop ind xcap (sz_sub id_tx (sz_mul num cap)) (sz_mul cap xcap)
                     (if found then sz_sub id_tx (sz_mul rm cap) else n) (upd \<or> found) rest)
                   (\<lambda>(n', layers). Inr (n', layer' # layers))))"

definition nm_drop :: "nat \<Rightarrow> 'a narrow \<Rightarrow> error + nat \<times> 'a narrow" where
  "nm_drop ind m =
     (if ind = 0
      then bindR (nm_grow (nm_capacity m) (m\<lparr>nm_data := [], nm_prev := 0, nm_txs := 0\<rparr>))
             (\<lambda>m'. Inr (0, m'))
      else if ind \<le> nm_prev m then Inr (ind, m)
      else bindR (drop_loop ind (nm_capacity m) (nm_txs m) 1 ind False (nm_data m))
             (\<lambda>(n, layers). Inr (n, m\<lparr>nm_data := layers, nm_txs := n, nm_prev := n\<rparr>)))"

section \<open>The height of a tree\<close>

text \<open>
  The loop ends at the first power of the capacity beyond \<open>n\<close>, as long as the powers up to there
  fit into a \<^verbatim>\<open>size_t\<close>.
\<close>

lemma height_loop_ok:
  assumes c: "2 \<le> c" and fit: "n * c < SIZE_MOD"
  shows "\<exists>ht. height_loop c n num (c ^ num) = Some ht \<and> num \<le> ht
     \<and> (\<forall>s\<ge>num. s < ht \<longleftrightarrow> c ^ s \<le> n)"
proof (induction "n - num" arbitrary: num rule: less_induct)
  case less
  show ?case
  proof (cases "c ^ num \<le> n")
    case True
    have "num < 2 ^ num" by (rule less_exp)
    also have "(2 :: nat) ^ num \<le> c ^ num" using c by (intro power_mono) auto
    finally have "num < c ^ num" .
    then have num: "num < n" using True by simp
    have "c ^ num * c \<le> n * c" using True by (rule mult_le_mono1)
    then have "c ^ num * c < SIZE_MOD" using fit by (rule le_less_trans)
    then have f: "sz_mul (c ^ num) c = c ^ Suc num" by (simp add: size_t_simps mult.commute)
    have "n \<le> n * c" using c by simp
    then have "num + 1 < SIZE_MOD" using num fit by linarith
    then have g: "sz_add num 1 = Suc num" by (simp add: size_t_simps)
    have nearer: "n - Suc num < n - num" using num by simp
    obtain ht where ht: "height_loop c n (Suc num) (c ^ Suc num) = Some ht" "Suc num \<le> ht"
      "\<forall>s\<ge>Suc num. s < ht \<longleftrightarrow> c ^ s \<le> n"
      using less [OF nearer] by blast
    have "height_loop c n num (c ^ num) = Some ht"
      using True ht(1) by (subst height_loop.simps) (simp add: f g del: power_Suc One_nat_def)
    moreover have "s < ht \<longleftrightarrow> c ^ s \<le> n" if "num \<le> s" for s
      using ht(2,3) True that by (cases "s = num") auto
    ultimately show ?thesis using ht(2) by auto
  next
    case False
    have "\<not> c ^ s \<le> n" if "num \<le> s" for s
    proof -
      have "c ^ num \<le> c ^ s" using that c by (intro power_increasing) auto
      with False show ?thesis by simp
    qed
    then show ?thesis using False by (subst height_loop.simps) simp
  qed
qed

lemma nm_height_ok:
  assumes "2 \<le> c" "n * c < SIZE_MOD"
  obtains ht where "nm_height c n = Inr ht" "\<And>s. s < ht \<longleftrightarrow> c ^ s \<le> n"
  using height_loop_ok [OF assms, of 0] by (auto simp: nm_height_def)

lemma nm_grows_ok:
  assumes c: "2 \<le> c" and fit: "Suc n * c < SIZE_MOD" and k: "0 < k" "n < c ^ k"
  shows "nm_grows c (Suc n) k = Inr (c ^ k = Suc n)"
proof (cases "n = 0")
  case True
  have "1 < c ^ k" using c k by (intro one_less_power) auto
  with True show ?thesis by (simp add: nm_grows_def del: nat_power_eq_Suc_0_iff)
next
  case False
  have "n * c < SIZE_MOD" using fit by simp
  then obtain b where b: "nm_height c n = Inr b" "\<And>s. s < b \<longleftrightarrow> c ^ s \<le> n"
    using nm_height_ok [OF c] by blast
  obtain a where a: "nm_height c (Suc n) = Inr a" "\<And>s. s < a \<longleftrightarrow> c ^ s \<le> Suc n"
    using nm_height_ok [OF c fit] by blast
  have "Suc n * 1 \<le> Suc n * c" using c by (intro mult_le_mono2) simp
  then have s: "sz_sub (Suc n) 1 = n" using fit by (simp add: size_t_simps)
  have "b \<le> k" using b(2) [of k] k(2) by simp
  have "(b < a \<and> k < a) = (c ^ k = Suc n)"
    using a(2) [of k] k(2) \<open>b \<le> k\<close> by auto
  then show ?thesis using False a(1) b(1) s by (simp add: nm_grows_def)
qed

text \<open>With capacity 1 the powers never get beyond \<open>n\<close>, and the loop never ends.\<close>

lemma height_loop_one: "height_loop c n num cap = Some r \<Longrightarrow> c = 1 \<longrightarrow> cap = 1 \<longrightarrow> n < 1"
proof (erule height_loop.raw_induct [rotated])
  fix f :: "nat \<Rightarrow> nat \<Rightarrow> nat \<Rightarrow> nat \<Rightarrow> nat option" and c n num cap r
  assume IH: "\<And>c n num cap r. f c n num cap = Some r \<Longrightarrow> c = 1 \<longrightarrow> cap = 1 \<longrightarrow> n < 1"
    and run: "(if cap \<le> n then f c n (sz_add num 1) (sz_mul cap c) else Some num) = Some r"
  have "sz_mul 1 1 = 1" by (simp add: size_t_simps SIZE_MOD_def)
  then show "c = 1 \<longrightarrow> cap = 1 \<longrightarrow> n < 1"
    using run IH [of c n "sz_add num 1" "sz_mul cap c" r] by (auto split: if_splits)
qed

lemma nm_height_one: "1 \<le> n \<Longrightarrow> nm_height 1 n = Inl Diverges"
  using height_loop_one [of 1 n 0 1] by (cases "height_loop 1 n 0 1") (auto simp: nm_height_def)

section \<open>The hashes of a layer\<close>

text \<open>
  The hash of the first \<open>k\<close> transactions, and the hashes a layer whose elements are \<open>p\<close>
  transactions apart would hold if it had room for all of them.
\<close>

definition cum :: "('a \<Rightarrow> 'a \<Rightarrow> 'a) \<Rightarrow> 'a \<Rightarrow> 'a list \<Rightarrow> nat \<Rightarrow> 'a" where
  "cum h t0 xs k = foldl h t0 (take k xs)"

definition marks :: "('a \<Rightarrow> 'a \<Rightarrow> 'a) \<Rightarrow> 'a \<Rightarrow> 'a list \<Rightarrow> nat \<Rightarrow> 'a list" where
  "marks h t0 xs p = map (\<lambda>i. cum h t0 xs (p * i)) [1..<Suc (length xs div p)]"

definition layer_ok :: "nat \<Rightarrow> nat \<Rightarrow> ('a \<Rightarrow> 'a \<Rightarrow> 'a) \<Rightarrow> 'a \<Rightarrow> 'a list \<Rightarrow> 'a cstack \<Rightarrow> bool" where
  "layer_ok c p h t0 xs l \<longleftrightarrow> cs_ok l \<and> cs_cap l = c \<and> cs_list l = lastn (cs_sz l) (marks h t0 xs p)"

fun layers_ok :: "nat \<Rightarrow> nat \<Rightarrow> ('a \<Rightarrow> 'a \<Rightarrow> 'a) \<Rightarrow> 'a \<Rightarrow> 'a list \<Rightarrow> 'a cstack list \<Rightarrow> bool" where
  "layers_ok c p h t0 xs [] = True"
| "layers_ok c p h t0 xs (l # ls) = (layer_ok c p h t0 xs l \<and> layers_ok c (p * c) h t0 xs ls)"

lemma length_marks [simp]: "length (marks h t0 xs p) = length xs div p"
  by (simp add: marks_def)

lemma mult_div_le_of: "i < Suc (n div p) \<Longrightarrow> p * i \<le> (n :: nat)"
  by (metis le_trans less_Suc_eq_le mult_le_mono2 times_div_less_eq_dividend)

lemma lastn_lastn: "lastn m (lastn n xs) = lastn (min m n) xs"
proof (cases "length xs \<le> n")
  case True
  then show ?thesis by (auto simp: lastn_def min_def)
next
  case False
  then have "length xs - (length xs - n + m) + (length xs - n) = length xs - m" if "m \<le> n"
    using that by simp
  with False show ?thesis by (auto simp: lastn_def min_def)
qed

lemma marks_Nil [simp]: "marks h t0 [] p = []"
  by (simp add: marks_def)

lemma cum_snoc: "k \<le> length xs \<Longrightarrow> cum h t0 (xs @ [x]) k = cum h t0 xs k"
  by (simp add: cum_def)

lemma cum_take: "k \<le> n \<Longrightarrow> cum h t0 (take n xs) k = cum h t0 xs k"
  by (simp add: cum_def min_def)

lemma marks_snoc:
  assumes "p dvd Suc (length xs)"
  shows "marks h t0 (xs @ [x]) p = marks h t0 xs p @ [foldl h t0 (xs @ [x])]"
proof -
  from assms have q: "Suc (length xs) div p = Suc (length xs div p)"
    by (simp add: div_Suc)
  have "p * Suc (length xs div p) = Suc (length xs)"
    using assms by (simp only: q [symmetric] dvd_mult_div_cancel)
  then have "cum h t0 (xs @ [x]) (p * Suc (length xs div p)) = foldl h t0 (xs @ [x])"
    by (simp add: cum_def)
  moreover have "map (\<lambda>i. cum h t0 (xs @ [x]) (p * i)) [1..<Suc (length xs div p)]
      = marks h t0 xs p"
    unfolding marks_def by (intro map_cong refl cum_snoc) (auto intro: mult_div_le_of)
  ultimately show ?thesis by (simp add: marks_def q)
qed

lemma marks_same:
  assumes "\<not> p dvd Suc (length xs)"
  shows "marks h t0 (xs @ [x]) p = marks h t0 xs p"
proof -
  from assms have q: "Suc (length xs) div p = length xs div p"
    by (simp add: div_Suc dvd_eq_mod_eq_0)
  show ?thesis
    unfolding marks_def by (intro map_cong cum_snoc) (auto simp: q intro: mult_div_le_of)
qed

lemma marks_take:
  assumes "n \<le> length xs"
  shows "marks h t0 (take n xs) p = take (n div p) (marks h t0 xs p)"
proof -
  have "n div p \<le> length xs div p" using assms by (rule div_le_mono)
  then have "take (n div p) [1..<Suc (length xs div p)] = [1..<Suc (n div p)]"
    by (simp add: take_upt del: upt_Suc)
  then show ?thesis
    unfolding marks_def take_map using assms
    by (intro map_cong cum_take) (auto intro: mult_div_le_of)
qed

lemma layers_ok_same:
  "\<not> p dvd Suc (length xs) \<Longrightarrow> layers_ok c p h t0 xs ls \<Longrightarrow> layers_ok c p h t0 (xs @ [x]) ls"
  by (induction ls arbitrary: p) (auto simp: layer_ok_def marks_same dest: dvd_mult_left)

lemma layers_ok_snoc:
  "layers_ok c p h t0 xs ls \<Longrightarrow> cs_ok l \<Longrightarrow> cs_cap l = c \<Longrightarrow> cs_list l = [] \<Longrightarrow>
     layers_ok c p h t0 xs (ls @ [l])"
  by (induction ls arbitrary: p) (auto simp: layer_ok_def lastn_def)

text \<open>A push of the next hash is the one step a layer makes when its turn has come.\<close>

lemma layer_push:
  assumes l: "layer_ok c p h t0 xs l" and p: "p dvd Suc (length xs)"
    and t: "t = foldl h t0 (xs @ [x])"
  shows "\<exists>l'. cs_push t l = Inr l' \<and> layer_ok c p h t0 (xs @ [x]) l'
    \<and> cs_size l' = min c (Suc (cs_size l)) \<and> cs_size l' \<noteq> 0 \<and> cs_back l' = Inr t"
proof -
  from l have ok: "cs_ok l" and c: "cs_cap l = c"
    and e: "cs_list l = lastn (cs_sz l) (marks h t0 xs p)" by (auto simp: layer_ok_def)
  obtain l' where l': "cs_push t l = Inr l'" "cs_ok l'" "cs_cap l' = cs_cap l"
    "cs_list l' = lastn (cs_cap l) (cs_list l @ [t])"
    using cs_push_ok [OF ok] by blast
  have c0: "0 < c" using ok c by (simp add: cs_ok_def)
  have sz: "cs_sz l' = min c (Suc (cs_sz l))" using l'(4) c by (metis length_append_singleton length_cs_list length_lastn)
  have ne: "lastn c (cs_list l @ [t]) \<noteq> []" using c0 by (simp add: lastn_def)
  have "cs_list l' = lastn c (lastn (Suc (cs_sz l)) (marks h t0 (xs @ [x]) p))"
    using l'(4) e c t marks_snoc [OF p, of h t0 x] by simp
  then have "cs_list l' = lastn (cs_sz l') (marks h t0 (xs @ [x]) p)"
    by (simp add: lastn_lastn sz)
  moreover have "cs_back l' = Inr t"
    using cs_back_ok [OF l'(2)] l'(4) c c0 last_lastn [of c "cs_list l @ [t]"] ne
    by simp
  ultimately show ?thesis using l' c c0 sz by (auto simp: layer_ok_def cs_size_def)
qed

lemma add_loop_ok:
  assumes c: "2 \<le> c" and t: "t = foldl h t0 (xs @ [x])"
  shows "layer_ok c p h t0 (xs @ [x]) l \<Longrightarrow> cs_back l = Inr t \<Longrightarrow>
    layers_ok c (p * c) h t0 xs ls \<Longrightarrow> p dvd Suc (length xs) \<Longrightarrow> idx = length xs div p \<Longrightarrow>
    \<exists>ls'. add_loop c idx (l # ls) = Inr (l # ls') \<and> layers_ok c (p * c) h t0 (xs @ [x]) ls'
      \<and> length ls' = length ls"
proof (induction ls arbitrary: l p idx)
  case Nil
  then show ?case by simp
next
  case (Cons u ls)
  have turn: "idx mod c = c - 1 \<longleftrightarrow> p * c dvd Suc (length xs)"
  proof -
    obtain q where q: "Suc (length xs) = p * q" using Cons.prems(4) by blast
    then have "p \<noteq> 0" by (cases p) auto
    have "Suc idx = q" using q \<open>p \<noteq> 0\<close> Cons.prems(4,5) div_Suc [of "length xs" p]
      by (simp add: dvd_imp_mod_0)
    then have "p * c dvd Suc (length xs) \<longleftrightarrow> c dvd Suc idx" using q \<open>p \<noteq> 0\<close> by simp
    also have "\<dots> \<longleftrightarrow> idx mod c = c - 1"
      using c mod_less_divisor [of c idx] by (auto simp: dvd_eq_mod_eq_0 mod_Suc split: if_splits)
    finally show ?thesis ..
  qed
  show ?case
  proof (cases "idx mod c = c - 1")
    case True
    then have d: "p * c dvd Suc (length xs)" using turn by simp
    obtain u' where u': "cs_push t u = Inr u'" "layer_ok c (p * c) h t0 (xs @ [x]) u'"
      "cs_back u' = Inr t"
      using layer_push [OF _ d t, of c] Cons.prems(3) by auto
    obtain ls' where ls': "add_loop c (idx div c) (u' # ls) = Inr (u' # ls')"
      "layers_ok c (p * c * c) h t0 (xs @ [x]) ls'" "length ls' = length ls"
      using Cons.IH [OF u'(2,3) _ d] Cons.prems(3,5) by (auto simp: div_mult2_eq)
    show ?thesis using True c Cons.prems(2) u' ls' by simp
  next
    case False
    then have "\<not> p * c dvd Suc (length xs)" using turn by simp
    then have "layers_ok c (p * c) h t0 (xs @ [x]) (u # ls)"
      using Cons.prems(3) by (rule layers_ok_same)
    with False c show ?thesis by simp
  qed
qed

section \<open>The tree of a history\<close>

text \<open>
  \<open>nm_rel h t0 m xs\<close>: \<open>m\<close> is a tree of the hashes \<open>xs\<close>: every layer holds the newest hashes of
  its distance, there are layers enough, the arithmetic of the next step is exact, and the root
  is the hash of all of \<open>xs\<close>.
\<close>

definition nm_rel :: "('a \<Rightarrow> 'a \<Rightarrow> 'a) \<Rightarrow> 'a \<Rightarrow> 'a narrow \<Rightarrow> 'a list \<Rightarrow> bool" where
  "nm_rel h t0 m xs \<longleftrightarrow> 2 \<le> nm_capacity m \<and> 2 * nm_capacity m < SIZE_MOD
     \<and> nm_txs m = length xs \<and> nm_prev m \<le> length xs
     \<and> nm_data m \<noteq> [] \<and> layers_ok (nm_capacity m) 1 h t0 xs (nm_data m)
     \<and> length xs < nm_capacity m ^ length (nm_data m)
     \<and> nm_capacity m ^ length (nm_data m) < SIZE_MOD
     \<and> length xs * nm_capacity m < SIZE_MOD
     \<and> nm_get_root t0 m = Inr (foldl h t0 xs)"

lemma nm_relD:
  assumes "nm_rel h t0 m xs"
  shows "2 \<le> nm_capacity m" "2 * nm_capacity m < SIZE_MOD" "nm_size m = length xs"
    "nm_get_root t0 m = Inr (foldl h t0 xs)"
  using assms by (auto simp: nm_rel_def nm_size_def)

lemma nm_new_ok:
  assumes "2 \<le> c" "2 * c < SIZE_MOD"
  shows "\<exists>m. nm_new c = Inr m \<and> nm_rel h t0 m [] \<and> nm_capacity m = c
    \<and> nm_prev m = 0 \<and> cs_size (hd (nm_data m)) = 0"
proof -
  obtain l :: "'a cstack" where l: "cs_new c = Inr l" "cs_ok l" "cs_cap l = c" "cs_list l = []"
    using cs_new_ok [of c] assms by auto
  then have "cs_size l = 0" and "cs_list l = lastn (cs_sz l) (marks h t0 [] 1)"
    by (simp_all add: cs_size_def lastn_def)
  with l assms show ?thesis
    by (auto simp: nm_new_def nm_grow_def nm_rel_def layer_ok_def lastn_def nm_get_root_def)
qed

lemma nm_add_ok:
  assumes rel: "nm_rel h t0 m xs" and fit: "Suc (length xs) * nm_capacity m < SIZE_MOD"
  shows "\<exists>m'. nm_add h t0 x m = Inr m' \<and> nm_rel h t0 m' (xs @ [x])
    \<and> nm_capacity m' = nm_capacity m \<and> nm_prev m' = nm_prev m
    \<and> cs_size (hd (nm_data m')) = min (nm_capacity m) (Suc (cs_size (hd (nm_data m))))"
proof -
  define c where "c = nm_capacity m"
  obtain l ls where d: "nm_data m = l # ls" using rel by (cases "nm_data m") (auto simp: nm_rel_def)
  have c: "2 \<le> c" "2 * c < SIZE_MOD" and lo: "layer_ok c 1 h t0 xs l" "layers_ok c (1 * c) h t0 xs ls"
    and k: "length xs < c ^ Suc (length ls)" "c ^ Suc (length ls) < SIZE_MOD"
    and root: "nm_get_root t0 m = Inr (foldl h t0 xs)"
    and n: "nm_txs m = length xs" "nm_prev m \<le> length xs"
    using rel by (auto simp: nm_rel_def c_def d)
  have fit: "Suc (length xs) * c < SIZE_MOD" using fit by (simp add: c_def)
  have "Suc (length xs) * 1 \<le> Suc (length xs) * c" using c by (intro mult_le_mono2) simp
  then have sz: "sz_add (length xs) 1 = Suc (length xs)" "sz_sub (Suc (length xs)) 1 = length xs"
    using fit by (simp_all add: size_t_simps)
  define t where "t = h (foldl h t0 xs) x"
  have t: "t = foldl h t0 (xs @ [x])" by (simp add: t_def)
  obtain l' where l': "cs_push t l = Inr l'" "layer_ok c 1 h t0 (xs @ [x]) l'" "cs_size l' \<noteq> 0"
    "cs_back l' = Inr t" "cs_size l' = min c (Suc (cs_size l))"
    using layer_push [OF lo(1) _ t] by auto
  define g where "g \<longleftrightarrow> c ^ Suc (length ls) = Suc (length xs)"
  have g: "nm_grows c (Suc (length xs)) (Suc (length ls)) = Inr g"
    unfolding g_def using nm_grows_ok [OF c(1) fit _ k(1)] by simp
  obtain new :: "'a cstack" where new: "cs_new c = Inr new" "cs_ok new" "cs_cap new = c" "cs_list new = []"
    using cs_new_ok [of c] c by auto
  define ls2 where "ls2 = (if g then ls @ [new] else ls)"
  have "layers_ok c (1 * c) h t0 xs ls2"
    using lo(2) layers_ok_snoc [OF lo(2) new(2-4)] by (simp add: ls2_def)
  then obtain ls3 where ls3: "add_loop c (length xs) (l' # ls2) = Inr (l' # ls3)"
    "layers_ok c (1 * c) h t0 (xs @ [x]) ls3" "length ls3 = length ls2"
    using add_loop_ok [OF c(1) t l'(2,4), of ls2 "length xs"] by auto
  have len: "Suc (length xs) < c ^ Suc (length ls3) \<and> c ^ Suc (length ls3) < SIZE_MOD"
  proof (cases g)
    case True
    have eq: "c ^ Suc (length ls3) = Suc (length xs) * c"
      using True by (simp add: ls3(3) ls2_def g_def mult.commute)
    have "Suc (length xs) * 1 < Suc (length xs) * c" using c by (intro mult_less_mono2) auto
    then show ?thesis unfolding eq using fit by simp
  next
    case False
    then show ?thesis
      using k by (simp_all add: ls3(3) ls2_def g_def)
  qed
  let ?m = "m\<lparr>nm_txs := Suc (length xs), nm_data := l' # ls3\<rparr>"
  have "nm_add h t0 x m = Inr ?m"
    using root l'(1) g new(1) ls3(1)
    by (cases g) (simp_all add: nm_add_def nm_grow_def d n sz t_def [symmetric] c_def [symmetric] ls2_def
        del: One_nat_def)
  moreover have "nm_rel h t0 ?m (xs @ [x])"
    using c l' ls3 len fit n by (simp add: nm_rel_def c_def [symmetric] nm_get_root_def t)
  ultimately show ?thesis using l'(5) by (auto simp: d c_def)
qed

section \<open>Dropping\<close>

declare drop_loop.simps(2) [simp del]

text \<open>
  The hashes a layer of distance \<open>p\<close> may keep when \<open>n\<close> transactions are dropped to \<open>ind\<close>: as many
  as fit into \<open>ind\<close>, or none if the layer never held so many.
\<close>

definition marks_left :: "nat \<Rightarrow> nat \<Rightarrow> nat \<Rightarrow> nat" where
  "marks_left p ind n = (if ind div p \<le> n div p then ind div p else 0)"

lemma marks_left_le: "marks_left p ind n \<le> n div p"
  by (simp add: marks_left_def)

text \<open>
  The number of hashes \<^verbatim>\<open>drop\<close> removes from a layer.  The subtraction \<open>id_tx - ind\<close> wraps where
  the layer has nothing to lose, and the division brings it back to 0; it wraps too where \<open>ind\<close> is
  beyond the layer, and then the result is more than the layer holds.
\<close>

lemma pop_amount:
  assumes p: "0 < p" and le: "ind div p \<le> n div p" and ind: "ind < SIZE_MOD" and fit: "n + p < SIZE_MOD"
  shows "sz_sub (sz_add (sz_sub (n div p * p) ind) p) 1 div p = n div p - ind div p"
proof -
  define q a r where "q = n div p" and "a = ind div p" and "r = ind mod p"
  have i: "ind = a * p + r" and r: "r < p" using p by (simp_all add: a_def r_def)
  have aq: "a \<le> q" using le by (simp add: a_def q_def)
  have qn: "q * p \<le> n" by (simp add: q_def)
  have d: "(q - a) * p = q * p - a * p" by (simp add: diff_mult_distrib)
  have aqp: "a * p \<le> q * p" using aq by (rule mult_le_mono1)
  have "sz_sub (sz_add (sz_sub (q * p) ind) p) 1 = (q - a) * p + (p - 1 - r)"
  proof (cases "ind \<le> q * p")
    case True
    then show ?thesis using i r d fit qn p by (simp add: size_t_simps)
  next
    case False
    have "q * p div p \<le> ind div p" using False by (intro div_le_mono) simp
    then have "q = a" using p aq by (simp add: a_def)
    then have "0 < r" using False i by simp
    have s: "sz_sub (q * p) ind = SIZE_MOD - r"
      using False i fit ind \<open>q = a\<close> by (subst sz_sub_wrap) auto
    have e: "SIZE_MOD - r + p = (p - r) + SIZE_MOD" using r fit by simp
    have "sz_add (SIZE_MOD - r) p = p - r"
      unfolding sz_add_def e using fit by simp
    then have "sz_sub (sz_add (sz_sub (q * p) ind) p) 1 = p - 1 - r"
      unfolding s using r fit by (simp add: size_t_simps)
    then show ?thesis by (simp add: \<open>q = a\<close>)
  qed
  moreover have "((q - a) * p + (p - 1 - r)) div p = q - a" using p by simp
  ultimately show ?thesis by (simp add: q_def a_def)
qed

lemma pop_amount_all:
  assumes p: "0 < p" and less: "n div p < ind div p" and ind: "ind < SIZE_MOD" and fit: "n + p < SIZE_MOD"
  shows "n div p \<le> sz_sub (sz_add (sz_sub (n div p * p) ind) p) 1 div p"
proof -
  define q where "q = n div p"
  have qn: "q * p \<le> n" by (simp add: q_def)
  have "Suc q * p \<le> ind div p * p" using less unfolding q_def by (intro mult_le_mono1) simp
  also have "\<dots> \<le> ind" by simp
  finally have i: "q * p + p \<le> ind" by simp
  have s: "sz_sub (q * p) ind = SIZE_MOD - (ind - q * p)"
    using i ind qn fit p by (subst sz_sub_wrap) auto
  have "q * p \<le> sz_sub (sz_add (SIZE_MOD - (ind - q * p)) p) 1"
  proof (cases "ind = q * p + p")
    case True
    then have "SIZE_MOD - (ind - q * p) + p = SIZE_MOD" using fit by simp
    then have "sz_add (SIZE_MOD - (ind - q * p)) p = 0" by (simp add: sz_add_def)
    then show ?thesis using qn fit by (simp add: sz_sub_wrap)
  next
    case False
    then show ?thesis using i ind fit p by (simp add: size_t_simps)
  qed
  then have "q * p div p \<le> sz_sub (sz_add (sz_sub (q * p) ind) p) 1 div p" unfolding s by (rule div_le_mono)
  then show ?thesis using p by (simp add: q_def)
qed

lemma pop_min:
  assumes "0 < p" and "ind < SIZE_MOD" and "n + p < SIZE_MOD" and "z \<le> n div p"
  shows "min z (sz_sub (sz_add (sz_sub (n div p * p) ind) p) 1 div p)
    = min z (n div p - marks_left p ind n)"
proof (cases "ind div p \<le> n div p")
  case True
  then show ?thesis using pop_amount [OF assms(1) True assms(2,3)] by (simp add: marks_left_def)
next
  case False
  then show ?thesis using pop_amount_all [OF assms(1) _ assms(2,3)] assms(4) by (simp add: marks_left_def)
qed

text \<open>What is left of \<open>id_tx\<close> for the next layer.\<close>

lemma next_id:
  assumes p: "0 < p" and c: "0 < c" and fit: "n < SIZE_MOD" "p * c < SIZE_MOD"
  shows "sz_sub (n div p * p) (sz_mul (n div p * p mod sz_mul p c div p) p) = n div (p * c) * (p * c)"
proof -
  define q where "q = n div p"
  have "q * p \<le> n" by (simp add: q_def)
  have m: "q * p mod (p * c) = q mod c * p" by (simp add: mod_mult_mult2 mult.commute [of p])
  have "q mod c * p \<le> q * p" by simp
 have "sz_sub (q * p) (sz_mul (q * p mod sz_mul p c div p) p) = q * p - q mod c * p"
    using p fit \<open>q * p \<le> n\<close> le_less_trans [OF \<open>q mod c * p \<le> q * p\<close>]
    by (simp add: size_t_simps m)
  also have "\<dots> = (q - q mod c) * p" by (simp add: diff_mult_distrib)
  also have "q - q mod c = q div c * c" by (simp add: minus_mod_eq_div_mult)
  finally show ?thesis by (simp add: q_def div_mult2_eq mult.assoc mult.commute [of c])
qed

lemma layer_pop:
  assumes l: "layer_ok c p h t0 xs l" and n: "n \<le> length xs" "n div p = a" and a: "a \<le> length xs div p"
  defines "rm \<equiv> min (cs_size l) (length xs div p - a)"
  shows "\<exists>l'. cs_pop rm l = Inr l' \<and> layer_ok c p h t0 (take n xs) l' \<and> cs_size l' = cs_size l - rm
    \<and> cs_list l' = take (cs_size l - rm) (cs_list l)
    \<and> (cs_size l' \<noteq> 0 \<longrightarrow> cs_back l' = Inr (cum h t0 xs (p * a)))"
proof -
  let ?M = "marks h t0 xs p"
  from l have ok: "cs_ok l" and c: "cs_cap l = c" and e: "cs_list l = lastn (cs_sz l) ?M"
    by (auto simp: layer_ok_def)
  have le: "cs_sz l \<le> length ?M" using e length_cs_list [of l] by (metis length_lastn min.cobounded2)
  obtain l' where l': "cs_pop rm l = Inr l'" "cs_ok l'" "cs_cap l' = cs_cap l"
    "cs_list l' = take (cs_sz l - rm) (cs_list l)"
    using cs_pop_ok [OF ok] by blast
  have sz: "cs_sz l' = cs_sz l - rm" using arg_cong [OF l'(4), of length] by simp
  have list: "cs_list l' = lastn (cs_sz l') (take a ?M)"
  proof (cases "rm = cs_sz l")
    case True
    then show ?thesis using l'(4) by (simp add: sz lastn_def)
  next
    case False
    then have rm: "rm = length xs div p - a" "rm < cs_sz l" by (auto simp: rm_def cs_size_def)
    then have "length ?M - cs_sz l + (cs_sz l - rm) = a" using le a by simp
    then show ?thesis using l'(4) e lastn_take [OF le, of "cs_sz l - rm"] by (simp add: sz)
  qed
  have "cs_back l' = Inr (cum h t0 xs (p * a))" if ne: "cs_sz l' \<noteq> 0"
  proof -
    have "rm < cs_sz l" using ne sz by simp
    then have "rm = length xs div p - a" by (auto simp: rm_def cs_size_def)
    then have "0 < a" using \<open>rm < cs_sz l\<close> le by simp
    then have M: "take a ?M \<noteq> []" "last (take a ?M) = cum h t0 xs (p * a)"
      using a by (auto simp: last_conv_nth marks_def min_def simp del: upt_Suc)
    have "cs_list l' \<noteq> []" using ne by simp
    then have "cs_back l' = Inr (last (cs_list l'))" using cs_back_ok [OF l'(2)] by simp
    with list M ne show ?thesis by (simp add: last_lastn)
  qed
  moreover have "layer_ok c p h t0 (take n xs) l'"
    using l' c list n by (simp add: layer_ok_def marks_take)
  ultimately show ?thesis using l'(1,4) sz by (auto simp: cs_size_def)
qed

lemma layer_size_le: "layer_ok c p h t0 xs l \<Longrightarrow> cs_size l \<le> length xs div p"
  unfolding layer_ok_def cs_size_def by (metis length_cs_list length_lastn length_marks min.cobounded2)

lemma shorter_product:
  assumes "2 \<le> c" and "a * c ^ k < (m :: nat)"
  shows "a < m"
proof -
  have "1 \<le> c ^ k" using assms(1) by (intro one_le_power) simp
  then have "a * 1 \<le> a * c ^ k" by (rule mult_le_mono2)
  with assms(2) show ?thesis by (simp only: mult_1_right le_less_trans)
qed

text \<open>One round of the loop, in exact arithmetic.\<close>

lemma drop_loop_round:
  assumes lo: "layer_ok c p h t0 xs l" and p: "0 < p" and c: "2 \<le> c"
    and fit: "p * c < SIZE_MOD" "length xs * c < SIZE_MOD" and ind: "ind < SIZE_MOD"
    and a: "a = marks_left p ind (length xs)" and n: "n \<le> length xs" "n div p = a"
  shows "\<exists>l'. layer_ok c p h t0 (take n xs) l'
      \<and> cs_list l' = take (cs_size l - (length xs div p - a)) (cs_list l)
      \<and> (cs_size l' \<noteq> 0 \<longleftrightarrow> length xs div p - a < cs_size l)
      \<and> (cs_size l' \<noteq> 0 \<longrightarrow> cs_back l' = Inr (cum h t0 xs (a * p)))
      \<and> drop_loop ind c (length xs div p * p) p d upd (l # ls) =
          bindR (drop_loop ind c (length xs div (p * c) * (p * c)) (p * c)
              (if \<not> upd \<and> cs_size l' \<noteq> 0 then a * p else d)
              (upd \<or> cs_size l' \<noteq> 0) ls)
            (\<lambda>(n', layers). Inr (n', l' # layers))"
proof -
  define q where "q = length xs div p"
  have aq: "a \<le> q" by (simp add: q_def a marks_left_le)
  define rm where "rm = min (cs_size l) (q - a)"
  obtain l' where l': "cs_pop rm l = Inr l'" "layer_ok c p h t0 (take n xs) l'"
    "cs_size l' = cs_size l - rm" "cs_size l' \<noteq> 0 \<longrightarrow> cs_back l' = Inr (cum h t0 xs (p * a))"
    "cs_list l' = take (cs_size l - rm) (cs_list l)"
    using layer_pop [OF lo n(1), of a] n(2) aq by (auto simp: rm_def q_def)
  have two: "2 * p \<le> p * c" "2 * length xs \<le> length xs * c" using c by simp_all
  then have s: "length xs + p < SIZE_MOD" "length xs < SIZE_MOD" using fit by linarith+
  have amount: "min (cs_size l) (sz_sub (sz_add (sz_sub (q * p) ind) p) 1 div p) = rm"
    unfolding q_def rm_def a by (rule pop_min [OF p ind s(1) layer_size_le [OF lo]])
  have nxt: "sz_sub (q * p) (sz_mul (q * p mod sz_mul p c div p) p) = length xs div (p * c) * (p * c)"
    unfolding q_def using p c s fit by (intro next_id) auto
  have pc: "sz_mul p c = p * c" using fit by (simp add: size_t_simps)
  have kept: "sz_sub (q * p) (sz_mul rm p) = a * p" if "cs_size l' \<noteq> 0"
  proof -
    have rm: "rm = q - a" using that l'(3) by (auto simp: rm_def)
    have "q * p \<le> length xs" by (simp add: q_def)
    moreover have "rm * p \<le> q * p" by (simp add: rm)
    moreover have "rm * p = q * p - a * p" by (simp add: rm diff_mult_distrib)
    moreover have "a * p \<le> q * p" using aq by simp
    ultimately show ?thesis using s by (simp add: size_t_simps)
  qed
  have run: "drop_loop ind c (q * p) p d upd (l # ls) =
          bindR (drop_loop ind c (length xs div (p * c) * (p * c)) (p * c)
              (if \<not> upd \<and> cs_size l' \<noteq> 0 then a * p else d) (upd \<or> cs_size l' \<noteq> 0) ls)
            (\<lambda>(n', layers). Inr (n', l' # layers))"
    using p c l'(1) kept
    by (cases upd; cases "cs_size l' = 0")
      (simp_all add: drop_loop.simps(2) Let_def amount nxt pc [symmetric] del: One_nat_def, simp_all add: pc)
  have left: "cs_size l' \<noteq> 0 \<longleftrightarrow> q - a < cs_size l" by (auto simp: l'(3) rm_def)
  have newest: "cs_size l' \<noteq> 0 \<longrightarrow> cs_back l' = Inr (cum h t0 xs (a * p))"
    using l'(4) by (simp add: mult.commute)
  have "cs_list l' = take (cs_size l - (q - a)) (cs_list l)"
    unfolding l'(5) rm_def by (simp add: min_def)
  then show ?thesis using l'(2) left newest run unfolding q_def by blast
qed

text \<open>
  What the loop does to layers of distance \<open>p\<close> and up, and the number it ends with: the one of the
  lowest layer that keeps a hash.
\<close>

fun drops :: "nat \<Rightarrow> nat \<Rightarrow> nat \<Rightarrow> nat \<Rightarrow> 'a cstack list \<Rightarrow> 'a list list" where
  "drops c p ind n [] = []"
| "drops c p ind n (l # ls) =
     take (cs_size l - (n div p - marks_left p ind n)) (cs_list l) # drops c (p * c) ind n ls"

fun drop_target :: "nat \<Rightarrow> nat \<Rightarrow> nat \<Rightarrow> nat \<Rightarrow> 'a cstack list \<Rightarrow> nat option" where
  "drop_target c p ind n [] = None"
| "drop_target c p ind n (l # ls) =
     (if n div p - marks_left p ind n < cs_size l then Some (ind div p * p)
      else drop_target c (p * c) ind n ls)"

lemma length_drops [simp]: "length (drops c p ind n ls) = length ls"
  by (induction ls arbitrary: p) simp_all

lemma drops_nth:
  "i < length ls \<Longrightarrow> drops c p ind n ls ! i =
     take (cs_size (ls ! i) - (n div (p * c ^ i) - marks_left (p * c ^ i) ind n)) (cs_list (ls ! i))"
  by (induction ls arbitrary: i p) (auto simp: nth_Cons mult.assoc split: nat.split)

lemma drop_target_None:
  "drop_target c p ind n ls = None \<longleftrightarrow>
     (\<forall>i<length ls. \<not> n div (p * c ^ i) - marks_left (p * c ^ i) ind n < cs_size (ls ! i))"
  by (induction ls arbitrary: p) (simp_all add: All_less_Suc2 mult.assoc)

lemma drop_target_Some:
  "drop_target c p ind n ls = Some k \<Longrightarrow>
     \<exists>i<length ls. n div (p * c ^ i) - marks_left (p * c ^ i) ind n < cs_size (ls ! i)
       \<and> (\<forall>j<i. \<not> n div (p * c ^ j) - marks_left (p * c ^ j) ind n < cs_size (ls ! j))
       \<and> k = ind div (p * c ^ i) * (p * c ^ i)"
proof (induction ls arbitrary: p)
  case (Cons l ls)
  show ?case
  proof (cases "n div p - marks_left p ind n < cs_size l")
    case True
    then show ?thesis using Cons.prems by (intro exI [of _ 0]) simp
  next
    case False
    then have "drop_target c (p * c) ind n ls = Some k" using Cons.prems by simp
    from Cons.IH [OF this] obtain i where "i < length ls"
      "n div (p * c * c ^ i) - marks_left (p * c * c ^ i) ind n < cs_size (ls ! i)"
      "\<forall>j<i. \<not> n div (p * c * c ^ j) - marks_left (p * c * c ^ j) ind n < cs_size (ls ! j)"
      "k = ind div (p * c * c ^ i) * (p * c * c ^ i)" by blast
    then show ?thesis using False by (intro exI [of _ "Suc i"]) (simp add: All_less_Suc2 mult.assoc)
  qed
qed simp

text \<open>The layers above the one that decides, and the layers up to it.\<close>

lemma drop_loop_above:
  assumes c: "2 \<le> c" and fit: "length xs * c < SIZE_MOD" and ind: "ind < SIZE_MOD"
    and n: "n \<le> length xs"
  shows "layers_ok c p h t0 xs ls \<Longrightarrow> 0 < p \<Longrightarrow> p * c ^ length ls < SIZE_MOD \<Longrightarrow>
    n div p = ind div p \<Longrightarrow>
    \<exists>ls'. drop_loop ind c (length xs div p * p) p d True ls = Inr (d, ls')
      \<and> map cs_list ls' = drops c p ind (length xs) ls \<and> layers_ok c p h t0 (take n xs) ls'"
proof (induction ls arbitrary: p)
  case Nil
  then show ?case by simp
next
  case (Cons l ls)
  have pc: "0 < p * c" "p * c * c ^ length ls < SIZE_MOD" using Cons.prems c by (simp_all add: mult.assoc)
  have small: "p * c < SIZE_MOD" using pc(2) by (rule shorter_product [OF c])
  have "n div p \<le> length xs div p" using n by (rule div_le_mono)
  then have "n div p = marks_left p ind (length xs)" using Cons.prems(4) by (simp add: marks_left_def)
  then obtain l' where l': "layer_ok c p h t0 (take n xs) l'"
    "cs_list l' = take (cs_size l - (length xs div p - marks_left p ind (length xs))) (cs_list l)"
    "drop_loop ind c (length xs div p * p) p d True (l # ls) =
       bindR (drop_loop ind c (length xs div (p * c) * (p * c)) (p * c) d True ls)
         (\<lambda>(n', layers). Inr (n', l' # layers))"
    using drop_loop_round [OF _ Cons.prems(2) c small fit ind refl n, of h t0 l d True ls]
      Cons.prems(1) by auto
  have "n div (p * c) = ind div (p * c)" using Cons.prems(4) by (simp add: div_mult2_eq)
  then obtain ls' where "drop_loop ind c (length xs div (p * c) * (p * c)) (p * c) d True ls = Inr (d, ls')"
      "map cs_list ls' = drops c (p * c) ind (length xs) ls" "layers_ok c (p * c) h t0 (take n xs) ls'"
    using Cons.IH [OF _ pc] Cons.prems(1) by auto
  with l' show ?case by simp
qed

lemma drop_loop_here:
  assumes c: "2 \<le> c" and fit: "length xs * c < SIZE_MOD" and ind: "ind < SIZE_MOD"
    and lo: "layers_ok c p h t0 xs (l # ls)" and p: "0 < p" "p * c ^ length (l # ls) < SIZE_MOD"
    and here: "length xs div p - marks_left p ind (length xs) < cs_size l"
  defines "n \<equiv> ind div p * p"
  shows "n \<le> length xs \<and> (\<exists>ls'. drop_loop ind c (length xs div p * p) p d False (l # ls) = Inr (n, ls')
      \<and> map cs_list ls' = drops c p ind (length xs) (l # ls) \<and> layers_ok c p h t0 (take n xs) ls'
      \<and> first_back t0 ls' = Inr (foldl h t0 (take n xs)))"
proof -
  have pc: "0 < p * c" "p * c * c ^ length ls < SIZE_MOD" using p c by (simp_all add: mult.assoc)
  have small: "p * c < SIZE_MOD" using pc(2) by (rule shorter_product [OF c])
  have "cs_size l \<le> length xs div p" using lo by (auto intro: layer_size_le)
  then have "marks_left p ind (length xs) \<noteq> 0" using here by simp
  then have a: "marks_left p ind (length xs) = ind div p" "ind div p \<le> length xs div p"
    by (auto simp: marks_left_def split: if_splits)
  have "n \<le> length xs div p * p" unfolding n_def using a(2) by (rule mult_le_mono1)
  then have n: "n \<le> length xs" by (rule le_trans) simp
  have np: "n div p = ind div p" using p(1) by (simp add: n_def)
  obtain l' where l': "layer_ok c p h t0 (take n xs) l'" "cs_size l' \<noteq> 0"
    "cs_list l' = take (cs_size l - (length xs div p - marks_left p ind (length xs))) (cs_list l)"
    "cs_back l' = Inr (cum h t0 xs n)"
    "drop_loop ind c (length xs div p * p) p d False (l # ls) =
       bindR (drop_loop ind c (length xs div (p * c) * (p * c)) (p * c) n True ls)
         (\<lambda>(n', layers). Inr (n', l' # layers))"
    using drop_loop_round [OF _ p(1) c small fit ind refl n, of h t0 l d False ls] lo here np
    by (auto simp: n_def a(1))
  have "n div (p * c) = ind div (p * c)" using np by (simp add: div_mult2_eq)
  then obtain ls' where "drop_loop ind c (length xs div (p * c) * (p * c)) (p * c) n True ls = Inr (n, ls')"
      "map cs_list ls' = drops c (p * c) ind (length xs) ls" "layers_ok c (p * c) h t0 (take n xs) ls'"
    using drop_loop_above [OF c fit ind n _ pc, where d = n] lo by auto
  with l' n show ?thesis by (simp add: cum_def)
qed

lemma drop_loop_ok:
  assumes c: "2 \<le> c" and fit: "length xs * c < SIZE_MOD" and ind: "ind < SIZE_MOD"
  shows "layers_ok c p h t0 xs ls \<Longrightarrow> 0 < p \<Longrightarrow> p * c ^ length ls < SIZE_MOD \<Longrightarrow>
    \<exists>n ls'. drop_loop ind c (length xs div p * p) p d False ls = Inr (n, ls')
      \<and> map cs_list ls' = drops c p ind (length xs) ls
      \<and> (case drop_target c p ind (length xs) ls of
           None \<Rightarrow> n = d \<and> first_back t0 ls' = Inr t0
         | Some k \<Rightarrow> n = k \<and> k \<le> length xs \<and> layers_ok c p h t0 (take k xs) ls'
             \<and> first_back t0 ls' = Inr (foldl h t0 (take k xs)))"
proof (induction ls arbitrary: p)
  case Nil
  then show ?case by simp
next
  case (Cons l ls)
  show ?case
  proof (cases "length xs div p - marks_left p ind (length xs) < cs_size l")
    case True
    from drop_loop_here [OF c fit ind Cons.prems True, of d] show ?thesis using True by auto
  next
    case False
    have pc: "0 < p * c" "p * c * c ^ length ls < SIZE_MOD" using Cons.prems c by (simp_all add: mult.assoc)
    have small: "p * c < SIZE_MOD" using pc(2) by (rule shorter_product [OF c])
    let ?a = "marks_left p ind (length xs)"
    have "?a * p \<le> length xs div p * p" by (intro mult_le_mono1 marks_left_le)
    also have "\<dots> \<le> length xs" by simp
    finally have a: "?a * p \<le> length xs" "?a * p div p = ?a" using Cons.prems(2) by simp_all
    obtain l' where l': "cs_size l' = 0" "cs_ok l'" "cs_cap l' = c"
      "cs_list l' = take (cs_size l - (length xs div p - ?a)) (cs_list l)"
      "drop_loop ind c (length xs div p * p) p d False (l # ls) =
         bindR (drop_loop ind c (length xs div (p * c) * (p * c)) (p * c) d False ls)
           (\<lambda>(n', layers). Inr (n', l' # layers))"
      using drop_loop_round [OF _ Cons.prems(2) c small fit ind refl a, of h t0 l d False ls]
        Cons.prems(1) False by (auto simp: layer_ok_def)
    have empty: "layer_ok c p h t0 ys l'" for ys
      using l'(1-3) cs_list_eq_Nil [of l'] by (simp add: layer_ok_def cs_size_def lastn_def)
    obtain n ls' where r: "drop_loop ind c (length xs div (p * c) * (p * c)) (p * c) d False ls = Inr (n, ls')"
      "map cs_list ls' = drops c (p * c) ind (length xs) ls"
      "case drop_target c (p * c) ind (length xs) ls of
         None \<Rightarrow> n = d \<and> first_back t0 ls' = Inr t0
       | Some k \<Rightarrow> n = k \<and> k \<le> length xs \<and> layers_ok c (p * c) h t0 (take k xs) ls'
           \<and> first_back t0 ls' = Inr (foldl h t0 (take k xs))"
      using Cons.IH [OF _ pc] Cons.prems(1) by auto
    show ?thesis
      using r False l'(1,4,5) empty
      by (intro exI [of _ n] exI [of _ "l' # ls'"]) (simp split: option.splits)
  qed
qed

text \<open>Layer \<open>i\<close> of a tree keeps a hash when the tree is dropped to \<open>ind\<close>.\<close>

definition drop_keeps :: "'a narrow \<Rightarrow> nat \<Rightarrow> nat \<Rightarrow> bool" where
  "drop_keeps m ind i \<longleftrightarrow> i < length (nm_merkle m)
     \<and> nm_size m div nm_capacity m ^ i - marks_left (nm_capacity m ^ i) ind (nm_size m) < cs_size (nm_merkle m ! i)"

lemma nm_drop_ok:
  assumes rel: "nm_rel h t0 m xs" and prev: "nm_prev m < ind" and ind: "ind < SIZE_MOD"
  shows "\<exists>n m'. nm_drop ind m = Inr (n, m') \<and> nm_size m' = n \<and> nm_capacity m' = nm_capacity m
    \<and> map cs_list (nm_merkle m') = drops (nm_capacity m) 1 ind (length xs) (nm_merkle m)
    \<and> (case drop_target (nm_capacity m) 1 ind (length xs) (nm_merkle m) of
         None \<Rightarrow> n = ind \<and> nm_get_root t0 m' = Inr t0
       | Some k \<Rightarrow> n = k \<and> nm_rel h t0 m' (take k xs))"
proof -
  define c where "c = nm_capacity m"
  have r: "2 \<le> c" "2 * c < SIZE_MOD" "nm_txs m = length xs" "nm_data m \<noteq> []"
    "layers_ok c 1 h t0 xs (nm_data m)" "length xs < c ^ length (nm_data m)"
    "c ^ length (nm_data m) < SIZE_MOD" "length xs * c < SIZE_MOD"
    using rel by (auto simp: nm_rel_def c_def)
  obtain n ls where l: "drop_loop ind c (length xs div 1 * 1) 1 ind False (nm_data m) = Inr (n, ls)"
    "map cs_list ls = drops c 1 ind (length xs) (nm_data m)"
    "case drop_target c 1 ind (length xs) (nm_data m) of
       None \<Rightarrow> n = ind \<and> first_back t0 ls = Inr t0
     | Some k \<Rightarrow> n = k \<and> k \<le> length xs \<and> layers_ok c 1 h t0 (take k xs) ls
         \<and> first_back t0 ls = Inr (foldl h t0 (take k xs))"
    using drop_loop_ok [OF r(1,8) ind r(5), of ind] r(7) by auto
  let ?m = "m\<lparr>nm_data := ls, nm_txs := n, nm_prev := n\<rparr>"
  have run: "nm_drop ind m = Inr (n, ?m)" using l(1) prev r(3) by (simp add: nm_drop_def c_def)
  have len: "length ls = length (nm_data m)"
    using arg_cong [OF l(2), of length] by simp
  have "nm_rel h t0 ?m (take n xs)"
    if "n \<le> length xs" "layers_ok c 1 h t0 (take n xs) ls" "first_back t0 ls = Inr (foldl h t0 (take n xs))"
  proof -
    have "n * c \<le> length xs * c" using that(1) by (rule mult_le_mono1)
    then have "n * c < SIZE_MOD" using r(8) by (rule le_less_trans)
    then show ?thesis using that r len
      by (auto simp: nm_rel_def c_def [symmetric] nm_get_root_def simp flip: length_greater_0_conv)
  qed
  then show ?thesis using run l(2,3)
    by (auto simp: nm_size_def nm_merkle_def nm_get_root_def c_def split: option.splits)
qed

text \<open>Fewer hashes than the lowest layer holds: nothing is rounded.\<close>

lemma nm_drop_recent:
  assumes rel: "nm_rel h t0 m xs" and prev: "nm_prev m < ind" and ind: "ind \<le> length xs"
    and recent: "length xs - ind < cs_size (hd (nm_data m))"
  shows "\<exists>m'. nm_drop ind m = Inr (ind, m') \<and> nm_rel h t0 m' (take ind xs) \<and> nm_capacity m' = nm_capacity m"
proof -
  obtain l ls where d: "nm_data m = l # ls" using rel by (cases "nm_data m") (auto simp: nm_rel_def)
  have "length xs < SIZE_MOD"
    using rel by (auto simp: nm_rel_def)
  then have "ind < SIZE_MOD" using ind by simp
  moreover have "drop_target (nm_capacity m) 1 ind (length xs) (nm_merkle m) = Some ind"
    using recent ind by (simp add: nm_merkle_def d marks_left_def)
  ultimately show ?thesis using nm_drop_ok [OF rel prev] by auto
qed

lemma nm_drop_all:
  assumes "2 \<le> nm_capacity m" "2 * nm_capacity m < SIZE_MOD"
  shows "\<exists>m'. nm_drop 0 m = Inr (0, m') \<and> nm_rel h t0 m' [] \<and> nm_capacity m' = nm_capacity m"
proof -
  obtain m' where m': "nm_new (nm_capacity m) = Inr m'" "nm_rel h t0 m' []"
    "nm_capacity m' = nm_capacity m"
    using nm_new_ok [OF assms, of h t0] by blast
  have eq: "m\<lparr>nm_data := [], nm_prev := 0, nm_txs := 0\<rparr>
      = \<lparr>nm_data = [], nm_capacity = nm_capacity m, nm_txs = 0, nm_prev = 0\<rparr>"
    by simp
  have "nm_drop 0 m = Inr (0, m')"
    using m'(1) assms(1) unfolding nm_drop_def nm_new_def eq by (simp split: if_splits)
  with m' show ?thesis by blast
qed

section \<open>Adding many hashes\<close>

interpretation nmtree: accumulator "nm_add h t0" "nm_get_root t0" nm_capacity
  "\<lambda>c xs. length xs * c < SIZE_MOD" "foldl h t0" "nm_rel h t0"
  for h t0
proof
  show "\<exists>s'. nm_add h t0 x s = Inr s' \<and> nm_rel h t0 s' (xs @ [x]) \<and> nm_capacity s' = nm_capacity s"
    if "nm_rel h t0 s xs" "length (xs @ [x]) * nm_capacity s < SIZE_MOD" for s xs x
    using nm_add_ok [OF that(1), of x] that(2) by auto
  show "length xs * c < SIZE_MOD" if "length (xs @ ys) * c < SIZE_MOD" for c and xs ys :: "'a list"
    using that by (simp add: distrib_right)
qed (rule nm_relD(4))

definition nm_build :: "('a \<Rightarrow> 'a \<Rightarrow> 'a) \<Rightarrow> 'a \<Rightarrow> nat \<Rightarrow> 'a list \<Rightarrow> error + 'a narrow" where
  "nm_build h t0 c xs = bindR (nm_new c) (foldR (nm_add h t0) xs)"

lemma nm_build_snoc: "nm_build h t0 c (xs @ [x]) = bindR (nm_build h t0 c xs) (nm_add h t0 x)"
  unfolding nm_build_def by (cases "nm_new c") (simp_all add: foldR_append bindR_def split: sum.split)

lemma nm_build_ok:
  assumes "2 \<le> c" "2 * c < SIZE_MOD"
  shows "length xs * c < SIZE_MOD \<Longrightarrow> \<exists>m. nm_build h t0 c xs = Inr m \<and> nm_rel h t0 m xs
    \<and> nm_capacity m = c \<and> nm_prev m = 0 \<and> cs_size (hd (nm_data m)) = min c (length xs)"
proof (induction xs rule: rev_induct)
  case Nil
  then show ?case using nm_new_ok [OF assms, of h t0] by (auto simp: nm_build_def)
next
  case (snoc x xs)
  then obtain m where m: "nm_build h t0 c xs = Inr m" "nm_rel h t0 m xs" "nm_capacity m = c"
    "nm_prev m = 0" "cs_size (hd (nm_data m)) = min c (length xs)"
    by auto
  have "Suc (length xs) * nm_capacity m < SIZE_MOD" using m(3) snoc.prems by simp
  from nm_add_ok [OF m(2) this, of x] m(1,3-5) show ?case
    by (auto simp: nm_build_snoc)
qed

section \<open>The root of an associative hash\<close>

text \<open>
  The comment on \<^verbatim>\<open>HashFn\<close> asks for an associative function with \<^verbatim>\<open>T()\<close> as its identity.  Then
  the cumulative hash the layers hold is the root of the tree of pairs.
\<close>

lemma foldl_pair_up:
  assumes assoc: "\<And>a b c. h (h a b) c = h a (h b c)"
  shows "foldl h s (pair_up h xs) = foldl h s xs"
  using assoc by (induction h xs arbitrary: s rule: pair_up.induct) simp_all

lemma merkle_root_of_foldl:
  assumes assoc: "\<And>a b c. h (h a b) c = h a (h b c)" and unit: "\<And>a. h t0 a = a"
  shows "xs \<noteq> [] \<Longrightarrow> merkle_root_of h xs = foldl h t0 xs"
proof (induction xs rule: length_induct)
  case (1 xs)
  show ?case
  proof (cases "length xs \<le> 1")
    case True
    with 1(2) obtain x where "xs = [x]" by (cases xs) auto
    then show ?thesis by (simp add: unit)
  next
    case False
    then have "length (pair_up h xs) < length xs" "pair_up h xs \<noteq> []"
      by (auto simp flip: length_0_conv)
    then have "merkle_root_of h (pair_up h xs) = foldl h t0 xs"
      using 1(1) foldl_pair_up [of h, OF assoc] by simp
    then show ?thesis using merkle_root_of_pair_up [OF 1(2), of h] by simp
  qed
qed

section \<open>Properties\<close>

text \<open>
  C20: with capacity 2 or more, any number of additions that the \<^verbatim>\<open>size_t\<close> arithmetic can carry
  succeeds; the size is their number and the root the hash of all of them from the left.  For an
  associative hash with \<^verbatim>\<open>T()\<close> as its identity, as the class asks for, this is the root of the
  reference tree of pairs, the one \<^verbatim>\<open>MerkleTree\<close> computes.
\<close>

theorem narrow_root:
  assumes "2 \<le> c" and "2 * c < SIZE_MOD" and "length xs * c < SIZE_MOD"
  shows "\<exists>m. nm_build h t0 c xs = Inr m \<and> nm_size m = length xs
    \<and> nm_get_root t0 m = Inr (foldl h t0 xs)
    \<and> ((\<forall>x y z. h (h x y) z = h x (h y z)) \<and> (\<forall>x. h t0 x = x) \<and> xs \<noteq> [] \<longrightarrow>
         nm_get_root t0 m = Inr (merkle_root_of h xs))"
proof -
  obtain m where m: "nm_build h t0 c xs = Inr m" "nm_rel h t0 m xs"
    using nm_build_ok [OF assms, of h t0] by blast
  moreover have "foldl h t0 xs = merkle_root_of h xs"
    if "\<forall>x y z. h (h x y) z = h x (h y z)" "\<forall>x. h t0 x = x" "xs \<noteq> []"
    using merkle_root_of_foldl [of h t0, OF _ _ that(3)] that(1,2) by simp
  ultimately show ?thesis using nm_relD(3,4) [OF m(2)] by auto
qed

theorem narrow_root_witness:
  "\<exists>m. nm_build (+) 0 2 [5, 6, 7 :: nat] = Inr m \<and> nm_size m = 3
    \<and> nm_get_root 0 m = Inr (merkle_root_of (+) [5, 6, 7])"
  using narrow_root [of 2 "[5, 6, 7]" "(+)" 0] by (auto simp: SIZE_MOD_def)

text \<open>
  C21: dropping undoes additions exactly as long as they are fewer than the capacity.  After \<open>xs\<close>
  and then \<open>ys\<close>, \<^verbatim>\<open>drop\<close> to the length of \<open>xs\<close> returns that length, and from then on the tree
  cannot be told by its roots from one that never saw \<open>ys\<close>.
\<close>

theorem narrow_rollback:
  assumes "2 \<le> c" and "2 * c < SIZE_MOD" and "length (xs @ ys) * c < SIZE_MOD"
    and "xs \<noteq> []" and "length ys < c" and "nm_build h t0 c (xs @ ys) = Inr m"
  shows "\<exists>m'. nm_drop (length xs) m = Inr (length xs, m') \<and> nm_size m' = length xs
    \<and> (\<forall>zs. length (xs @ zs) * c < SIZE_MOD \<longrightarrow>
         (\<exists>p q. foldR (nm_add h t0) zs m' = Inr p \<and> nm_build h t0 c (xs @ zs) = Inr q
            \<and> nm_get_root t0 p = nm_get_root t0 q))"
proof -
  have m: "nm_rel h t0 m (xs @ ys)" "nm_capacity m = c" "nm_prev m = 0"
    "cs_size (hd (nm_data m)) = min c (length (xs @ ys))"
    using nm_build_ok [OF assms(1-3), of h t0] assms(6) by auto
  have "0 < length xs" using assms(4) by simp
  moreover from this have "length (xs @ ys) - length xs < cs_size (hd (nm_data m))"
    using m(4) assms(5) by simp
  ultimately obtain m' where m': "nm_drop (length xs) m = Inr (length xs, m')" "nm_rel h t0 m' xs"
    "nm_capacity m' = c"
    using nm_drop_recent [OF m(1), of "length xs"] m(2,3) by auto
  have "\<exists>p q. foldR (nm_add h t0) zs m' = Inr p \<and> nm_build h t0 c (xs @ zs) = Inr q
      \<and> nm_get_root t0 p = nm_get_root t0 q" if fit: "length (xs @ zs) * c < SIZE_MOD" for zs
  proof -
    obtain p where p: "foldR (nm_add h t0) zs m' = Inr p" "nm_rel h t0 p (xs @ zs)"
      using nmtree.push_all [OF m'(2), of zs] fit m'(3) by auto
    obtain q where q: "nm_build h t0 c (xs @ zs) = Inr q" "nm_rel h t0 q (xs @ zs)"
      using nm_build_ok [OF assms(1,2) fit, of h t0] by auto
    from nmtree.same_root [OF p(2) q(2)] p(1) q(1) assms(4) show ?thesis by simp
  qed
  with m' nm_relD(3) [OF m'(2)] show ?thesis by blast
qed

theorem narrow_rollback_witness:
  "\<exists>m m'. nm_build (+) 0 3 [5, 6, 7, 8 :: nat] = Inr m \<and> nm_drop 2 m = Inr (2, m')
    \<and> (\<exists>p q. foldR (nm_add (+) 0) [9] m' = Inr p \<and> nm_build (+) 0 3 [5, 6, 9] = Inr q
         \<and> nm_get_root 0 p = nm_get_root 0 q)"
proof -
  obtain m where m: "nm_build (+) 0 3 ([5, 6] @ [7, 8 :: nat]) = Inr m"
    using nm_build_ok [of 3 "[5, 6] @ [7, 8]" "(+)" 0] by (auto simp: SIZE_MOD_def)
  have fits: "2 * 3 < SIZE_MOD" "length ([5, 6] @ [7, 8 :: nat]) * 3 < SIZE_MOD"
    "length ([5, 6] @ [9 :: nat]) * 3 < SIZE_MOD"
    by (simp_all add: SIZE_MOD_def)
  obtain m' where m': "nm_drop (length [5, 6 :: nat]) m = Inr (length [5, 6 :: nat], m')"
    "\<forall>zs. length ([5, 6] @ zs) * 3 < SIZE_MOD \<longrightarrow>
       (\<exists>p q. foldR (nm_add (+) 0) zs m' = Inr p \<and> nm_build (+) 0 3 ([5, 6] @ zs) = Inr q
          \<and> nm_get_root 0 p = nm_get_root 0 q)"
    using narrow_rollback [OF _ fits(1,2) _ _ m] by auto
  have "\<exists>p q. foldR (nm_add (+) 0) [9] m' = Inr p \<and> nm_build (+) 0 3 ([5, 6] @ [9]) = Inr q
          \<and> nm_get_root 0 p = nm_get_root 0 q"
    using m'(2) fits(3) by blast
  with m m'(1) show ?thesis by (auto simp: numeral_2_eq_2)
qed

text \<open>
  C22: \<^verbatim>\<open>drop\<close> in general, for any number.  With 0 it empties the tree.  A number that is not
  beyond the one of the last drop is returned and nothing happens.  Otherwise every layer of
  distance \<open>c ^ i\<close> loses the hashes of more than \<open>ind\<close> transactions, or all if it never got as far
  as \<open>ind\<close>.  If a layer keeps a hash, the number returned is \<open>ind\<close> rounded down to the distance of
  the lowest such layer, and the tree is one of that many hashes; if no layer does, the number
  itself is returned and reported by \<^verbatim>\<open>size()\<close>, and the root is \<^verbatim>\<open>T()\<close>.
\<close>

theorem narrow_drop:
  assumes "nm_rel h t0 m xs" and "ind < SIZE_MOD"
  shows "\<exists>n m'. nm_drop ind m = Inr (n, m')
    \<and> (ind = 0 \<longrightarrow> n = 0 \<and> nm_rel h t0 m' [])
    \<and> (ind \<noteq> 0 \<and> ind \<le> nm_prev m \<longrightarrow> n = ind \<and> m' = m)
    \<and> (nm_prev m < ind \<longrightarrow> nm_size m' = n \<and> length (nm_merkle m') = length (nm_merkle m)
         \<and> (\<forall>i < length (nm_merkle m). cs_list (nm_merkle m' ! i) =
              take (cs_size (nm_merkle m ! i) - (length xs div nm_capacity m ^ i
                      - (if ind div nm_capacity m ^ i \<le> length xs div nm_capacity m ^ i
                         then ind div nm_capacity m ^ i else 0)))
                (cs_list (nm_merkle m ! i)))
         \<and> ((\<forall>i. \<not> drop_keeps m ind i) \<and> n = ind \<and> nm_get_root t0 m' = Inr t0
            \<or> (\<exists>i. drop_keeps m ind i \<and> (\<forall>j<i. \<not> drop_keeps m ind j)
                \<and> n = ind div nm_capacity m ^ i * nm_capacity m ^ i \<and> nm_rel h t0 m' (take n xs))))"
proof -
  consider "ind = 0" | "ind \<noteq> 0" "ind \<le> nm_prev m" | "nm_prev m < ind" by linarith
  then show ?thesis
  proof cases
    case 1
    then show ?thesis using nm_drop_all [OF nm_relD(1,2) [OF assms(1)], of h t0] by auto
  next
    case 2
    then show ?thesis by (simp add: nm_drop_def)
  next
    case 3
    let ?c = "nm_capacity m" and ?ls = "nm_merkle m"
    obtain n m' where r: "nm_drop ind m = Inr (n, m')" "nm_size m' = n"
      "map cs_list (nm_merkle m') = drops ?c 1 ind (length xs) ?ls"
      "case drop_target ?c 1 ind (length xs) ?ls of None \<Rightarrow> n = ind \<and> nm_get_root t0 m' = Inr t0
       | Some k \<Rightarrow> n = k \<and> nm_rel h t0 m' (take k xs)"
      using nm_drop_ok [OF assms(1) 3 assms(2)] by blast
    have len: "length (nm_merkle m') = length ?ls" using arg_cong [OF r(3), of length] by simp
    have "\<forall>i < length ?ls. cs_list (nm_merkle m' ! i) = take (cs_size (?ls ! i)
        - (length xs div ?c ^ i - marks_left (?c ^ i) ind (length xs))) (cs_list (?ls ! i))"
    proof (intro allI impI)
      fix i assume i: "i < length ?ls"
      then have "cs_list (nm_merkle m' ! i) = drops ?c 1 ind (length xs) ?ls ! i"
        using len r(3) by (metis nth_map)
      then show "cs_list (nm_merkle m' ! i) = take (cs_size (?ls ! i)
        - (length xs div ?c ^ i - marks_left (?c ^ i) ind (length xs))) (cs_list (?ls ! i))"
        using drops_nth [OF i, of ?c 1 ind "length xs"] by simp
    qed
    moreover have "(\<forall>i. \<not> drop_keeps m ind i) \<and> n = ind \<and> nm_get_root t0 m' = Inr t0
        \<or> (\<exists>i. drop_keeps m ind i \<and> (\<forall>j<i. \<not> drop_keeps m ind j)
            \<and> n = ind div ?c ^ i * ?c ^ i \<and> nm_rel h t0 m' (take n xs))"
    proof (cases "drop_target ?c 1 ind (length xs) ?ls")
      case None
      then have "\<not> drop_keeps m ind i" for i
        using nm_relD(3) [OF assms(1)] unfolding drop_target_None by (simp add: drop_keeps_def)
      then show ?thesis using r(4) None by simp
    next
      case (Some k)
      then show ?thesis using r(4) drop_target_Some [OF Some] nm_relD(3) [OF assms(1)]
        by (auto simp: drop_keeps_def)
    qed
    ultimately show ?thesis using r(1,2) len 3 unfolding marks_left_def by auto
  qed
qed

text \<open>A tree of capacity 2 after five additions.\<close>

lemma nm_height_small:
  "nm_height 2 1 = Inr 1" "nm_height 2 2 = Inr 2" "nm_height 2 3 = Inr 2" "nm_height 2 4 = Inr 3" "nm_height 2 5 = Inr 3"
  by (simp_all add: nm_height_def height_loop.simps sz_mul_def sz_add_def SIZE_MOD_def)

lemma nm_height_Suc:
  "nm_height 2 (Suc 0) = Inr 1" "nm_height 2 (Suc (Suc 0)) = Inr 2"
  "nm_height 2 (Suc (Suc (Suc 0))) = Inr 2"
  using nm_height_small by (simp_all add: eval_nat_numeral)

lemma five_adds:
  "nm_build (+) 0 2 [1, 2, 3, 4, 5 :: nat] =
     Inr \<lparr>nm_data = [\<lparr>cs_v = [Some 15, Some 10], cs_cap = 2, cs_sz = 2, cs_i_end = 1\<rparr>,
                     \<lparr>cs_v = [Some 3, Some 10], cs_cap = 2, cs_sz = 2, cs_i_end = 0\<rparr>,
                     \<lparr>cs_v = [Some 10, None], cs_cap = 2, cs_sz = 1, cs_i_end = 1\<rparr>],
          nm_capacity = 2, nm_txs = 5, nm_prev = 0\<rparr>"
  by (simp add: nm_build_def nm_new_def nm_grow_def nm_add_def nm_grows_def nm_height_small nm_height_Suc
      nm_get_root_def cs_eval replicate_numeral_Cons Let_def)

text \<open>
  Dropped to 3, the lowest layer has nothing left and the next one keeps the hash of the first two;
  dropped to 7, which is beyond the history, only the hash of the first four is kept.
\<close>

theorem narrow_drop_witness:
  "\<exists>m m' m''. nm_build (+) 0 2 [1, 2, 3, 4, 5 :: nat] = Inr m
    \<and> nm_drop 3 m = Inr (2, m') \<and> nm_size m' = 2 \<and> nm_get_root 0 m' = Inr 3
    \<and> nm_drop 7 m = Inr (4, m'') \<and> nm_size m'' = 4 \<and> nm_get_root 0 m'' = Inr 10"
proof -
  obtain m where m: "nm_build (+) 0 2 [1, 2, 3, 4, 5 :: nat] = Inr m" "nm_rel (+) 0 m [1, 2, 3, 4, 5]" "nm_prev m = 0"
    using nm_build_ok [of 2 "[1, 2, 3, 4, 5 :: nat]" "(+)" 0] by (auto simp: SIZE_MOD_def)
  have keeps: "drop_keeps m 3 i \<longleftrightarrow> i = 1" "drop_keeps m 7 i \<longleftrightarrow> i = 2" for i
  proof -
    consider "i = 0" | "i = 1" | "i = 2" | "3 \<le> i" by linarith
    then show "drop_keeps m 3 i \<longleftrightarrow> i = 1" "drop_keeps m 7 i \<longleftrightarrow> i = 2"
      using m(1) unfolding five_adds
      by (cases; auto simp: drop_keeps_def nm_merkle_def nm_size_def cs_size_def marks_left_def)+
  qed
  have c: "nm_capacity m = 2" using m(1) unfolding five_adds by auto
  obtain n m' where a: "nm_drop 3 m = Inr (n, m')" "nm_size m' = n" "n = 2" "nm_rel (+) 0 m' (take n [1, 2, 3, 4, 5])"
    using narrow_drop [OF m(2), of 3] m(3) keeps(1) c by (auto simp: SIZE_MOD_def)
  obtain k m'' where b: "nm_drop 7 m = Inr (k, m'')" "nm_size m'' = k" "k = 4" "nm_rel (+) 0 m'' (take k [1, 2, 3, 4, 5])"
    using narrow_drop [OF m(2), of 7] m(3) keeps(2) c by (auto simp: SIZE_MOD_def)
  show ?thesis using m(1) a b nm_relD(4) [OF a(4)] nm_relD(4) [OF b(4)] by auto
qed

lemma less_power_iff_bits: "(n :: nat) < 2 ^ b \<longleftrightarrow> (\<forall>i\<ge>b. \<not> bit n i)"
proof
  assume n: "n < 2 ^ b"
  show "\<forall>i\<ge>b. \<not> bit n i"
  proof (intro allI impI)
    fix i assume "b \<le> i"
    then have "(2 :: nat) ^ b \<le> 2 ^ i" by (intro power_increasing) auto
    with n have "n < 2 ^ i" by (rule less_le_trans)
    then show "\<not> bit n i" by (simp add: bit_iff_odd)
  qed
next
  assume "\<forall>i\<ge>b. \<not> bit n i"
  then have "take_bit b n = n" by (intro bit_eqI) (metis bit_take_bit_iff not_le)
  then show "n < 2 ^ b" by (simp add: take_bit_nat_eq_self_iff)
qed

text \<open>
  C32: capacities 0 and 1, and \<^verbatim>\<open>popcount\<close>.  A capacity of 0 throws, so no tree of that capacity
  stores hashes.  A capacity of 1 takes one addition; from the second on none returns, because
  \<^verbatim>\<open>height\<close> multiplies by 1 for ever.  \<^verbatim>\<open>popcount\<close> of a number of \<open>bytes\<close> bytes is right exactly
  for the numbers below \<open>2 ^ bytes\<close>.
\<close>

theorem narrow_edge_cases:
  "(nm_new 0 :: error + nat narrow) = Inl (Literal ''capacity can't assign empty.'')
   \<and> (\<exists>m. nm_build h t0 1 [x] = Inr m \<and> nm_size m = 1 \<and> nm_get_root t0 m = Inr (h t0 x))
   \<and> nm_build h t0 1 (x # y # zs) = Inl Diverges
   \<and> (\<forall>n < 2 ^ (8 * bytes). nm_popcount bytes n = length (filter (bit n) [0..<8 * bytes]) \<longleftrightarrow> n < 2 ^ bytes)"
proof (intro conjI allI impI)
  show "\<exists>m. nm_build h t0 1 [x] = Inr m \<and> nm_size m = 1 \<and> nm_get_root t0 m = Inr (h t0 x)"
    by (simp add: nm_build_def nm_new_def nm_grow_def nm_add_def nm_grows_def nm_get_root_def nm_size_def cs_eval)
  show "nm_build h t0 1 (x # y # zs) = Inl Diverges"
    by (simp add: nm_build_def nm_new_def nm_grow_def nm_add_def nm_grows_def
        nm_height_one [unfolded One_nat_def] nm_get_root_def cs_eval)
next
  fix n :: nat assume n: "n < 2 ^ (8 * bytes)"
  have "[0..<8 * bytes] = [0..<bytes] @ [bytes..<8 * bytes]"
    using upt_add_eq_append [of 0 bytes "7 * bytes"] by simp
  then have "nm_popcount bytes n = length (filter (bit n) [0..<8 * bytes])
      \<longleftrightarrow> (\<forall>i. bytes \<le> i \<and> i < 8 * bytes \<longrightarrow> \<not> bit n i)"
    by (auto simp: nm_popcount_def filter_empty_conv)
  also have "\<dots> \<longleftrightarrow> n < 2 ^ bytes"
    using n unfolding less_power_iff_bits by (metis not_less)
  finally show "nm_popcount bytes n = length (filter (bit n) [0..<8 * bytes]) \<longleftrightarrow> n < 2 ^ bytes" .
qed (simp add: nm_new_def)

theorem narrow_edge_cases_witness:
  "nm_build (+) 0 1 [1, 2, 3 :: nat] = Inl Diverges
    \<and> nm_popcount 4 10 = length (filter (bit (10 :: nat)) [0..<32])
    \<and> nm_popcount 4 16 \<noteq> length (filter (bit (16 :: nat)) [0..<32])"
  using narrow_edge_cases [of "(+)" 0 1 2 "[3 :: nat]" 4] by simp

end
