(* ===== verification/Lmdb.thy ===== *)
theory Lmdb
  imports Merkle_Tree
begin

text \<open>
  The interface of LMDB that the program calls (\<^verbatim>\<open>#include <lmdb.h>\<close> in
  \<^verbatim>\<open>include/ametsuchi/common.h\<close>, \<^verbatim>\<open>tx_store.h\<close>, \<^verbatim>\<open>wsv.h\<close>, \<^verbatim>\<open>ametsuchi.h\<close>).  LMDB is not part of
  the repository: its functions are the fields of the record \<open>lmdb\<close>, an argument of every
  definition that calls them, and \<open>lmdb_ok\<close> states what its documentation promises of them.
  What LMDB keeps beyond the promises (free pages, the file, the reader table) is a field of a
  type that stays a parameter, so that a call may fail whenever the documentation lets it fail.
\<close>

section \<open>The data\<close>

text \<open>
  A key or a value, an \<^verbatim>\<open>MDB_val\<close>: the bytes of a string, of a \<^verbatim>\<open>size_t\<close>, of a buffer that
  holds a flatbuffer, or of a hash.  The type of the buffers is a parameter.
\<close>

datatype 'b item = IStr string | INum nat | IBlob 'b | IHash hash_t

text \<open>A tree: its records in order; the values of a key with duplicates follow each other.\<close>

type_synonym 'b tree = "('b item \<times> 'b item) list"

definition tkeys :: "'b tree \<Rightarrow> 'b item set" where
  "tkeys t = fst ` set t"

definition tget :: "'b tree \<Rightarrow> 'b item \<Rightarrow> 'b item list" where
  "tget t k = map snd (filter (\<lambda>r. fst r = k) t)"

text \<open>The records of one key follow each other.\<close>

definition grouped :: "'b tree \<Rightarrow> bool" where
  "grouped t \<longleftrightarrow> (\<forall>i j. i < j \<and> j < length t \<and> fst (t ! i) = fst (t ! j)
     \<longrightarrow> fst (t ! Suc i) = fst (t ! i))"

section \<open>Return codes, operations and flags\<close>

datatype rc =
    MDB_SUCCESS
  | MDB_KEYEXIST
  | MDB_NOTFOUND
  | MDB_PANIC
  | MDB_VERSION_MISMATCH
  | MDB_INVALID
  | MDB_MAP_FULL
  | MDB_DBS_FULL
  | MDB_READERS_FULL
  | MDB_TXN_FULL
  | MDB_MAP_RESIZED
  | MDB_BAD_VALSIZE
  | EINVAL
  | EACCES
  | ENOMEM
  | ENOENT
  | EAGAIN
  | RC_other int

datatype cursor_op = MDB_FIRST | MDB_GET_BOTH | MDB_LAST | MDB_NEXT | MDB_NEXT_DUP | MDB_SET

datatype put_flag = MDB_NOOVERWRITE | MDB_NODUPDATA | MDB_CURRENT | MDB_APPEND

datatype db_flag = MDB_DUPSORT | MDB_INTEGERKEY | MDB_DUPFIXED | MDB_CREATE

section \<open>The environment\<close>

text \<open>
  Named databases; transactions, each with the databases it sees; the database a \<^verbatim>\<open>MDB_dbi\<close>
  stands for; cursors, each with its transaction, its database and the index of the record it is
  at; the comparison of duplicates of a database.  Handles are numbers.
\<close>

record 'b db =
  db_dup :: bool
  db_tree :: "'b tree"

record 'b txn =
  txn_rdonly :: bool
  txn_dbs :: "string \<Rightarrow> 'b db option"

record cursor =
  cu_txn :: nat
  cu_db :: string
  cu_pos :: "nat option"

record ('b, 'x) env =
  env_committed :: "string \<Rightarrow> 'b db option"
  env_txns :: "nat \<Rightarrow> 'b txn option"
  env_dbis :: "nat \<Rightarrow> string option"
  env_cursors :: "nat \<Rightarrow> cursor option"
  env_cmp :: "string \<Rightarrow> 'b item \<Rightarrow> 'b item \<Rightarrow> int"
  env_hidden :: 'x

text \<open>The database a transaction sees under a name.\<close>

definition txn_db :: "('b, 'x) env \<Rightarrow> nat \<Rightarrow> string \<Rightarrow> 'b db option" where
  "txn_db e tx n = (case env_txns e tx of None \<Rightarrow> None | Some t \<Rightarrow> txn_dbs t n)"

text \<open>What a cursor handle stands for, without its position.\<close>

definition cursor_home :: "('b, 'x) env \<Rightarrow> nat \<Rightarrow> (nat \<times> string) option" where
  "cursor_home e c = map_option (\<lambda>cu. (cu_txn cu, cu_db cu)) (env_cursors e c)"

section \<open>The functions\<close>

text \<open>
  Each function takes what its C counterpart takes and returns the code, what it writes to its
  output arguments, and the environment it leaves.
\<close>

record ('b, 'x) lmdb =
  mdb_txn_begin :: "bool \<Rightarrow> ('b, 'x) env \<Rightarrow> rc \<times> nat \<times> ('b, 'x) env"
  mdb_txn_commit :: "nat \<Rightarrow> ('b, 'x) env \<Rightarrow> rc \<times> ('b, 'x) env"
  mdb_txn_abort :: "nat \<Rightarrow> ('b, 'x) env \<Rightarrow> ('b, 'x) env"
  mdb_dbi_open :: "nat \<Rightarrow> string \<Rightarrow> db_flag list \<Rightarrow> ('b, 'x) env \<Rightarrow> rc \<times> nat \<times> ('b, 'x) env"
  mdb_dbi_close :: "nat \<Rightarrow> ('b, 'x) env \<Rightarrow> ('b, 'x) env"
  mdb_set_dupsort :: "nat \<Rightarrow> nat \<Rightarrow> ('b item \<Rightarrow> 'b item \<Rightarrow> int) \<Rightarrow> ('b, 'x) env \<Rightarrow>
    rc \<times> ('b, 'x) env"
  mdb_drop :: "nat \<Rightarrow> nat \<Rightarrow> ('b, 'x) env \<Rightarrow> rc \<times> ('b, 'x) env"
  mdb_cursor_open :: "nat \<Rightarrow> nat \<Rightarrow> ('b, 'x) env \<Rightarrow> rc \<times> nat \<times> ('b, 'x) env"
  mdb_cursor_close :: "nat \<Rightarrow> ('b, 'x) env \<Rightarrow> ('b, 'x) env"
  mdb_cursor_get :: "nat \<Rightarrow> cursor_op \<Rightarrow> 'b item \<Rightarrow> 'b item \<Rightarrow> ('b, 'x) env \<Rightarrow>
    rc \<times> 'b item \<times> 'b item \<times> ('b, 'x) env"
  mdb_cursor_put :: "nat \<Rightarrow> 'b item \<Rightarrow> 'b item \<Rightarrow> put_flag list \<Rightarrow> ('b, 'x) env \<Rightarrow>
    rc \<times> ('b, 'x) env"
  mdb_cursor_del :: "nat \<Rightarrow> put_flag list \<Rightarrow> ('b, 'x) env \<Rightarrow> rc \<times> ('b, 'x) env"

section \<open>What the documentation promises\<close>

text \<open>The first index from which on a record passes a test.\<close>

fun find_ix :: "('a \<Rightarrow> bool) \<Rightarrow> 'a list \<Rightarrow> nat option" where
  "find_ix P [] = None"
| "find_ix P (x # xs) = (if P x then Some 0 else map_option Suc (find_ix P xs))"

text \<open>The record that each operation of \<^verbatim>\<open>mdb_cursor_get\<close> moves to.\<close>

definition get_target :: "('b item \<Rightarrow> 'b item \<Rightarrow> int) \<Rightarrow> cursor_op \<Rightarrow> 'b item \<Rightarrow> 'b item \<Rightarrow> 'b tree \<Rightarrow>
    nat option \<Rightarrow> nat option" where
  "get_target cmp op k v t pos = (case op of
       MDB_FIRST \<Rightarrow> (if t = [] then None else Some 0)
     | MDB_LAST \<Rightarrow> (if t = [] then None else Some (length t - 1))
     | MDB_NEXT \<Rightarrow> (case pos of
           None \<Rightarrow> (if t = [] then None else Some 0)
         | Some i \<Rightarrow> (if Suc i < length t then Some (Suc i) else None))
     | MDB_NEXT_DUP \<Rightarrow> (case pos of
           None \<Rightarrow> None
         | Some i \<Rightarrow> (if Suc i < length t \<and> fst (t ! Suc i) = fst (t ! i) then Some (Suc i) else None))
     | MDB_SET \<Rightarrow> find_ix (\<lambda>r. fst r = k) t
     | MDB_GET_BOTH \<Rightarrow> find_ix (\<lambda>r. fst r = k \<and> cmp v (snd r) = 0) t)"

text \<open>
  The sizes LMDB accepts: keys, and values of a database with duplicates, of 1 to 511 bytes;
  duplicates of one key of the same size (\<^verbatim>\<open>MDB_DUPFIXED\<close>).
\<close>

definition MAXKEYSIZE :: nat where
  "MAXKEYSIZE = 511"

fun item_size :: "('b \<Rightarrow> nat) \<Rightarrow> 'b item \<Rightarrow> nat" where
  "item_size bsize (IStr s) = length s"
| "item_size bsize (INum n) = 8"
| "item_size bsize (IBlob b) = bsize b"
| "item_size bsize (IHash h) = length h"

definition key_size_ok :: "('b \<Rightarrow> nat) \<Rightarrow> 'b item \<Rightarrow> bool" where
  "key_size_ok bsize k \<longleftrightarrow> 1 \<le> item_size bsize k \<and> item_size bsize k \<le> MAXKEYSIZE"

definition put_size_ok :: "('b \<Rightarrow> nat) \<Rightarrow> bool \<Rightarrow> 'b tree \<Rightarrow> 'b item \<Rightarrow> 'b item \<Rightarrow> bool" where
  "put_size_ok bsize dup t k v \<longleftrightarrow> key_size_ok bsize k \<and>
     (dup \<longrightarrow> key_size_ok bsize v \<and> (\<forall>v0 \<in> set (tget t k). item_size bsize v0 = item_size bsize v))"

text \<open>A successful put without flags.\<close>

definition put_effect :: "bool \<Rightarrow> ('b item \<Rightarrow> 'b item \<Rightarrow> int) \<Rightarrow> 'b item \<Rightarrow> 'b item \<Rightarrow> 'b tree \<Rightarrow>
    'b tree \<Rightarrow> bool" where
  "put_effect dup cmp k v t t' \<longleftrightarrow>
     (if dup then
        (if \<exists>v0 \<in> set (tget t k). cmp v v0 = 0
         then t' = t \<or> (\<exists>i < length t. fst (t ! i) = k \<and> cmp v (snd (t ! i)) = 0 \<and> t' = t[i := (k, v)])
         else \<exists>i \<le> length t. t' = ins_nth i (k, v) t)
      else
        (if k \<in> tkeys t
         then \<exists>i < length t. fst (t ! i) = k \<and> t' = t[i := (k, v)]
         else \<exists>i \<le> length t. t' = ins_nth i (k, v) t))
     \<and> (grouped t \<longrightarrow> grouped t')"

text \<open>Integer keys (\<^verbatim>\<open>MDB_INTEGERKEY\<close>) are ordered as numbers.\<close>

fun num_less :: "'b item \<Rightarrow> 'b item \<Rightarrow> bool" where
  "num_less (INum a) (INum b) = (a < b)"
| "num_less _ _ = False"

text \<open>The change of the records of one database of one transaction.\<close>

definition upd_tree :: "nat \<Rightarrow> string \<Rightarrow> 'b tree \<Rightarrow> (nat \<Rightarrow> 'b txn option) \<Rightarrow> nat \<Rightarrow> 'b txn option" where
  "upd_tree tx n t txns = txns(tx := map_option
     (\<lambda>x. x\<lparr>txn_dbs := (txn_dbs x)(n := map_option (\<lambda>d. d\<lparr>db_tree := t\<rparr>) (txn_dbs x n))\<rparr>)
     (txns tx))"

text \<open>What no access to the data changes.\<close>

definition frame :: "('b, 'x) env \<Rightarrow> ('b, 'x) env \<Rightarrow> bool" where
  "frame e e' \<longleftrightarrow> env_committed e' = env_committed e \<and> env_dbis e' = env_dbis e
     \<and> env_cmp e' = env_cmp e \<and> cursor_home e' = cursor_home e"

definition put_codes :: "rc set" where
  "put_codes = {MDB_SUCCESS, MDB_MAP_FULL, MDB_TXN_FULL, EACCES, EINVAL}"

definition get_spec :: "('b \<Rightarrow> nat) \<Rightarrow> ('b, 'x) lmdb \<Rightarrow> bool" where
  "get_spec bsize L \<longleftrightarrow> (\<forall>c op k v e cu d rc k' v' e'.
     env_cursors e c = Some cu \<and> txn_db e (cu_txn cu) (cu_db cu) = Some d
     \<and> mdb_cursor_get L c op k v e = (rc, k', v', e') \<longrightarrow>
     (let target = get_target (env_cmp e (cu_db cu)) op k v (db_tree d) (cu_pos cu)
      in \<exists>pos. frame e e' \<and> env_txns e' = env_txns e
        \<and> env_cursors e' = (env_cursors e)(c \<mapsto> cu\<lparr>cu_pos := pos\<rparr>)
        \<and> (rc = MDB_SUCCESS \<longrightarrow> target = pos \<and> (\<exists>i. pos = Some i \<and> (k', v') = db_tree d ! i))
        \<and> (rc = MDB_NOTFOUND \<longrightarrow> target = None)
        \<and> ((op \<in> {MDB_SET, MDB_GET_BOTH} \<longrightarrow> key_size_ok bsize k) \<longrightarrow>
             rc \<in> {MDB_SUCCESS, MDB_NOTFOUND, EINVAL})))"

definition put_spec :: "('b \<Rightarrow> nat) \<Rightarrow> ('b, 'x) lmdb \<Rightarrow> bool" where
  "put_spec bsize L \<longleftrightarrow> (\<forall>c k v fl e cu d rc e'.
     env_cursors e c = Some cu \<and> txn_db e (cu_txn cu) (cu_db cu) = Some d
     \<and> mdb_cursor_put L c k v fl e = (rc, e') \<longrightarrow>
     (let t = db_tree d; cmp = env_cmp e (cu_db cu)
      in \<exists>t'. frame e e' \<and> env_txns e' = upd_tree (cu_txn cu) (cu_db cu) t' (env_txns e)
        \<and> (put_size_ok bsize (db_dup d) t k v \<and> fl = [] \<longrightarrow>
             rc \<in> put_codes \<and> (rc = MDB_SUCCESS \<longrightarrow> put_effect (db_dup d) cmp k v t t'))
        \<and> (\<forall>i. put_size_ok bsize (db_dup d) t k v \<and> fl = [MDB_CURRENT]
             \<and> cu_pos cu = Some i \<and> i < length t \<and> fst (t ! i) = k
             \<and> (db_dup d \<longrightarrow> cmp v (snd (t ! i)) = 0) \<longrightarrow>
             rc \<in> put_codes \<and> (rc = MDB_SUCCESS \<longrightarrow> t' = t[i := (k, v)]))
        \<and> (put_size_ok bsize (db_dup d) t k v \<and> \<not> db_dup d \<and> MDB_APPEND \<in> set fl
             \<and> set fl \<subseteq> {MDB_APPEND, MDB_NOOVERWRITE} \<longrightarrow>
             rc \<in> insert MDB_KEYEXIST put_codes
             \<and> (rc = MDB_SUCCESS \<longrightarrow> t' = t @ [(k, v)] \<and> k \<notin> tkeys t)
             \<and> (rc = MDB_KEYEXIST \<longrightarrow> (\<exists>k0 \<in> tkeys t. \<not> num_less k0 k)))))"

definition del_spec :: "('b, 'x) lmdb \<Rightarrow> bool" where
  "del_spec L \<longleftrightarrow> (\<forall>c fl e cu d rc e'.
     env_cursors e c = Some cu \<and> txn_db e (cu_txn cu) (cu_db cu) = Some d
     \<and> mdb_cursor_del L c fl e = (rc, e') \<longrightarrow>
     (let t = db_tree d
      in \<exists>t'. frame e e' \<and> env_txns e' = upd_tree (cu_txn cu) (cu_db cu) t' (env_txns e)
        \<and> rc \<in> {MDB_SUCCESS, EACCES, EINVAL}
        \<and> (rc = MDB_SUCCESS \<longrightarrow> (\<exists>i. cu_pos cu = Some i \<and> i < length t
             \<and> (fl = [] \<longrightarrow> t' = take i t @ drop (Suc i) t)
             \<and> (fl = [MDB_NODUPDATA] \<longrightarrow> t' = filter (\<lambda>r. fst r \<noteq> fst (t ! i)) t)))))"

definition drop_spec :: "('b, 'x) lmdb \<Rightarrow> bool" where
  "drop_spec L \<longleftrightarrow> (\<forall>tx h n d e rc e'.
     env_dbis e h = Some n \<and> txn_db e tx n = Some d \<and> \<not> txn_rdonly (the (env_txns e tx))
     \<and> mdb_drop L tx h e = (rc, e') \<longrightarrow>
     (\<exists>t'. frame e e' \<and> env_txns e' = upd_tree tx n t' (env_txns e)
        \<and> rc \<in> {MDB_SUCCESS, EINVAL} \<and> (rc = MDB_SUCCESS \<longrightarrow> t' = [])))"

text \<open>
  Opening.  Handles are fresh; a read transaction, and a write transaction when it begins, see
  what was committed last; a database that does not exist is created empty.
\<close>

definition begin_spec :: "('b, 'x) lmdb \<Rightarrow> bool" where
  "begin_spec L \<longleftrightarrow> (\<forall>ro e rc tx e'. mdb_txn_begin L ro e = (rc, tx, e') \<longrightarrow>
     frame e e' \<and> env_cursors e' = env_cursors e
     \<and> rc \<in> {MDB_SUCCESS, MDB_PANIC, MDB_MAP_RESIZED, MDB_READERS_FULL, ENOMEM}
     \<and> (if rc = MDB_SUCCESS
        then env_txns e tx = None
          \<and> env_txns e' = (env_txns e)(tx \<mapsto> \<lparr>txn_rdonly = ro, txn_dbs = env_committed e\<rparr>)
        else env_txns e' = env_txns e))"

definition dbi_open_spec :: "('b, 'x) lmdb \<Rightarrow> bool" where
  "dbi_open_spec L \<longleftrightarrow> (\<forall>tx n fl e x rc h e'.
     env_txns e tx = Some x \<and> mdb_dbi_open L tx n fl e = (rc, h, e') \<longrightarrow>
     env_committed e' = env_committed e \<and> env_cmp e' = env_cmp e
     \<and> env_cursors e' = env_cursors e
     \<and> (MDB_CREATE \<in> set fl \<and> \<not> txn_rdonly x \<longrightarrow> rc \<in> {MDB_SUCCESS, MDB_DBS_FULL})
     \<and> rc \<in> {MDB_SUCCESS, MDB_NOTFOUND, MDB_DBS_FULL}
     \<and> (if rc = MDB_SUCCESS
        then (env_dbis e h = None \<or> env_dbis e h = Some n)
          \<and> env_dbis e' = (env_dbis e)(h \<mapsto> n)
          \<and> (if txn_dbs x n = None
             then MDB_CREATE \<in> set fl \<and> env_txns e' = (env_txns e)(tx \<mapsto> x\<lparr>txn_dbs := (txn_dbs x)
                    (n \<mapsto> \<lparr>db_dup = (MDB_DUPSORT \<in> set fl), db_tree = []\<rparr>)\<rparr>)
             else env_txns e' = env_txns e)
        else env_dbis e' = env_dbis e \<and> env_txns e' = env_txns e))"

definition set_dupsort_spec :: "('b, 'x) lmdb \<Rightarrow> bool" where
  "set_dupsort_spec L \<longleftrightarrow> (\<forall>tx h n cmp e rc e'.
     env_dbis e h = Some n \<and> mdb_set_dupsort L tx h cmp e = (rc, e') \<longrightarrow>
     env_committed e' = env_committed e \<and> env_dbis e' = env_dbis e
     \<and> env_cursors e' = env_cursors e \<and> env_txns e' = env_txns e
     \<and> rc \<in> {MDB_SUCCESS, EINVAL}
     \<and> env_cmp e' = (if rc = MDB_SUCCESS then (env_cmp e)(n := cmp) else env_cmp e))"

definition cursor_open_spec :: "('b, 'x) lmdb \<Rightarrow> bool" where
  "cursor_open_spec L \<longleftrightarrow> (\<forall>tx h n d e rc c e'.
     env_dbis e h = Some n \<and> txn_db e tx n = Some d \<and> mdb_cursor_open L tx h e = (rc, c, e') \<longrightarrow>
     env_committed e' = env_committed e \<and> env_dbis e' = env_dbis e
     \<and> env_cmp e' = env_cmp e \<and> env_txns e' = env_txns e
     \<and> rc \<in> {MDB_SUCCESS, EINVAL}
     \<and> (if rc = MDB_SUCCESS
        then env_cursors e c = None
          \<and> env_cursors e' = (env_cursors e)(c \<mapsto> \<lparr>cu_txn = tx, cu_db = n, cu_pos = None\<rparr>)
        else env_cursors e' = env_cursors e))"

text \<open>Closing.  An abort, or a commit that fails, may close handles opened in the transaction.\<close>

definition close_spec :: "('b, 'x) lmdb \<Rightarrow> bool" where
  "close_spec L \<longleftrightarrow> (\<forall>c h e.
     (let e' = mdb_cursor_close L c e
      in env_committed e' = env_committed e \<and> env_dbis e' = env_dbis e \<and> env_cmp e' = env_cmp e
        \<and> env_txns e' = env_txns e \<and> env_cursors e' = (env_cursors e)(c := None))
     \<and> (let e' = mdb_dbi_close L h e
        in env_committed e' = env_committed e \<and> env_dbis e' = (env_dbis e)(h := None)
          \<and> env_cmp e' = env_cmp e \<and> env_txns e' = env_txns e \<and> env_cursors e' = env_cursors e))"

definition commit_spec :: "('b, 'x) lmdb \<Rightarrow> bool" where
  "commit_spec L \<longleftrightarrow> (\<forall>tx e x rc e'.
     env_txns e tx = Some x \<and> \<not> txn_rdonly x \<and> mdb_txn_commit L tx e = (rc, e') \<longrightarrow>
     env_txns e' = (env_txns e)(tx := None)
     \<and> (\<forall>h. env_dbis e' h = env_dbis e h \<or> (rc \<noteq> MDB_SUCCESS \<and> env_dbis e' h = None))
     \<and> env_cmp e' = env_cmp e \<and> env_cursors e' = env_cursors e
     \<and> env_committed e' = (if rc = MDB_SUCCESS then txn_dbs x else env_committed e))"

definition abort_spec :: "('b, 'x) lmdb \<Rightarrow> bool" where
  "abort_spec L \<longleftrightarrow> (\<forall>tx e x.
     env_txns e tx = Some x \<longrightarrow>
     (let e' = mdb_txn_abort L tx e
      in env_txns e' = (env_txns e)(tx := None) \<and> env_committed e' = env_committed e
        \<and> env_cmp e' = env_cmp e \<and> env_cursors e' = env_cursors e
        \<and> (\<forall>h. env_dbis e' h = env_dbis e h \<or> (\<not> txn_rdonly x \<and> env_dbis e' h = None))))"

definition lmdb_ok :: "('b \<Rightarrow> nat) \<Rightarrow> ('b, 'x) lmdb \<Rightarrow> bool" where
  "lmdb_ok bsize L \<longleftrightarrow>
     get_spec bsize L \<and> put_spec bsize L \<and> del_spec L \<and> drop_spec L \<and> begin_spec L
     \<and> dbi_open_spec L \<and> set_dupsort_spec L \<and> cursor_open_spec L \<and> close_spec L
     \<and> commit_spec L \<and> abort_spec L"

section \<open>Trees\<close>

lemma find_ix_None: "find_ix P xs = None \<longleftrightarrow> (\<forall>x \<in> set xs. \<not> P x)"
  by (induction xs) auto

lemma find_ix_Some:
  "find_ix P xs = Some i \<Longrightarrow> i < length xs \<and> P (xs ! i) \<and> (\<forall>j < i. \<not> P (xs ! j))"
proof (induction xs arbitrary: i)
  case (Cons x xs)
  show ?case
  proof (cases "P x")
    case False
    then obtain j where j: "find_ix P xs = Some j" "i = Suc j" using Cons.prems by auto
    have "\<not> P ((x # xs) ! m)" if "m < i" for m
      using that False Cons.IH [OF j(1)] j(2) by (cases m) auto
    then show ?thesis using Cons.IH [OF j(1)] j(2) by auto
  qed (use Cons.prems in auto)
qed simp

lemma get_target_less: "get_target cmp op k v t pos = Some i \<Longrightarrow> i < length t"
  by (auto simp: get_target_def dest: find_ix_Some split: cursor_op.splits if_splits option.splits)

text \<open>What each change of a tree does to the values of the keys.\<close>

lemma tget_Nil [simp]: "tget [] k = []"
  by (simp add: tget_def)

lemma tget_Cons [simp]: "tget (r # t) k = (if fst r = k then snd r # tget t k else tget t k)"
  by (simp add: tget_def)

lemma tget_append [simp]: "tget (t @ u) k = tget t k @ tget u k"
  by (simp add: tget_def)

lemma tget_eq_Nil: "tget t k = [] \<longleftrightarrow> k \<notin> tkeys t"
  by (auto simp: tget_def tkeys_def filter_empty_conv)

lemma nth_tkeys: "i < length t \<Longrightarrow> fst (t ! i) = k \<Longrightarrow> k \<in> tkeys t"
  by (auto simp: tkeys_def)

lemma set_tget: "v \<in> set (tget t k) \<longleftrightarrow> (k, v) \<in> set t"
  by (force simp: tget_def)

lemma tget_filter_other: "k' \<noteq> k \<Longrightarrow> tget (filter (\<lambda>r. fst r \<noteq> k) t) k' = tget t k'"
  by (induction t) auto

lemma tget_filter_same: "tget (filter (\<lambda>r. fst r \<noteq> k) t) k = []"
  by (induction t) auto

lemma tget_split:
  assumes "i < length t" "fst (t ! i) = k"
  shows "tget t k = tget (take i t) k @ snd (t ! i) # tget (drop (Suc i) t) k"
proof -
  have "tget t k = tget (take i t @ t ! i # drop (Suc i) t) k"
    using assms(1) by (simp add: id_take_nth_drop [symmetric])
  then show ?thesis using assms(2) by simp
qed

lemma tget_update_other:
  assumes "i < length t" "fst (t ! i) = k" "k' \<noteq> k"
  shows "tget (t[i := (k, v)]) k' = tget t k'"
proof -
  have "tget t k' = tget (take i t @ t ! i # drop (Suc i) t) k'"
    using assms(1) by (simp add: id_take_nth_drop [symmetric])
  then show ?thesis using assms by (simp add: upd_conv_take_nth_drop)
qed

lemma tget_update_same:
  assumes "i < length t" "fst (t ! i) = k"
  defines "j \<equiv> length (tget (take i t) k)"
  shows "j < length (tget t k) \<and> tget t k ! j = snd (t ! i) \<and> tget (t[i := (k, v)]) k = (tget t k)[j := v]"
  using assms(1) unfolding tget_split [OF assms(1,2)] j_def
  by (simp add: upd_conv_take_nth_drop)

lemma tget_ins_other: "k' \<noteq> k \<Longrightarrow> tget (ins_nth i (k, v) t) k' = tget t k'"
proof -
  assume "k' \<noteq> k"
  have "tget t k' = tget (take i t) k' @ tget (drop i t) k'"
    by (simp add: tget_append [symmetric] del: tget_append)
  with \<open>k' \<noteq> k\<close> show ?thesis by (simp add: ins_nth_def)
qed

lemma tget_ins_same:
  "\<exists>j \<le> length (tget t k). tget (ins_nth i (k, v) t) k = ins_nth j v (tget t k)"
proof -
  have t: "tget t k = tget (take i t) k @ tget (drop i t) k"
    by (simp add: tget_append [symmetric] del: tget_append)
  then show ?thesis
    by (intro exI [of _ "length (tget (take i t) k)"]) (simp add: ins_nth_def)
qed

lemma tget_delete_other:
  assumes "i < length t" "fst (t ! i) = k" "k' \<noteq> k"
  shows "tget (take i t @ drop (Suc i) t) k' = tget t k'"
proof -
  have "tget t k' = tget (take i t @ t ! i # drop (Suc i) t) k'"
    using assms(1) by (simp add: id_take_nth_drop [symmetric])
  then show ?thesis using assms by simp
qed

text \<open>A tree without duplicates is a map.\<close>

definition nodup :: "'b tree \<Rightarrow> bool" where
  "nodup t \<longleftrightarrow> distinct (map fst t)"

definition tmap :: "'b tree \<Rightarrow> 'b item \<Rightarrow> 'b item option" where
  "tmap t k = (case tget t k of [] \<Rightarrow> None | v # vs \<Rightarrow> Some v)"

lemma tget_nodup: "nodup t \<Longrightarrow> tget t k = (case tmap t k of None \<Rightarrow> [] | Some v \<Rightarrow> [v])"
proof (induction t)
  case (Cons r t)
  have "fst r \<notin> fst ` set t" "nodup t" using Cons.prems by (auto simp: nodup_def)
  then have "tget t (fst r) = []" by (simp add: tget_eq_Nil tkeys_def)
  then show ?case using Cons.IH [OF \<open>nodup t\<close>] by (auto simp: tmap_def)
qed (simp add: tmap_def)

lemma tmap_None: "tmap t k = None \<longleftrightarrow> k \<notin> tkeys t"
  by (auto simp: tmap_def simp flip: tget_eq_Nil split: list.splits)

lemma nodup_update: "nodup t \<Longrightarrow> i < length t \<Longrightarrow> fst (t ! i) = k \<Longrightarrow> nodup (t[i := (k, v)])"
  by (simp add: nodup_def map_update) (metis list_update_id nth_map)

lemma nodup_ins: "nodup t \<Longrightarrow> k \<notin> tkeys t \<Longrightarrow> nodup (ins_nth i (k, v) t)"
proof -
  assume t: "nodup t" "k \<notin> tkeys t"
  have "map fst (ins_nth i (k, v) t) = ins_nth i k (map fst t)"
    by (simp add: ins_nth_def take_map drop_map)
  then show ?thesis using t by (simp add: nodup_def distinct_ins_nth tkeys_def)
qed

lemma nodup_delete: "nodup t \<Longrightarrow> nodup (take i t @ drop (Suc i) t)"
proof -
  assume "nodup t"
  then have "distinct (map fst (take i t) @ map fst (drop (Suc i) t))"
    by (cases "i < length t")
       (auto simp: nodup_def distinct_append take_map [symmetric] drop_map [symmetric]
         dest: set_take_disj_set_drop_if_distinct [of "map fst t" i "Suc i"])
  then show ?thesis by (simp add: nodup_def)
qed

lemma put_effect_map:
  assumes "put_effect False cmp k v t t'" and "nodup t"
  shows "nodup t' \<and> tmap t' = (tmap t)(k \<mapsto> v)"
proof -
  obtain i where i: "(i < length t \<and> fst (t ! i) = k \<and> t' = t[i := (k, v)])
      \<or> (k \<notin> tkeys t \<and> t' = ins_nth i (k, v) t)"
    using assms(1) by (auto simp: put_effect_def split: if_splits)
  then have n: "nodup t'" using assms(2) by (auto intro: nodup_update nodup_ins)
  have other: "tget t' k' = tget t k'" if "k' \<noteq> k" for k'
    using i that by (auto simp: tget_update_other tget_ins_other)
  have "v \<in> set (tget t' k)"
    using i by (auto simp: set_tget set_update_memI)
  then have "tmap t' k = Some v"
    using tget_nodup [OF n, of k] by (auto split: option.splits)
  then show ?thesis using n other by (auto simp: tmap_def fun_eq_iff)
qed

lemma delete_map:
  assumes "nodup t" "i < length t" "fst (t ! i) = k"
  shows "nodup (take i t @ drop (Suc i) t) \<and> tmap (take i t @ drop (Suc i) t) = (tmap t)(k := None)"
proof -
  let ?t = "take i t @ drop (Suc i) t"
  have "tget t k = tget (take i t) k @ snd (t ! i) # tget (drop (Suc i) t) k"
    by (rule tget_split [OF assms(2,3)])
  then have "tget (take i t) k @ tget (drop (Suc i) t) k = []"
    using tget_nodup [OF assms(1), of k] by (cases "tget (take i t) k") (auto split: option.splits)
  then have "tmap ?t k = None" by (simp add: tmap_def)
  moreover have "tmap ?t k' = tmap t k'" if "k' \<noteq> k" for k'
    using tget_delete_other [OF assms(2,3) that] by (simp add: tmap_def del: tget_append)
  ultimately show ?thesis using nodup_delete [OF assms(1)] by (auto simp: fun_eq_iff)
qed

text \<open>The values of a key follow each other.\<close>

lemma grouped_Cons:
  "grouped (r # t) \<longleftrightarrow> grouped t \<and> (fst r \<in> tkeys t \<longrightarrow> fst (hd t) = fst r)"
proof
  assume g: "grouped (r # t)"
  have "fst (t ! Suc i) = fst (t ! i)" if "i < j" "j < length t" "fst (t ! i) = fst (t ! j)" for i j
    using g [unfolded grouped_def, rule_format, of "Suc i" "Suc j"] that by simp
  moreover have "fst (hd t) = fst r" if k: "fst r \<in> tkeys t"
  proof -
    obtain j where j: "j < length t" "fst (t ! j) = fst r"
      using k by (auto simp: tkeys_def in_set_conv_nth)
    then have "fst ((r # t) ! Suc 0) = fst r"
      using g [unfolded grouped_def, rule_format, of 0 "Suc j"] by simp
    then show ?thesis using j by (cases t) auto
  qed
  ultimately show "grouped t \<and> (fst r \<in> tkeys t \<longrightarrow> fst (hd t) = fst r)" by (auto simp: grouped_def)
next
  assume g: "grouped t \<and> (fst r \<in> tkeys t \<longrightarrow> fst (hd t) = fst r)"
  have "fst ((r # t) ! Suc i) = fst ((r # t) ! i)"
    if ij: "i < j" "j < length (r # t)" "fst ((r # t) ! i) = fst ((r # t) ! j)" for i j
  proof -
    obtain m where m: "j = Suc m" "m < length t" using ij(1,2) by (cases j) simp_all
    show ?thesis
    proof (cases i)
      case 0
      then have "fst r = fst (t ! m)" using ij(3) m by simp
      then have "fst r \<in> tkeys t" using nth_tkeys [OF m(2)] by simp
      then show ?thesis using g m 0 by (cases t) simp_all
    next
      case (Suc n)
      then show ?thesis
        using g [THEN conjunct1, unfolded grouped_def, rule_format, of n m] ij m by simp
    qed
  qed
  then show "grouped (r # t)" unfolding grouped_def by blast
qed

lemma grouped_tget:
  "grouped t \<Longrightarrow> find_ix (\<lambda>r. fst r = k) t = Some i \<Longrightarrow>
     tget t k = map snd (takeWhile (\<lambda>r. fst r = k) (drop i t))"
proof (induction t arbitrary: i)
  case (Cons r t)
  have g: "grouped t" "fst r \<in> tkeys t \<longrightarrow> fst (hd t) = fst r"
    using Cons.prems(1) by (simp_all add: grouped_Cons)
  show ?case
  proof (cases "fst r = k")
    case False
    then obtain j where "find_ix (\<lambda>r. fst r = k) t = Some j" "i = Suc j" using Cons.prems(2) by auto
    then show ?thesis using False Cons.IH [OF g(1)] by simp
  next
    case True
    have "tget t k = map snd (takeWhile (\<lambda>r. fst r = k) t)"
    proof (cases "k \<in> tkeys t")
      case k: True
      then have "t \<noteq> []" "fst (hd t) = k" using g(2) True by (auto simp: tkeys_def)
      then have "find_ix (\<lambda>r. fst r = k) t = Some 0" by (cases t) auto
      then show ?thesis using Cons.IH [OF g(1)] by simp
    next
      case k: False
      then have "takeWhile (\<lambda>r. fst r = k) t = []" by (cases t) (auto simp: tkeys_def)
      then show ?thesis using k by (simp add: tget_eq_Nil)
    qed
    then show ?thesis using True Cons.prems(2) by simp
  qed
qed simp

end
