(* ===== verification/Schema.thy ===== *)
theory Schema
  imports Lmdb
begin

text \<open>
  The data that travels through the database: the tables of \<^verbatim>\<open>schema/asset.fbs\<close>,
  \<^verbatim>\<open>schema/commands.fbs\<close> and \<^verbatim>\<open>schema/transaction.fbs\<close>, with the fields the program reads, and
  the accessors that the FlatBuffers compiler generates from them.  The accessors and the
  library are not part of the repository: they are the fields of the record \<open>fb\<close>, an argument
  of the definitions, and \<open>fb_ok\<close> states what they promise.  A buffer that holds a root
  flatbuffer is an element of the type \<open>'b\<close>; a scalar that is not stored is \<open>None\<close> and reads as 0.
\<close>

section \<open>Tables\<close>

record currency_fb =
  cy_currency_name :: string
  cy_domain_name :: string
  cy_ledger_name :: string
  cy_amount :: "64 word option"
  cy_precision :: "8 word option"

datatype any_asset = AnyAsset_NONE | ComplexAsset | CurrencyAsset currency_fb

text \<open>
  The union \<^verbatim>\<open>Command\<close>.  A nested flatbuffer is a buffer again; a string that is not
  \<^verbatim>\<open>required\<close> may be absent.
\<close>

datatype 'b command =
    Command_NONE
  | AssetCreate string string string
  | AssetAdd string 'b
  | AssetRemove string 'b
  | AssetTransfer 'b string string
  | PeerAdd 'b
  | PeerRemove 'b
  | PeerSetActive
  | PeerSetTrust
  | PeerChangeTrust
  | AccountAdd 'b
  | AccountRemove "string option"
  | AccountAddSignatory
  | AccountRemoveSignatory
  | AccountSetUseKeys
  | ChaincodeAdd
  | ChaincodeRemove
  | ChaincodeExecute

record 'b transaction =
  tx_creatorPubKey :: string
  tx_command :: "'b command"
  tx_hash :: "byte list option"

section \<open>Accessors\<close>

text \<open>
  \<^verbatim>\<open>flatbuffers::GetRoot\<close> of each table, \<^verbatim>\<open>iroha::CreateAsset\<close> of a currency without amount,
  the two in-place mutators of the currency inside an asset, and the size of a buffer.
\<close>

record 'b fb =
  fb_transaction :: "'b \<Rightarrow> 'b transaction"
  fb_asset :: "'b \<Rightarrow> any_asset"
  fb_account_pubKey :: "'b \<Rightarrow> string"
  fb_peer_ip :: "'b \<Rightarrow> string option"
  fb_create_currency :: "string \<Rightarrow> string \<Rightarrow> string \<Rightarrow> 'b"
  fb_mutate_amount :: "'b \<Rightarrow> 64 word \<Rightarrow> 'b"
  fb_mutate_precision :: "'b \<Rightarrow> 8 word \<Rightarrow> 'b"
  fb_size :: "'b \<Rightarrow> nat"

text \<open>
  A scalar at its default value is not stored; a mutator overwrites a scalar that is stored,
  in place, and leaves a buffer without it as it is.
\<close>

definition fb_ok :: "'b fb \<Rightarrow> bool" where
  "fb_ok F \<longleftrightarrow>
     (\<forall>an dn ln. fb_asset F (fb_create_currency F an dn ln) = CurrencyAsset
        \<lparr>cy_currency_name = an, cy_domain_name = dn, cy_ledger_name = ln,
         cy_amount = None, cy_precision = None\<rparr>)
     \<and> (\<forall>b cy a. fb_asset F b = CurrencyAsset cy \<longrightarrow>
        fb_asset F (fb_mutate_amount F b a)
          = CurrencyAsset (cy\<lparr>cy_amount := map_option (\<lambda>_. a) (cy_amount cy)\<rparr>)
        \<and> fb_size F (fb_mutate_amount F b a) = fb_size F b)
     \<and> (\<forall>b cy p. fb_asset F b = CurrencyAsset cy \<longrightarrow>
        fb_asset F (fb_mutate_precision F b p)
          = CurrencyAsset (cy\<lparr>cy_precision := map_option (\<lambda>_. p) (cy_precision cy)\<rparr>)
        \<and> fb_size F (fb_mutate_precision F b p) = fb_size F b)"

text \<open>The accessors \<^verbatim>\<open>amount()\<close> and \<^verbatim>\<open>precision()\<close>.\<close>

definition read_amount :: "currency_fb \<Rightarrow> 64 word" where
  "read_amount cy = (case cy_amount cy of None \<Rightarrow> 0 | Some a \<Rightarrow> a)"

definition read_precision :: "currency_fb \<Rightarrow> 8 word" where
  "read_precision cy = (case cy_precision cy of None \<Rightarrow> 0 | Some p \<Rightarrow> p)"

section \<open>Asset identifiers\<close>

text \<open>\<^verbatim>\<open>data()\<close> of a string, appended to a \<^verbatim>\<open>std::string\<close>: it ends at the first zero byte.\<close>

definition c_str :: "string \<Rightarrow> string" where
  "c_str s = takeWhile (\<lambda>c. c \<noteq> CHR 0x00) s"

text \<open>In this order: ledger, domain, asset, with nothing between them.\<close>

definition asset_pk :: "string \<Rightarrow> string \<Rightarrow> string \<Rightarrow> string" where
  "asset_pk ln dn an = c_str ln @ c_str dn @ c_str an"

definition currency_pk :: "currency_fb \<Rightarrow> string" where
  "currency_pk cy = asset_pk (cy_ledger_name cy) (cy_domain_name cy) (cy_currency_name cy)"

section \<open>The comparator of assets\<close>

text \<open>\<^verbatim>\<open>std::string::compare\<close>: the sign of the lexicographic comparison of the bytes.\<close>

fun str_compare :: "string \<Rightarrow> string \<Rightarrow> int" where
  "str_compare [] [] = 0"
| "str_compare [] (d # ds) = -1"
| "str_compare (c # cs) [] = 1"
| "str_compare (c # cs) (d # ds) =
     (if c = d then str_compare cs ds
      else if (of_char c :: nat) < of_char d then -1 else 1)"

lemma str_compare_eq_0 [simp]: "str_compare s t = 0 \<longleftrightarrow> s = t"
  by (induction s t rule: str_compare.induct) auto

text \<open>
  \<^verbatim>\<open>comparator::cmp_assets\<close> of two values of the tree \<^verbatim>\<open>wsv_pubkey_assets\<close>.  On a value that is
  not a currency the code follows a null pointer; the comparison has no meaning there, and the
  tree holds no such value (\<open>Wsv\<close>).
\<close>

definition item_pk :: "'b fb \<Rightarrow> 'b item \<Rightarrow> string option" where
  "item_pk F i = (case i of
       IBlob b \<Rightarrow> (case fb_asset F b of CurrencyAsset cy \<Rightarrow> Some (currency_pk cy) | _ \<Rightarrow> None)
     | _ \<Rightarrow> None)"

definition cmp_assets :: "'b fb \<Rightarrow> 'b item \<Rightarrow> 'b item \<Rightarrow> int" where
  "cmp_assets F a b = (case (item_pk F a, item_pk F b) of
       (Some as, Some bs) \<Rightarrow> str_compare as bs
     | _ \<Rightarrow> 0)"

end
