(* ===== verification/Common.thy ===== *)
theory Common
  imports Schema
begin

text \<open>
  \<^verbatim>\<open>include/ametsuchi/common.h\<close> and the macro \<^verbatim>\<open>AMETSUCHI_CRITICAL\<close> of \<^verbatim>\<open>exception.h\<close>: the calls
  into LMDB that both stores share.  A store is a state \<open>'s\<close> beside the environment, and an
  operation of it acts on the pair.
\<close>

type_synonym ('b, 'x, 's, 'a) store_op = "(('b, 'x) env \<times> 's, 'a) op"

section \<open>Calls\<close>

definition cursor_get :: "('b, 'x) lmdb \<Rightarrow> nat \<Rightarrow> cursor_op \<Rightarrow> 'b item \<Rightarrow> 'b item \<Rightarrow>
    ('b, 'x, 's, rc \<times> 'b item \<times> 'b item) store_op" where
  "cursor_get L c op k v = (\<lambda>(e, s).
     case mdb_cursor_get L c op k v e of (rc, k', v', e') \<Rightarrow> (Inr (rc, k', v'), (e', s)))"

definition cursor_put :: "('b, 'x) lmdb \<Rightarrow> nat \<Rightarrow> 'b item \<Rightarrow> 'b item \<Rightarrow> put_flag list \<Rightarrow>
    ('b, 'x, 's, rc) store_op" where
  "cursor_put L c k v fl = (\<lambda>(e, s).
     case mdb_cursor_put L c k v fl e of (rc, e') \<Rightarrow> (Inr rc, (e', s)))"

definition cursor_del :: "('b, 'x) lmdb \<Rightarrow> nat \<Rightarrow> put_flag list \<Rightarrow> ('b, 'x, 's, rc) store_op" where
  "cursor_del L c fl = (\<lambda>(e, s). case mdb_cursor_del L c fl e of (rc, e') \<Rightarrow> (Inr rc, (e', s)))"

definition envS :: "(('b, 'x) env \<Rightarrow> ('b, 'x) env) \<Rightarrow> ('b, 'x, 's, unit) store_op" where
  "envS f = (\<lambda>(e, s). (Inr (), (f e, s)))"

text \<open>A sequence of \<^verbatim>\<open>AMETSUCHI_CRITICAL(res, err)\<close>; any other code is ignored.\<close>

definition critical :: "rc \<Rightarrow> rc list \<Rightarrow> ('s, unit) op" where
  "critical res errs =
     (if res \<in> set errs then throwS (InternalError FATAL) else returnS ())"

definition whenS :: "bool \<Rightarrow> ('s, unit) op \<Rightarrow> ('s, unit) op" where
  "whenS b m = (if b then m else returnS ())"

text \<open>
  A loop whose end depends on LMDB is a partial function; if it never ends, the operation that
  runs it never returns.
\<close>

definition loopS :: "(('b, 'x) env \<Rightarrow> ((error + 'a) \<times> ('b, 'x) env) option) \<Rightarrow>
    ('b, 'x, 's, 'a) store_op" where
  "loopS f = (\<lambda>(e, s). case f e of None \<Rightarrow> (Inl Diverges, (e, s)) | Some (r, e') \<Rightarrow> (r, (e', s)))"

section \<open>Trees of a store\<close>

text \<open>The member \<^verbatim>\<open>trees_\<close>: the handle and the cursor of every tree, by name.\<close>

type_synonym trees = "(string \<times> nat \<times> nat) list"

definition trees_at :: "trees \<Rightarrow> string \<Rightarrow> ('s, nat \<times> nat) op" where
  "trees_at ts n = (case map_of ts n of None \<Rightarrow> throwS Out_Of_Range | Some h \<Rightarrow> returnS h)"

definition init_btree :: "('b, 'x) lmdb \<Rightarrow> nat \<Rightarrow> string \<Rightarrow> db_flag list \<Rightarrow>
    ('b item \<Rightarrow> 'b item \<Rightarrow> int) option \<Rightarrow> ('b, 'x, 's, nat \<times> nat) store_op" where
  "init_btree L append_tx name flags dupsort = (\<lambda>(e, s).
     case mdb_dbi_open L append_tx name flags e of (res, dbi, e1) \<Rightarrow>
     bindS (critical res [MDB_NOTFOUND, MDB_DBS_FULL]) (\<lambda>_ (e1, s).
       case mdb_cursor_open L append_tx dbi e1 of (res, cursor, e2) \<Rightarrow>
       bindS (critical res [EINVAL]) (\<lambda>_ (e2, s).
         case dupsort of
           None \<Rightarrow> (Inr (dbi, cursor), (e2, s))
         | Some cmp \<Rightarrow> (case mdb_set_dupsort L append_tx dbi cmp e2 of (res, e3) \<Rightarrow>
             bindS (critical res [EINVAL]) (\<lambda>_. returnS (dbi, cursor)) (e3, s))) (e2, s)) (e1, s))"

text \<open>
  The loops over the records of a tree from the one the cursor is at, and over the values of
  its key.  The flag tells whether the loop ended because there were no more.
\<close>

partial_function (option) records_loop :: "('b, 'x) lmdb \<Rightarrow> nat \<Rightarrow> 'b item \<Rightarrow> 'b item \<Rightarrow>
    ('b item \<times> 'b item) list \<Rightarrow> ('b, 'x) env \<Rightarrow>
    ((error + ('b item \<times> 'b item) list) \<times> ('b, 'x) env) option" where
  "records_loop L c k v ret e =
     (case mdb_cursor_get L c MDB_NEXT k v e of (res, k', v', e') \<Rightarrow>
        if res = MDB_NOTFOUND then Some (Inr (ret @ [(k, v)]), e')
        else if res = EINVAL then Some (Inl (InternalError FATAL), e')
        else if res = MDB_SUCCESS then records_loop L c k' v' (ret @ [(k, v)]) e'
        else Some (Inr (ret @ [(k, v)]), e'))"

definition read_all_records :: "('b, 'x) lmdb \<Rightarrow> nat \<Rightarrow>
    ('b, 'x, 's, ('b item \<times> 'b item) list) store_op" where
  "read_all_records L cursor =
     bindS (cursor_get L cursor MDB_FIRST (IStr []) (IStr [])) (\<lambda>(res, k, v).
     if res = MDB_NOTFOUND then returnS []
     else bindS (critical res [EINVAL]) (\<lambda>_. loopS (records_loop L cursor k v [])))"

definition close_all :: "('b, 'x) lmdb \<Rightarrow> trees \<Rightarrow> ('b, 'x) env \<Rightarrow> ('b, 'x) env" where
  "close_all L ts e = fold (\<lambda>(n, d, c). mdb_cursor_close L c) ts e"

definition close_dbis :: "('b, 'x) lmdb \<Rightarrow> trees \<Rightarrow> ('b, 'x) env \<Rightarrow> ('b, 'x) env" where
  "close_dbis L ts e = fold (\<lambda>(n, d, c). mdb_dbi_close L d) ts e"

end
