(* ===== verification/Store.thy ===== *)
theory Store
  imports Common
begin

text \<open>
  What both stores keep true of their open trees, and what a call on one of them changes:
  \<open>store_ok\<close> says that every tree of a store is open in the append transaction,
  \<open>step_on\<close> that only the named trees of that transaction have changed.
\<close>

section \<open>Open trees\<close>

definition store_ok :: "(string \<times> bool) list \<Rightarrow> trees \<Rightarrow> nat \<Rightarrow> ('b, 'x) env \<Rightarrow> bool" where
  "store_ok names ts tx e \<longleftrightarrow>
     (\<exists>x. env_txns e tx = Some x \<and> \<not> txn_rdonly x)
     \<and> (\<forall>(n, dup) \<in> set names. \<exists>d c db. map_of ts n = Some (d, c) \<and> env_dbis e d = Some n
          \<and> cursor_home e c = Some (tx, n) \<and> txn_db e tx n = Some db \<and> db_dup db = dup)"

definition store_tree :: "('b, 'x) env \<Rightarrow> nat \<Rightarrow> string \<Rightarrow> 'b tree" where
  "store_tree e tx n = (case txn_db e tx n of None \<Rightarrow> [] | Some d \<Rightarrow> db_tree d)"

text \<open>The same for what was committed.\<close>

definition dbs_tree :: "(string \<Rightarrow> 'b db option) \<Rightarrow> string \<Rightarrow> 'b tree" where
  "dbs_tree dbs n = (case dbs n of None \<Rightarrow> [] | Some d \<Rightarrow> db_tree d)"

lemma store_tree_dbs: "env_txns e tx = Some x \<Longrightarrow> store_tree e tx = dbs_tree (txn_dbs x)"
  by (simp add: fun_eq_iff store_tree_def dbs_tree_def txn_db_def)

lemma dbs_tree_empty [simp]: "dbs_tree (\<lambda>_. None) n = []"
  by (simp add: dbs_tree_def)

definition step_on :: "nat \<Rightarrow> string set \<Rightarrow> ('b, 'x) env \<Rightarrow> ('b, 'x) env \<Rightarrow> bool" where
  "step_on tx ns e e' \<longleftrightarrow> frame e e'
     \<and> (\<forall>tx'. tx' \<noteq> tx \<longrightarrow> env_txns e' tx' = env_txns e tx')
     \<and> map_option txn_rdonly (env_txns e' tx) = map_option txn_rdonly (env_txns e tx)
     \<and> (\<forall>m. map_option db_dup (txn_db e' tx m) = map_option db_dup (txn_db e tx m))
     \<and> (\<forall>m. m \<notin> ns \<longrightarrow> txn_db e' tx m = txn_db e tx m)"

lemma store_okD:
  assumes "store_ok names ts tx e" and "(n, dup) \<in> set names"
  shows "\<exists>d c db. map_of ts n = Some (d, c) \<and> env_dbis e d = Some n
    \<and> cursor_home e c = Some (tx, n) \<and> txn_db e tx n = Some db \<and> db_dup db = dup"
proof -
  have "\<forall>(n, dup) \<in> set names. \<exists>d c db. map_of ts n = Some (d, c) \<and> env_dbis e d = Some n
          \<and> cursor_home e c = Some (tx, n) \<and> txn_db e tx n = Some db \<and> db_dup db = dup"
    using assms(1) by (simp add: store_ok_def)
  from bspec [OF this assms(2)] show ?thesis by simp
qed

lemma step_on_refl [simp]: "step_on tx ns e e"
  by (simp add: step_on_def frame_def)

lemma step_on_trans: "step_on tx ns e e' \<Longrightarrow> step_on tx ns e' e'' \<Longrightarrow> step_on tx ns e e''"
  by (simp add: step_on_def frame_def)

lemma step_on_mono: "step_on tx ns e e' \<Longrightarrow> ns \<subseteq> ns' \<Longrightarrow> step_on tx ns' e e'"
  by (auto simp: step_on_def)

lemma step_on_tree: "step_on tx ns e e' \<Longrightarrow> m \<notin> ns \<Longrightarrow> store_tree e' tx m = store_tree e tx m"
  by (simp add: step_on_def store_tree_def)

lemma step_on_cmp: "step_on tx ns e e' \<Longrightarrow> env_cmp e' = env_cmp e"
  by (simp add: step_on_def frame_def)

lemma step_on_committed: "step_on tx ns e e' \<Longrightarrow> env_committed e' = env_committed e"
  by (simp add: step_on_def frame_def)

lemma store_ok_step:
  assumes "store_ok names ts tx e" and "step_on tx ns e e'"
  shows "store_ok names ts tx e'"
proof -
  obtain x where x: "env_txns e tx = Some x" "\<not> txn_rdonly x"
    using assms(1) by (auto simp: store_ok_def)
  have "map_option txn_rdonly (env_txns e' tx) = Some False"
    using assms(2) x by (simp add: step_on_def)
  then have "\<exists>x. env_txns e' tx = Some x \<and> \<not> txn_rdonly x" by auto
  moreover have "\<exists>d c db. map_of ts n = Some (d, c) \<and> env_dbis e' d = Some n
      \<and> cursor_home e' c = Some (tx, n) \<and> txn_db e' tx n = Some db \<and> db_dup db = dup"
    if mem: "(n, dup) \<in> set names" for n dup
  proof -
    obtain d c db where o: "map_of ts n = Some (d, c)" "env_dbis e d = Some n"
      "cursor_home e c = Some (tx, n)" "txn_db e tx n = Some db" "db_dup db = dup"
      using store_okD [OF assms(1) mem] by blast
    have "map_option db_dup (txn_db e' tx n) = Some dup"
      using assms(2) o by (simp add: step_on_def)
    then obtain db' where "txn_db e' tx n = Some db'" "db_dup db' = dup" by auto
    then show ?thesis using o assms(2) by (auto simp: step_on_def frame_def)
  qed
  ultimately show ?thesis unfolding store_ok_def by blast
qed

lemma upd_tree_step:
  assumes "frame e e'" and "env_txns e' = upd_tree tx n t' (env_txns e)"
  shows "step_on tx {n} e e'"
  using assms by (auto simp: step_on_def upd_tree_def txn_db_def option.map_comp o_def
      split: option.splits intro!: option.map_cong)

lemma upd_tree_tree:
  assumes "env_txns e' = upd_tree tx n t' (env_txns e)" and "txn_db e tx n = Some d"
  shows "store_tree e' tx n = t'"
  using assms by (auto simp: store_tree_def upd_tree_def txn_db_def split: option.splits)

lemma get_step:
  assumes "frame e e'" and "env_txns e' = env_txns e"
  shows "step_on tx {} e e'"
  using assms by (simp add: step_on_def txn_db_def)

section \<open>Calls on an open tree\<close>

lemma store_cursor:
  assumes "store_ok names ts tx e" and "(n, dup) \<in> set names" and "map_of ts n = Some (d, c)"
  shows "\<exists>cu db. env_cursors e c = Some cu \<and> cu_txn cu = tx \<and> cu_db cu = n
    \<and> txn_db e tx n = Some db \<and> store_tree e tx n = db_tree db \<and> db_dup db = dup"
  using store_okD [OF assms(1,2)] assms(3) by (auto simp: cursor_home_def store_tree_def)

text \<open>
  A cursor on a tree that its transaction sees, whichever transaction that is; \<open>at_record\<close>: it
  stands at a record.
\<close>

definition reads :: "('b, 'x) env \<Rightarrow> nat \<Rightarrow> string \<Rightarrow> nat \<Rightarrow> bool" where
  "reads e tx n c \<longleftrightarrow> cursor_home e c = Some (tx, n) \<and> txn_db e tx n \<noteq> None"

definition at_record :: "('b, 'x) env \<Rightarrow> nat \<Rightarrow> string \<Rightarrow> nat \<Rightarrow> nat \<Rightarrow> bool" where
  "at_record e tx n c i \<longleftrightarrow>
     env_cursors e c = Some \<lparr>cu_txn = tx, cu_db = n, cu_pos = Some i\<rparr> \<and> i < length (store_tree e tx n)"

lemma store_reads:
  "store_ok names ts tx e \<Longrightarrow> (n, dup) \<in> set names \<Longrightarrow> map_of ts n = Some (d, c) \<Longrightarrow> reads e tx n c"
  using store_okD by (fastforce simp: reads_def)

lemma reads_step: "reads e tx n c \<Longrightarrow> step_on tx ns e e' \<Longrightarrow> reads e' tx n c"
  unfolding reads_def step_on_def frame_def by (metis option.map_disc_iff)

text \<open>Moving a cursor.\<close>

lemma cursor_moves:
  assumes ok: "lmdb_ok bsize L" and r: "reads e tx n c"
    and g: "mdb_cursor_get L c op k v e = (rc, k', v', e')"
    and key: "op \<in> {MDB_SET, MDB_GET_BOTH} \<longrightarrow> key_size_ok bsize k"
  defines "t \<equiv> store_tree e tx n"
  defines "pos \<equiv> case env_cursors e c of Some cu \<Rightarrow> cu_pos cu | None \<Rightarrow> None"
  shows "step_on tx {} e e' \<and> (\<forall>c'. c' \<noteq> c \<longrightarrow> env_cursors e' c' = env_cursors e c')
    \<and> (rc = EINVAL
      \<or> rc = MDB_NOTFOUND \<and> get_target (env_cmp e n) op k v t pos = None
      \<or> rc = MDB_SUCCESS \<and> (\<exists>i. get_target (env_cmp e n) op k v t pos = Some i
           \<and> (k', v') = t ! i \<and> at_record e' tx n c i))"
proof -
  obtain cu db where o: "env_cursors e c = Some cu" "cu_txn cu = tx" "cu_db cu = n"
    "txn_db e tx n = Some db" "t = db_tree db" "pos = cu_pos cu"
    using r by (auto simp: reads_def cursor_home_def store_tree_def t_def pos_def)
  have "get_spec bsize L" using ok by (simp add: lmdb_ok_def)
  from this [unfolded get_spec_def, rule_format, of e c cu db op k v rc k' v' e'] o g key
  obtain pos' where p: "frame e e'" "env_txns e' = env_txns e"
    "env_cursors e' = (env_cursors e)(c \<mapsto> cu\<lparr>cu_pos := pos'\<rparr>)"
    "rc = MDB_SUCCESS \<longrightarrow> get_target (env_cmp e n) op k v t pos = pos'
       \<and> (\<exists>i. pos' = Some i \<and> (k', v') = t ! i)"
    "rc = MDB_NOTFOUND \<longrightarrow> get_target (env_cmp e n) op k v t pos = None"
    "rc \<in> {MDB_SUCCESS, MDB_NOTFOUND, EINVAL}"
    by (auto simp: Let_def)
  have step: "step_on tx {} e e'" using p(1,2) by (rule get_step)
  have tr: "store_tree e' tx n = t" using step_on_tree [OF step] by (simp add: t_def)
  have "rc = MDB_SUCCESS \<Longrightarrow> \<exists>i. get_target (env_cmp e n) op k v t pos = Some i
           \<and> (k', v') = t ! i \<and> at_record e' tx n c i"
    using p(3,4) tr o by (auto simp: at_record_def dest: get_target_less)
  then show ?thesis using p step by auto
qed

lemma cursor_seek:
  assumes "lmdb_ok bsize L" and "reads e tx n c"
    and "mdb_cursor_get L c op k v e = (rc, k', v', e')"
    and "op \<in> {MDB_SET, MDB_GET_BOTH} \<longrightarrow> key_size_ok bsize k"
    and op: "op \<notin> {MDB_NEXT, MDB_NEXT_DUP}"
  shows "step_on tx {} e e' \<and> (\<forall>c'. c' \<noteq> c \<longrightarrow> env_cursors e' c' = env_cursors e c')
    \<and> (rc = EINVAL
      \<or> rc = MDB_NOTFOUND \<and> get_target (env_cmp e n) op k v (store_tree e tx n) None = None
      \<or> rc = MDB_SUCCESS \<and> (\<exists>i. get_target (env_cmp e n) op k v (store_tree e tx n) None = Some i
           \<and> (k', v') = store_tree e tx n ! i \<and> at_record e' tx n c i))"
proof -
  have "get_target cmp op k v t pos = get_target cmp op k v t None" for cmp t pos
    using op by (cases op) (simp_all add: get_target_def)
  then show ?thesis using cursor_moves [OF assms(1-4)] by metis
qed

text \<open>Moving on from a record.\<close>

lemma cursor_next:
  assumes "lmdb_ok bsize L" and "reads e tx n c"
    and g: "mdb_cursor_get L c op k v e = (rc, k', v', e')" and op: "op \<in> {MDB_NEXT, MDB_NEXT_DUP}"
    and i: "at_record e tx n c i"
  defines "t \<equiv> store_tree e tx n"
  defines "further \<equiv> Suc i < length t \<and> (op = MDB_NEXT_DUP \<longrightarrow> fst (t ! Suc i) = fst (t ! i))"
  shows "step_on tx {} e e' \<and> (\<forall>c'. c' \<noteq> c \<longrightarrow> env_cursors e' c' = env_cursors e c')
    \<and> (rc = EINVAL \<or> rc = MDB_NOTFOUND \<and> \<not> further
      \<or> rc = MDB_SUCCESS \<and> further \<and> (k', v') = t ! Suc i \<and> at_record e' tx n c (Suc i))"
proof -
  have "op \<in> {MDB_SET, MDB_GET_BOTH} \<longrightarrow> key_size_ok bsize k" using op by auto
  note m = cursor_moves [OF assms(1,2) g this, folded t_def]
  have tg: "get_target (env_cmp e n) op k v t (case env_cursors e c of Some cu \<Rightarrow> cu_pos cu | None \<Rightarrow> None)
      = (if further then Some (Suc i) else None)"
    using op i by (auto simp: get_target_def further_def at_record_def)
  show ?thesis using m unfolding tg by (auto split: if_splits)
qed

lemma store_put:
  assumes ok: "lmdb_ok bsize L" and st: "store_ok names ts tx e" "(n, dup) \<in> set names"
    and c: "map_of ts n = Some (d, c)"
    and g: "mdb_cursor_put L c k v [] e = (rc, e')"
    and size: "put_size_ok bsize dup (store_tree e tx n) k v"
  shows "step_on tx {n} e e' \<and> rc \<in> put_codes
    \<and> (rc = MDB_SUCCESS \<longrightarrow> put_effect dup (env_cmp e n) k v (store_tree e tx n) (store_tree e' tx n))"
proof -
  obtain cu db where o: "env_cursors e c = Some cu" "cu_txn cu = tx" "cu_db cu = n"
    "txn_db e tx n = Some db" "store_tree e tx n = db_tree db" "db_dup db = dup"
    using store_cursor [OF st c] by blast
  have "put_spec bsize L" using ok by (simp add: lmdb_ok_def)
  from this [unfolded put_spec_def, rule_format, of e c cu db k v "[]" rc e'] o g size
  obtain t' where p: "frame e e'" "env_txns e' = upd_tree tx n t' (env_txns e)"
    "rc \<in> put_codes" "rc = MDB_SUCCESS \<longrightarrow> put_effect dup (env_cmp e n) k v (db_tree db) t'"
    by (auto simp: Let_def)
  show ?thesis using upd_tree_step [OF p(1,2)] upd_tree_tree [OF p(2) o(4)] p(3,4) o(5) by simp
qed

lemma store_put_current:
  assumes ok: "lmdb_ok bsize L" and st: "store_ok names ts tx e" "(n, dup) \<in> set names"
    and c: "map_of ts n = Some (d, c)"
    and g: "mdb_cursor_put L c k v [MDB_CURRENT] e = (rc, e')"
    and size: "put_size_ok bsize dup (store_tree e tx n) k v"
    and i: "at_record e tx n c i" "fst (store_tree e tx n ! i) = k"
      "dup \<Longrightarrow> env_cmp e n v (snd (store_tree e tx n ! i)) = 0"
  shows "step_on tx {n} e e' \<and> rc \<in> put_codes
    \<and> (rc = MDB_SUCCESS \<longrightarrow> store_tree e' tx n = (store_tree e tx n)[i := (k, v)])"
proof -
  obtain cu db where o: "env_cursors e c = Some cu" "cu_txn cu = tx" "cu_db cu = n"
    "txn_db e tx n = Some db" "store_tree e tx n = db_tree db" "db_dup db = dup"
    using store_cursor [OF st c] by blast
  have "put_spec bsize L" using ok by (simp add: lmdb_ok_def)
  from this [unfolded put_spec_def, rule_format, of e c cu db k v "[MDB_CURRENT]" rc e'] o g
  obtain t' where p: "frame e e'" "env_txns e' = upd_tree tx n t' (env_txns e)"
    "\<forall>i. put_size_ok bsize dup (db_tree db) k v \<and> cu_pos cu = Some i \<and> i < length (db_tree db)
       \<and> fst (db_tree db ! i) = k \<and> (dup \<longrightarrow> env_cmp e n v (snd (db_tree db ! i)) = 0) \<longrightarrow>
       rc \<in> put_codes \<and> (rc = MDB_SUCCESS \<longrightarrow> t' = (db_tree db)[i := (k, v)])"
    by (auto simp: Let_def)
  have "rc \<in> put_codes \<and> (rc = MDB_SUCCESS \<longrightarrow> t' = (db_tree db)[i := (k, v)])"
    using p(3) i o size by (auto simp: at_record_def)
  then show ?thesis using upd_tree_step [OF p(1,2)] upd_tree_tree [OF p(2) o(4)] o(5) by simp
qed

lemma store_del:
  assumes ok: "lmdb_ok bsize L" and st: "store_ok names ts tx e" "(n, dup) \<in> set names"
    and c: "map_of ts n = Some (d, c)"
    and g: "mdb_cursor_del L c fl e = (rc, e')"
    and i: "at_record e tx n c i"
  defines "t \<equiv> store_tree e tx n"
  shows "step_on tx {n} e e' \<and> rc \<in> {MDB_SUCCESS, EACCES, EINVAL}
    \<and> (rc = MDB_SUCCESS \<longrightarrow>
         (fl = [] \<longrightarrow> store_tree e' tx n = take i t @ drop (Suc i) t)
         \<and> (fl = [MDB_NODUPDATA] \<longrightarrow> store_tree e' tx n = filter (\<lambda>r. fst r \<noteq> fst (t ! i)) t))"
proof -
  obtain cu db where o: "env_cursors e c = Some cu" "cu_txn cu = tx" "cu_db cu = n"
    "txn_db e tx n = Some db" "store_tree e tx n = db_tree db" "db_dup db = dup"
    using store_cursor [OF st c] by blast
  have "del_spec L" using ok by (simp add: lmdb_ok_def)
  from this [unfolded del_spec_def, rule_format, of e c cu db fl rc e'] o g
  obtain t' where p: "frame e e'" "env_txns e' = upd_tree tx n t' (env_txns e)"
    "rc \<in> {MDB_SUCCESS, EACCES, EINVAL}"
    "rc = MDB_SUCCESS \<longrightarrow> (\<exists>i. cu_pos cu = Some i \<and> i < length (db_tree db)
       \<and> (fl = [] \<longrightarrow> t' = take i (db_tree db) @ drop (Suc i) (db_tree db))
       \<and> (fl = [MDB_NODUPDATA] \<longrightarrow> t' = filter (\<lambda>r. fst r \<noteq> fst (db_tree db ! i)) (db_tree db)))"
    unfolding Let_def by blast
  show ?thesis
    using upd_tree_step [OF p(1,2)] upd_tree_tree [OF p(2) o(4)] o p(3,4) i
    by (auto simp: at_record_def t_def)
qed

lemma store_append:
  assumes ok: "lmdb_ok bsize L" and st: "store_ok names ts tx e" "(n, False) \<in> set names"
    and c: "map_of ts n = Some (d, c)"
    and g: "mdb_cursor_put L c k v fl e = (rc, e')"
    and fl: "MDB_APPEND \<in> set fl" "set fl \<subseteq> {MDB_APPEND, MDB_NOOVERWRITE}"
    and key: "key_size_ok bsize k"
  shows "step_on tx {n} e e' \<and> rc \<in> insert MDB_KEYEXIST put_codes
    \<and> (rc = MDB_SUCCESS \<longrightarrow> store_tree e' tx n = store_tree e tx n @ [(k, v)])
    \<and> (rc = MDB_KEYEXIST \<longrightarrow> (\<exists>k0 \<in> tkeys (store_tree e tx n). \<not> num_less k0 k))"
proof -
  obtain cu db where o: "env_cursors e c = Some cu" "cu_txn cu = tx" "cu_db cu = n"
    "txn_db e tx n = Some db" "store_tree e tx n = db_tree db" "\<not> db_dup db"
    using store_cursor [OF st c] by blast
  have size: "put_size_ok bsize (db_dup db) (db_tree db) k v"
    using key o(6) by (simp add: put_size_ok_def)
  have "put_spec bsize L" using ok by (simp add: lmdb_ok_def)
  from this [unfolded put_spec_def, rule_format, of e c cu db k v fl rc e'] o g
  obtain t' where p: "frame e e'" "env_txns e' = upd_tree tx n t' (env_txns e)"
    "put_size_ok bsize (db_dup db) (db_tree db) k v \<and> \<not> db_dup db \<and> MDB_APPEND \<in> set fl
       \<and> set fl \<subseteq> {MDB_APPEND, MDB_NOOVERWRITE} \<longrightarrow>
       rc \<in> insert MDB_KEYEXIST put_codes
       \<and> (rc = MDB_SUCCESS \<longrightarrow> t' = db_tree db @ [(k, v)] \<and> k \<notin> tkeys (db_tree db))
       \<and> (rc = MDB_KEYEXIST \<longrightarrow> (\<exists>k0 \<in> tkeys (db_tree db). \<not> num_less k0 k))"
    unfolding Let_def by blast
  then show ?thesis
    using upd_tree_step [OF p(1,2)] upd_tree_tree [OF p(2) o(4)] o(5,6) size fl by simp
qed

lemma store_drop:
  assumes ok: "lmdb_ok bsize L" and st: "store_ok names ts tx e" "(n, dup) \<in> set names"
    and c: "map_of ts n = Some (d, c)" and g: "mdb_drop L tx d e = (rc, e')"
  shows "step_on tx {n} e e' \<and> rc \<in> {MDB_SUCCESS, EINVAL}
    \<and> (rc = MDB_SUCCESS \<longrightarrow> store_tree e' tx n = [])"
proof -
  obtain db where o: "env_dbis e d = Some n" "txn_db e tx n = Some db"
    using store_okD [OF st] c by auto
  have ro: "\<not> txn_rdonly (the (env_txns e tx))" using st(1) by (auto simp: store_ok_def)
  have "drop_spec L" using ok by (simp add: lmdb_ok_def)
  from this [unfolded drop_spec_def, rule_format, of e d n tx db rc e'] o ro g
  obtain t' where p: "frame e e'" "env_txns e' = upd_tree tx n t' (env_txns e)"
    "rc \<in> {MDB_SUCCESS, EINVAL}" "rc = MDB_SUCCESS \<longrightarrow> t' = []" by blast
  then show ?thesis using upd_tree_step [OF p(1,2)] upd_tree_tree [OF p(2) o(2)] by simp
qed

section \<open>Reading a whole tree\<close>

lemma records_loop_ok:
  assumes L: "lmdb_ok bsize L"
  shows "reads e tx n c \<Longrightarrow> at_record e tx n c i \<Longrightarrow> (k, v) = store_tree e tx n ! i \<Longrightarrow>
    \<exists>r e'. records_loop L c k v ret e = Some (r, e') \<and> step_on tx {} e e'
      \<and> (r = Inl (InternalError FATAL) \<or> r = Inr (ret @ drop i (store_tree e tx n)))"
proof (induction "length (store_tree e tx n) - i" arbitrary: i e k v ret)
  case 0
  then show ?case by (simp add: at_record_def)
next
  case (Suc m)
  let ?t = "store_tree e tx n"
  have il: "i < length ?t" using Suc.prems(2) by (simp add: at_record_def)
  obtain rc k' v' e1 where g: "mdb_cursor_get L c MDB_NEXT k v e = (rc, k', v', e1)"
    by (metis prod_cases4)
  have sn: "step_on tx {} e e1" "rc = EINVAL \<or> rc = MDB_NOTFOUND \<and> \<not> Suc i < length ?t
      \<or> rc = MDB_SUCCESS \<and> Suc i < length ?t \<and> (k', v') = ?t ! Suc i \<and> at_record e1 tx n c (Suc i)"
    using cursor_next [OF L Suc.prems(1) g _ Suc.prems(2)] by auto
  have t1: "store_tree e1 tx n = ?t" using step_on_tree [OF sn(1)] by simp
  have dr: "drop i ?t = (k, v) # drop (Suc i) ?t"
    using il Suc.prems(3) by (simp add: Cons_nth_drop_Suc)
  consider "rc = EINVAL" | "rc = MDB_NOTFOUND" "\<not> Suc i < length ?t"
    | "rc = MDB_SUCCESS" "Suc i < length ?t" "(k', v') = ?t ! Suc i" "at_record e1 tx n c (Suc i)"
    using sn(2) by metis
  then show ?case
  proof cases
    case 1
    then have "records_loop L c k v ret e = Some (Inl (InternalError FATAL), e1)"
      by (simp add: records_loop.simps g)
    then show ?thesis using sn(1) by blast
  next
    case 2
    then have "records_loop L c k v ret e = Some (Inr (ret @ drop i ?t), e1)"
      by (simp add: records_loop.simps g dr)
    then show ?thesis using sn(1) by blast
  next
    case 3
    have m: "m = length (store_tree e1 tx n) - Suc i" using Suc.hyps(2) t1 by simp
    obtain r e2 where r: "records_loop L c k' v' (ret @ [(k, v)]) e1 = Some (r, e2)"
      "step_on tx {} e1 e2" "r = Inl (InternalError FATAL) \<or> r = Inr ((ret @ [(k, v)]) @ drop (Suc i) ?t)"
      using Suc.hyps(1) [OF m reads_step [OF Suc.prems(1) sn(1)], of k' v' "ret @ [(k, v)]"] 3 t1 by auto
    have "records_loop L c k v ret e = Some (r, e2)"
      using 3(1) r(1) by (subst records_loop.simps) (simp add: g)
    then show ?thesis using step_on_trans [OF sn(1) r(2)] r(3) by (simp add: dr)
  qed
qed

lemma read_all_ok:
  assumes L: "lmdb_ok bsize L" and c: "reads e tx n c"
  shows "\<exists>r e'. read_all_records L c (e, s) = (r, (e', s)) \<and> step_on tx {} e e'
    \<and> (r = Inl (InternalError FATAL) \<or> r = Inr (store_tree e tx n))"
proof -
  let ?t = "store_tree e tx n"
  obtain rc k v e1 where g: "mdb_cursor_get L c MDB_FIRST (IStr []) (IStr []) e = (rc, k, v, e1)"
    by (metis prod_cases4)
  have tg: "get_target (env_cmp e n) MDB_FIRST (IStr []) (IStr []) ?t None = (if ?t = [] then None else Some 0)"
    by (simp add: get_target_def)
  have sg: "step_on tx {} e e1" "rc = EINVAL \<or> rc = MDB_NOTFOUND \<and> ?t = []
      \<or> rc = MDB_SUCCESS \<and> (k, v) = ?t ! 0 \<and> at_record e1 tx n c 0"
    using cursor_seek [OF L c g] unfolding tg by (auto split: if_splits)
  have t1: "store_tree e1 tx n = ?t" using step_on_tree [OF sg(1)] by simp
  have run: "read_all_records L c (e, s) = (if rc = MDB_NOTFOUND then (Inr [], (e1, s))
      else if rc = EINVAL then (Inl (InternalError FATAL), (e1, s))
      else loopS (records_loop L c k v []) (e1, s))"
    by (simp add: read_all_records_def bindS_def cursor_get_def g critical_def result_simps)
  consider "rc = EINVAL" | "rc = MDB_NOTFOUND" "?t = []"
    | "rc = MDB_SUCCESS" "(k, v) = ?t ! 0" "at_record e1 tx n c 0"
    using sg(2) by metis
  then show ?thesis
  proof cases
    case 3
    obtain r e2 where "records_loop L c k v [] e1 = Some (r, e2)" "step_on tx {} e1 e2"
      "r = Inl (InternalError FATAL) \<or> r = Inr ?t"
      using records_loop_ok [OF L reads_step [OF c sg(1)] 3(3), of k v "[]"] 3(2) t1 by auto
    then show ?thesis using run 3(1) step_on_trans [OF sg(1)] by (auto simp: loopS_def)
  qed (use run sg(1) in auto)
qed

section \<open>Components that share an environment\<close>

text \<open>
  A component keeps some trees of a transaction: what it relies on and what they mean to it is not
  affected by a step on other trees.  Two components with different trees can be used one after
  the other; a step of the one leaves the other as it was.
\<close>

locale store_part =
  fixes names :: "string set"
    and ok :: "('b, 'x) env \<Rightarrow> 's \<Rightarrow> bool"
    and view :: "('b, 'x) env \<Rightarrow> 's \<Rightarrow> 'v"
    and txn :: "'s \<Rightarrow> nat"
  assumes other: "ok e s \<Longrightarrow> step_on (txn s) ns e e' \<Longrightarrow> names \<inter> ns = {} \<Longrightarrow>
      ok e' s \<and> view e' s = view e s"

locale two_stores = one: store_part names1 ok1 view1 txn1 + two: store_part names2 ok2 view2 txn2
  for names1 and ok1 :: "('b, 'x) env \<Rightarrow> 's \<Rightarrow> bool" and view1 :: "('b, 'x) env \<Rightarrow> 's \<Rightarrow> 'v" and txn1
    and names2 and ok2 :: "('b, 'x) env \<Rightarrow> 't \<Rightarrow> bool" and view2 :: "('b, 'x) env \<Rightarrow> 't \<Rightarrow> 'w" and txn2 +
  assumes apart: "names1 \<inter> names2 = {}"
begin

lemma step_one:
  assumes "ok2 e t" "step_on (txn1 s) ns e e'" "ns \<subseteq> names1" "txn1 s = txn2 t"
  shows "ok2 e' t" "view2 e' t = view2 e t"
  using two.other [OF assms(1), of ns e'] assms(2-4) apart by auto

lemma step_two:
  assumes "ok1 e s" "step_on (txn2 t) ns e e'" "ns \<subseteq> names2" "txn1 s = txn2 t"
  shows "ok1 e' s" "view1 e' s = view1 e s"
  using one.other [OF assms(1), of ns e'] assms(2-4) apart by auto

end

end
