(* ===== verification/Wsv.thy ===== *)
theory Wsv
  imports Common Currency "HOL-Library.AList"
begin

text \<open>
  The class \<^verbatim>\<open>WSV\<close> (\<^verbatim>\<open>include/ametsuchi/wsv.h\<close>, \<^verbatim>\<open>src/ametsuchi/wsv.cc\<close>): the current state of
  the ledger, kept in four trees (assets by account, accounts, created assets, peers), and the
  table of created assets in memory.
\<close>

section \<open>State\<close>

text \<open>\<^verbatim>\<open>created_assets_\<close> is an \<^verbatim>\<open>unordered_map\<close>, here a function.\<close>

record 'b wsv =
  w_trees :: trees
  w_append_tx :: nat
  w_trees_total :: nat
  w_created_assets :: "string \<Rightarrow> 'b option"

type_synonym ('b, 'x, 'a) wsv_op = "('b, 'x, 'b wsv, 'a) store_op"

definition wsv_new :: "'b wsv" where
  "wsv_new = \<lparr>w_trees = [], w_append_tx = 0, w_trees_total = 0, w_created_assets = (\<lambda>_. None)\<rparr>"

definition wsv_tree :: "string \<Rightarrow> ('b, 'x, nat \<times> nat) wsv_op" where
  "wsv_tree n = bindS getS (\<lambda>(e, w). trees_at (w_trees w) n)"

definition modify_wsv :: "('b wsv \<Rightarrow> 'b wsv) \<Rightarrow> ('b, 'x, unit) wsv_op" where
  "modify_wsv f = modifyS (\<lambda>(e, w). (e, f w))"

definition wsv_get_trees_total :: "('b, 'x, nat) wsv_op" where
  "wsv_get_trees_total = bindS (modify_wsv (\<lambda>w. w\<lparr>w_trees_total := 4\<rparr>)) (\<lambda>_. returnS 4)"

section \<open>Opening and closing\<close>

text \<open>A record of the tree of created assets, its key read as a string.\<close>

fun created_step :: "'b item \<times> 'b item \<Rightarrow> (string \<Rightarrow> 'b option) \<Rightarrow> error + (string \<Rightarrow> 'b option)" where
  "created_step (IStr s, IBlob b) m = Inr (m(s \<mapsto> b))"
| "created_step _ m = Inl Undefined"

definition read_created_assets :: "('b, 'x) lmdb \<Rightarrow> ('b, 'x, unit) wsv_op" where
  "read_created_assets L =
     bindS (wsv_tree ''wsv_assetid_asset'') (\<lambda>(dbi, cursor).
     bindS (read_all_records L cursor) (\<lambda>records.
     case foldR created_step records (\<lambda>_. None) of
       Inl err \<Rightarrow> throwS err
     | Inr m \<Rightarrow> modify_wsv (\<lambda>w. w\<lparr>w_created_assets := m\<rparr>)))"

definition wsv_open_tree :: "('b, 'x) lmdb \<Rightarrow> nat \<Rightarrow> string \<Rightarrow> db_flag list \<Rightarrow>
    ('b item \<Rightarrow> 'b item \<Rightarrow> int) option \<Rightarrow> ('b, 'x, unit) wsv_op" where
  "wsv_open_tree L tx name flags dupsort =
     bindS (init_btree L tx name flags dupsort) (\<lambda>h.
     modify_wsv (\<lambda>w. w\<lparr>w_trees := AList.update name h (w_trees w)\<rparr>))"

definition wsv_init :: "'b fb \<Rightarrow> ('b, 'x) lmdb \<Rightarrow> nat \<Rightarrow> ('b, 'x, unit) wsv_op" where
  "wsv_init F L append_tx =
     bindS (modify_wsv (\<lambda>w. w\<lparr>w_append_tx := append_tx\<rparr>)) (\<lambda>_.
     bindS (wsv_open_tree L append_tx ''wsv_pubkey_assets'' [MDB_DUPSORT, MDB_DUPFIXED, MDB_CREATE]
              (Some (cmp_assets F))) (\<lambda>_.
     bindS (wsv_open_tree L append_tx ''wsv_pubkey_account'' [MDB_CREATE] None) (\<lambda>_.
     bindS (wsv_open_tree L append_tx ''wsv_assetid_asset'' [MDB_CREATE] None) (\<lambda>_.
     bindS (wsv_open_tree L append_tx ''wsv_ip_peer'' [MDB_CREATE] None) (\<lambda>_.
     bindS (read_created_assets L) (\<lambda>_.
     bindS wsv_get_trees_total (\<lambda>n.
     bindS getS (\<lambda>(e, w). assertS (n = length (w_trees w))))))))))"

definition wsv_close_cursors :: "('b, 'x) lmdb \<Rightarrow> ('b, 'x, unit) wsv_op" where
  "wsv_close_cursors L = bindS getS (\<lambda>(e, w). envS (close_all L (w_trees w)))"

definition wsv_close_dbi :: "('b, 'x) lmdb \<Rightarrow> ('b, 'x, unit) wsv_op" where
  "wsv_close_dbi L = bindS getS (\<lambda>(e, w). envS (close_dbis L (w_trees w)))"

section \<open>Queries\<close>

text \<open>
  The cursor of a query: the append cursor, or one in a read transaction of its own.  The
  second component is the read transaction.  \<^verbatim>\<open>env\<close> is the null pointer when \<open>has_env\<close> is false.
\<close>

definition query_cursor :: "('b, 'x) lmdb \<Rightarrow> bool \<Rightarrow> bool \<Rightarrow> nat \<times> nat \<Rightarrow>
    ('b, 'x, 's, nat \<times> nat) store_op" where
  "query_cursor L uncommitted has_env h =
     (if uncommitted then returnS (snd h, 0)
      else if \<not> has_env then throwS Undefined
      else (\<lambda>(e, s).
        case mdb_txn_begin L True e of (res, tx, e1) \<Rightarrow>
        bindS (critical res [MDB_PANIC, MDB_MAP_RESIZED, MDB_READERS_FULL, ENOMEM]) (\<lambda>_ (e1, s).
          case mdb_cursor_open L tx (fst h) e1 of (res, cursor, e2) \<Rightarrow>
          bindS (critical res [EINVAL]) (\<lambda>_. returnS (cursor, tx)) (e2, s)) (e1, s)))"

definition end_query :: "('b, 'x) lmdb \<Rightarrow> bool \<Rightarrow> nat \<Rightarrow> nat \<Rightarrow> ('b, 'x, 's, unit) store_op" where
  "end_query L uncommitted cursor tx =
     whenS (\<not> uncommitted) (envS (\<lambda>e. mdb_txn_abort L tx (mdb_cursor_close L cursor e)))"

definition accountGetAsset :: "('b, 'x) lmdb \<Rightarrow> string \<Rightarrow> string \<Rightarrow> string \<Rightarrow> string \<Rightarrow>
    bool \<Rightarrow> bool \<Rightarrow> ('b, 'x, 'b item) wsv_op" where
  "accountGetAsset L pubKey ln dn an uncommitted has_env =
     bindS getS (\<lambda>(e, w).
     case w_created_assets w (asset_pk ln dn an) of
       None \<Rightarrow> throwS (InvalidTransaction ASSET_NOT_FOUND)
     | Some blob \<Rightarrow>
         bindS (wsv_tree ''wsv_pubkey_assets'') (\<lambda>h.
         bindS (query_cursor L uncommitted has_env h) (\<lambda>(cursor, tx).
         bindS (cursor_get L cursor MDB_GET_BOTH (IStr pubKey) (IBlob blob)) (\<lambda>(res, k, v).
         bindS (whenS (res = MDB_NOTFOUND) (throwS (InvalidTransaction ASSET_NOT_FOUND))) (\<lambda>_.
         bindS (critical res [EINVAL]) (\<lambda>_.
         bindS (end_query L uncommitted cursor tx) (\<lambda>_.
         returnS v)))))))"

text \<open>
  The loop of \<^verbatim>\<open>accountGetAllAssets\<close> over the values of a key; the flag is false when it ended
  with a code that is not handled, after which the query closes its cursor.
\<close>

partial_function (option) dup_loop :: "('b, 'x) lmdb \<Rightarrow> nat \<Rightarrow> 'b item \<Rightarrow> 'b item \<Rightarrow>
    'b item list \<Rightarrow> ('b, 'x) env \<Rightarrow>
    ((error + 'b item list \<times> bool) \<times> ('b, 'x) env) option" where
  "dup_loop L c k v ret e =
     (case mdb_cursor_get L c MDB_NEXT_DUP k v e of (res, k', v', e') \<Rightarrow>
        if res = MDB_NOTFOUND then Some (Inr (ret @ [v], True), e')
        else if res = EINVAL then Some (Inl (InternalError FATAL), e')
        else if res = MDB_SUCCESS then dup_loop L c k' v' (ret @ [v]) e'
        else Some (Inr (ret @ [v], False), e'))"

definition accountGetAllAssets :: "('b, 'x) lmdb \<Rightarrow> string \<Rightarrow> bool \<Rightarrow> bool \<Rightarrow>
    ('b, 'x, 'b item list) wsv_op" where
  "accountGetAllAssets L pubKey uncommitted has_env =
     bindS (wsv_tree ''wsv_pubkey_assets'') (\<lambda>h.
     bindS (query_cursor L uncommitted has_env h) (\<lambda>(cursor, tx).
     bindS (cursor_get L cursor MDB_SET (IStr pubKey) (IStr [])) (\<lambda>(res, k, v).
     if res = MDB_NOTFOUND then returnS []
     else
       bindS (critical res [EINVAL]) (\<lambda>_.
       bindS (loopS (dup_loop L cursor k v [])) (\<lambda>(ret, early).
       bindS (whenS (\<not> early) (end_query L uncommitted cursor tx)) (\<lambda>_.
       returnS ret))))))"

section \<open>Commands\<close>

definition asset_create :: "'b fb \<Rightarrow> ('b, 'x) lmdb \<Rightarrow> string \<Rightarrow> string \<Rightarrow> string \<Rightarrow>
    ('b, 'x, unit) wsv_op" where
  "asset_create F L an dn ln =
     (let pk = asset_pk ln dn an;
          asset = fb_create_currency F (c_str an) (c_str dn) (c_str ln)
      in bindS (wsv_tree ''wsv_assetid_asset'') (\<lambda>(dbi, cursor).
         bindS (cursor_put L cursor (IStr pk) (IBlob asset) []) (\<lambda>res.
         bindS (whenS (res = MDB_KEYEXIST) (throwS (InvalidTransaction ASSET_EXISTS))) (\<lambda>_.
         bindS (critical res [MDB_MAP_FULL, MDB_TXN_FULL, EACCES, EINVAL]) (\<lambda>_.
         modify_wsv (\<lambda>w. w\<lparr>w_created_assets := (w_created_assets w)(pk \<mapsto> asset)\<rparr>))))))"

text \<open>A buffer read as an asset that holds a currency: anything else is a null pointer.\<close>

definition as_currency :: "'b fb \<Rightarrow> 'b item \<Rightarrow> ('s, 'b \<times> currency_fb) op" where
  "as_currency F i = (case i of
       IBlob b \<Rightarrow> (case fb_asset F b of CurrencyAsset cy \<Rightarrow> returnS (b, cy) | _ \<Rightarrow> throwS Undefined)
     | _ \<Rightarrow> throwS Undefined)"

definition liftR :: "error + 'a \<Rightarrow> ('s, 'a) op" where
  "liftR r = (case r of Inl err \<Rightarrow> throwS err | Inr x \<Rightarrow> returnS x)"

text \<open>
  The amount and precision of \<^verbatim>\<open>current\<close> written into the copy of the stored buffer.
\<close>

definition store_amount :: "'b fb \<Rightarrow> 'b \<Rightarrow> currency \<Rightarrow> 'b" where
  "store_amount F copy current =
     fb_mutate_precision F (fb_mutate_amount F copy (get_amount current)) (get_precision current)"

text \<open>The part of \<^verbatim>\<open>account_add_currency\<close> inside the \<^verbatim>\<open>try\<close> block.\<close>

definition add_currency_try :: "'b fb \<Rightarrow> ('b, 'x) lmdb \<Rightarrow> nat \<Rightarrow> string \<Rightarrow> 'b \<Rightarrow> currency_fb \<Rightarrow>
    ('b, 'x, unit) wsv_op" where
  "add_currency_try F L cursor acc_pub_key asset_fb cy =
     bindS (accountGetAsset L acc_pub_key (cy_ledger_name cy) (cy_domain_name cy)
              (cy_currency_name cy) True False) (\<lambda>account_asset.
     bindS (assertS (fb_size F asset_fb = item_size (fb_size F) account_asset)) (\<lambda>_.
     bindS (as_currency F account_asset) (\<lambda>(copy, copy_cur).
     bindS (liftR (mk_currency (read_amount copy_cur) (read_precision copy_cur))) (\<lambda>current.
     bindS (liftR (mk_currency (read_amount cy) (read_precision cy))) (\<lambda>delta.
     bindS (liftR (currency_add current delta)) (\<lambda>current.
     bindS (cursor_put L cursor (IStr acc_pub_key) (IBlob (store_amount F copy current)) [MDB_CURRENT])
       (\<lambda>res. critical res [MDB_KEYEXIST, MDB_MAP_FULL, MDB_TXN_FULL, EACCES, EINVAL])))))))"

definition account_add_currency :: "'b fb \<Rightarrow> ('b, 'x) lmdb \<Rightarrow> string \<Rightarrow> 'b \<Rightarrow> ('b, 'x, unit) wsv_op" where
  "account_add_currency F L acc_pub_key asset_fb =
     bindS (wsv_tree ''wsv_pubkey_assets'') (\<lambda>(dbi, cursor).
     bindS (as_currency F (IBlob asset_fb)) (\<lambda>(b, cy) s.
     case add_currency_try F L cursor acc_pub_key asset_fb cy s of
       (Inr r, s') \<Rightarrow> (Inr r, s')
     | (Inl err, s') \<Rightarrow>
         (if err = InvalidTransaction ASSET_NOT_FOUND
          then bindS (cursor_put L cursor (IStr acc_pub_key) (IBlob asset_fb) [])
                 (\<lambda>res. critical res [MDB_MAP_FULL, MDB_TXN_FULL, EACCES, EINVAL]) s'
          else (Inl err, s'))))"

definition account_remove_currency :: "'b fb \<Rightarrow> ('b, 'x) lmdb \<Rightarrow> string \<Rightarrow> 'b \<Rightarrow>
    ('b, 'x, unit) wsv_op" where
  "account_remove_currency F L acc_pub_key asset_fb =
     bindS (wsv_tree ''wsv_pubkey_assets'') (\<lambda>(dbi, cursor).
     bindS (as_currency F (IBlob asset_fb)) (\<lambda>(b, cy).
     bindS (accountGetAsset L acc_pub_key (cy_ledger_name cy) (cy_domain_name cy)
              (cy_currency_name cy) True False) (\<lambda>account_asset.
     bindS (assertS (fb_size F asset_fb = item_size (fb_size F) account_asset)) (\<lambda>_.
     bindS (as_currency F account_asset) (\<lambda>(copy, copy_cur).
     bindS (liftR (mk_currency (read_amount copy_cur) (read_precision copy_cur))) (\<lambda>current.
     bindS (liftR (mk_currency (read_amount cy) (read_precision cy))) (\<lambda>delta.
     bindS (whenS (currency_less current delta) (throwS (InvalidTransaction NOT_ENOUGH_ASSETS))) (\<lambda>_.
     bindS (liftR (currency_sub current delta)) (\<lambda>current.
     bindS (cursor_put L cursor (IStr acc_pub_key) (IBlob (store_amount F copy current)) [MDB_CURRENT])
       (\<lambda>res. critical res [MDB_KEYEXIST, MDB_MAP_FULL, MDB_TXN_FULL, EACCES, EINVAL]))))))))))"

text \<open>\<^verbatim>\<open>asset_nested_root()->asset_type() != iroha::AnyAsset::Currency\<close>.\<close>

definition is_currency :: "'b fb \<Rightarrow> 'b \<Rightarrow> bool" where
  "is_currency F b = (case fb_asset F b of CurrencyAsset _ \<Rightarrow> True | _ \<Rightarrow> False)"

definition asset_add :: "'b fb \<Rightarrow> ('b, 'x) lmdb \<Rightarrow> string \<Rightarrow> 'b \<Rightarrow> ('b, 'x, unit) wsv_op" where
  "asset_add F L accPubKey asset =
     (if \<not> is_currency F asset then throwS (InternalError NOT_IMPLEMENTED)
      else account_add_currency F L accPubKey asset)"

definition asset_remove :: "'b fb \<Rightarrow> ('b, 'x) lmdb \<Rightarrow> string \<Rightarrow> 'b \<Rightarrow> ('b, 'x, unit) wsv_op" where
  "asset_remove F L accPubKey asset =
     (if \<not> is_currency F asset then throwS (InternalError NOT_IMPLEMENTED)
      else account_remove_currency F L accPubKey asset)"

definition asset_transfer :: "'b fb \<Rightarrow> ('b, 'x) lmdb \<Rightarrow> 'b \<Rightarrow> string \<Rightarrow> string \<Rightarrow>
    ('b, 'x, unit) wsv_op" where
  "asset_transfer F L asset sender receiver =
     (if \<not> is_currency F asset then throwS (InternalError NOT_IMPLEMENTED)
      else bindS (account_remove_currency F L sender asset)
             (\<lambda>_. account_add_currency F L receiver asset))"

definition account_add :: "'b fb \<Rightarrow> ('b, 'x) lmdb \<Rightarrow> 'b \<Rightarrow> ('b, 'x, unit) wsv_op" where
  "account_add F L account =
     bindS (wsv_tree ''wsv_pubkey_account'') (\<lambda>(dbi, cursor).
     bindS (cursor_put L cursor (IStr (fb_account_pubKey F account)) (IBlob account) []) (\<lambda>res.
     bindS (whenS (res = MDB_KEYEXIST) (throwS (InvalidTransaction ACCOUNT_EXISTS))) (\<lambda>_.
     critical res [MDB_MAP_FULL, MDB_TXN_FULL, EACCES, EINVAL])))"

definition account_remove :: "('b, 'x) lmdb \<Rightarrow> string option \<Rightarrow> ('b, 'x, unit) wsv_op" where
  "account_remove L pubkey = (case pubkey of
       None \<Rightarrow> throwS Undefined
     | Some pk \<Rightarrow>
         bindS (wsv_tree ''wsv_pubkey_account'') (\<lambda>(dbi, cursor).
         bindS (cursor_get L cursor MDB_SET (IStr pk) (IStr [])) (\<lambda>(res, c_key, c_val).
         bindS (whenS (res = MDB_NOTFOUND) (throwS (InvalidTransaction ACCOUNT_NOT_FOUND))) (\<lambda>_.
         bindS (critical res [EINVAL]) (\<lambda>_.
         bindS (cursor_del L cursor []) (\<lambda>res.
         bindS (critical res [EACCES, EINVAL]) (\<lambda>_.
         bindS (wsv_tree ''wsv_pubkey_assets'') (\<lambda>(dbi, cursor).
         bindS (cursor_get L cursor MDB_SET (IStr pk) c_val) (\<lambda>(res, c_key, c_val).
         bindS (critical res [EINVAL]) (\<lambda>_.
         if res = MDB_NOTFOUND then returnS ()
         else bindS (cursor_del L cursor [MDB_NODUPDATA])
                (\<lambda>res. critical res [EACCES, EINVAL])))))))))))"

definition peer_add :: "'b fb \<Rightarrow> ('b, 'x) lmdb \<Rightarrow> 'b \<Rightarrow> ('b, 'x, unit) wsv_op" where
  "peer_add F L peer =
     bindS (wsv_tree ''wsv_ip_peer'') (\<lambda>(dbi, cursor).
     case fb_peer_ip F peer of
       None \<Rightarrow> throwS Undefined
     | Some ip \<Rightarrow>
         bindS (cursor_put L cursor (IStr ip) (IBlob peer) []) (\<lambda>res.
         bindS (whenS (res = MDB_KEYEXIST) (throwS (InvalidTransaction PEER_EXISTS))) (\<lambda>_.
         critical res [MDB_MAP_FULL, MDB_TXN_FULL, EACCES, EINVAL])))"

definition peer_remove :: "'b fb \<Rightarrow> ('b, 'x) lmdb \<Rightarrow> 'b \<Rightarrow> ('b, 'x, unit) wsv_op" where
  "peer_remove F L peer =
     bindS (wsv_tree ''wsv_ip_peer'') (\<lambda>(dbi, cursor).
     case fb_peer_ip F peer of
       None \<Rightarrow> throwS Undefined
     | Some ip \<Rightarrow>
         bindS (cursor_get L cursor MDB_SET (IStr ip) (IBlob peer)) (\<lambda>(res, c_key, c_val).
         bindS (whenS (res = MDB_NOTFOUND) (throwS (InvalidTransaction PEER_NOT_FOUND))) (\<lambda>_.
         bindS (critical res [EINVAL]) (\<lambda>_.
         bindS (cursor_del L cursor []) (\<lambda>res.
         critical res [EACCES, EINVAL])))))"

definition wsv_update :: "'b fb \<Rightarrow> ('b, 'x) lmdb \<Rightarrow> 'b \<Rightarrow> ('b, 'x, unit) wsv_op" where
  "wsv_update F L blob = (case tx_command (fb_transaction F blob) of
       AssetCreate an dn ln \<Rightarrow> asset_create F L an dn ln
     | AssetAdd acc asset \<Rightarrow> asset_add F L acc asset
     | AssetRemove acc asset \<Rightarrow> asset_remove F L acc asset
     | AssetTransfer asset sender receiver \<Rightarrow> asset_transfer F L asset sender receiver
     | AccountAdd account \<Rightarrow> account_add F L account
     | AccountRemove pk \<Rightarrow> account_remove L pk
     | PeerAdd peer \<Rightarrow> peer_add F L peer
     | PeerRemove peer \<Rightarrow> peer_remove F L peer
     | _ \<Rightarrow> throwS (InternalError NOT_IMPLEMENTED))"

end
