(* ===== verification/Query_Sessions.thy ===== *)
theory Query_Sessions
  imports Store Wsv
begin

text \<open>
  What the queries of both stores have in common (\<^verbatim>\<open>wsv.cc\<close>, \<^verbatim>\<open>tx_store.cc\<close>): they read one tree
  either through the cursor of the append transaction or through a cursor in a read transaction
  of their own.  \<open>session\<close> describes the environment while such a query runs, whichever of the two
  it uses; the queries are then verified once for both.
\<close>

section \<open>What a query may leave behind\<close>

text \<open>Nothing but the positions of cursors has changed.\<close>

definition unchanged :: "('b, 'x) env \<Rightarrow> ('b, 'x) env \<Rightarrow> bool" where
  "unchanged e e' \<longleftrightarrow> frame e e' \<and> env_txns e' = env_txns e"

text \<open>Transactions and cursors may have been added.\<close>

definition extends :: "('b, 'x) env \<Rightarrow> ('b, 'x) env \<Rightarrow> bool" where
  "extends e e' \<longleftrightarrow> env_committed e' = env_committed e \<and> env_dbis e' = env_dbis e \<and> env_cmp e' = env_cmp e
     \<and> (\<forall>t x. env_txns e t = Some x \<longrightarrow> env_txns e' t = Some x)
     \<and> (\<forall>c h. cursor_home e c = Some h \<longrightarrow> cursor_home e' c = Some h)"

lemma unchanged_refl [simp]: "unchanged e e"
  by (simp add: unchanged_def frame_def)

lemma unchanged_extends: "unchanged e e' \<Longrightarrow> extends e e'"
  by (simp add: unchanged_def frame_def extends_def)

lemma unchanged_step: "unchanged e e' \<Longrightarrow> step_on tx {} e e'"
  unfolding unchanged_def by (blast intro: get_step)

lemma step_unchanged:
  assumes "step_on tx {} e e'"
  shows "unchanged e e'"
proof -
  have "env_txns e' t = env_txns e t" for t
  proof (cases "t = tx")
    case True
    have "map_option txn_rdonly (env_txns e' tx) = map_option txn_rdonly (env_txns e tx)"
      "txn_db e' tx = txn_db e tx" using assms by (auto simp: step_on_def)
    then show ?thesis unfolding True
      by (cases "env_txns e tx"; cases "env_txns e' tx") (auto simp: txn_db_def fun_eq_iff)
  qed (use assms in \<open>simp add: step_on_def\<close>)
  then show ?thesis using assms by (simp add: unchanged_def step_on_def fun_eq_iff)
qed

section \<open>Sessions\<close>

text \<open>The tree a query reads, in the append transaction \<open>tx0\<close> or as it was committed last.\<close>

definition query_tree :: "('b, 'x) env \<Rightarrow> nat \<Rightarrow> bool \<Rightarrow> string \<Rightarrow> 'b tree" where
  "query_tree e tx0 uncommitted n = (if uncommitted then store_tree e tx0 n else dbs_tree (env_committed e) n)"

definition openable :: "('b, 'x) env \<Rightarrow> nat \<Rightarrow> bool \<Rightarrow> string \<Rightarrow> nat \<times> nat \<Rightarrow> bool" where
  "openable e tx0 uncommitted n h \<longleftrightarrow>
     (if uncommitted then reads e tx0 n (snd h)
      else env_dbis e (fst h) = Some n \<and> env_committed e n \<noteq> None)"

definition session :: "nat \<Rightarrow> bool \<Rightarrow> ('b, 'x) env \<Rightarrow> ('b, 'x) env \<Rightarrow> string \<Rightarrow> nat \<Rightarrow> nat \<Rightarrow> bool" where
  "session tx0 uncommitted e e' n c tx \<longleftrightarrow>
     env_committed e' = env_committed e \<and> env_dbis e' = env_dbis e \<and> env_cmp e' = env_cmp e
     \<and> (if uncommitted then unchanged e e' \<and> reads e tx0 n c
        else env_txns e tx = None \<and> cursor_home e c = None \<and> env_committed e n \<noteq> None
          \<and> env_txns e' = (env_txns e)(tx \<mapsto> \<lparr>txn_rdonly = True, txn_dbs = env_committed e\<rparr>)
          \<and> cursor_home e' = (cursor_home e)(c \<mapsto> (tx, n)))"

abbreviation session_txn :: "nat \<Rightarrow> bool \<Rightarrow> nat \<Rightarrow> nat" where
  "session_txn tx0 uncommitted tx \<equiv> (if uncommitted then tx0 else tx)"

lemma session_reads:
  assumes "session tx0 u e e' n c tx"
  shows "reads e' (session_txn tx0 u tx) n c" "store_tree e' (session_txn tx0 u tx) n = query_tree e tx0 u n"
    "env_cmp e' = env_cmp e"
  using assms reads_step [of e tx0 n c "{}" e'] unchanged_step [of e e' tx0] step_on_tree [of tx0 "{}" e e' n]
  by (auto simp: session_def reads_def txn_db_def query_tree_def store_tree_def dbs_tree_def
      split: if_splits option.splits)

lemma session_extends: "session tx0 u e e' n c tx \<Longrightarrow> extends e e'"
  by (auto simp: session_def extends_def unchanged_def frame_def split: if_splits)

lemma session_unchanged: "session tx0 True e e' n c tx \<Longrightarrow> unchanged e e'"
  by (simp add: session_def)

lemma session_step:
  assumes "session tx0 u e e' n c tx" and "step_on tx' {} e' e2"
  shows "session tx0 u e e2 n c tx"
  using assms(1) step_unchanged [OF assms(2)] by (auto simp: session_def unchanged_def frame_def)

text \<open>Opening a session.\<close>

lemma query_cursor_session:
  assumes L: "lmdb_ok bsize L" and h: "openable e tx0 u n h" and env: "u \<or> has_env"
    and q: "query_cursor L u has_env h (e, s) = (r, (e', s'))"
  shows "s' = s \<and> (r = Inl (InternalError FATAL) \<and> extends e e' \<and> \<not> u
    \<or> (\<exists>c tx. r = Inr (c, tx) \<and> session tx0 u e e' n c tx \<and> (u \<longrightarrow> c = snd h \<and> e' = e)))"
proof (cases u)
  case True
  then show ?thesis using q h
    by (auto simp: query_cursor_def result_simps session_def openable_def)
next
  case False
  then have db: "env_dbis e (fst h) = Some n" "env_committed e n \<noteq> None" and "has_env"
    using h env by (simp_all add: openable_def)
  obtain rc tx e1 where b: "mdb_txn_begin L True e = (rc, tx, e1)" by (metis prod_cases3)
  have "begin_spec L" using L by (simp add: lmdb_ok_def)
  note bs = this [unfolded begin_spec_def, rule_format, OF b]
  show ?thesis
  proof (cases "rc = MDB_SUCCESS")
    case False
    then have "extends e e1" using bs by (simp add: extends_def frame_def)
    moreover have "rc \<in> {MDB_PANIC, MDB_MAP_RESIZED, MDB_READERS_FULL, ENOMEM}" using bs False by auto
    ultimately show ?thesis using q \<open>\<not> u\<close> \<open>has_env\<close>
      by (auto simp: query_cursor_def b bindS_def critical_def result_simps)
  next
    case True
    then have f: "frame e e1" "env_cursors e1 = env_cursors e" "env_txns e tx = None"
      "env_txns e1 = (env_txns e)(tx \<mapsto> \<lparr>txn_rdonly = True, txn_dbs = env_committed e\<rparr>)" using bs by auto
    then obtain d where d: "env_dbis e1 (fst h) = Some n" "txn_db e1 tx n = Some d"
      using db by (auto simp: txn_db_def frame_def)
    obtain rc2 c e2 where o: "mdb_cursor_open L tx (fst h) e1 = (rc2, c, e2)" by (metis prod_cases3)
    have "cursor_open_spec L" using L by (simp add: lmdb_ok_def)
    from this [unfolded cursor_open_spec_def, rule_format, of e1 "fst h" n tx d rc2 c e2]
    have os: "env_committed e2 = env_committed e1 \<and> env_dbis e2 = env_dbis e1 \<and> env_cmp e2 = env_cmp e1
        \<and> env_txns e2 = env_txns e1 \<and> rc2 \<in> {MDB_SUCCESS, EINVAL}
        \<and> (if rc2 = MDB_SUCCESS then env_cursors e1 c = None
             \<and> env_cursors e2 = (env_cursors e1)(c \<mapsto> \<lparr>cu_txn = tx, cu_db = n, cu_pos = None\<rparr>)
           else env_cursors e2 = env_cursors e1)" using d o by blast
    have run: "(r, (e', s')) = (if rc2 = MDB_SUCCESS then (Inr (c, tx), (e2, s)) else (Inl (InternalError FATAL), (e2, s)))"
      using q \<open>\<not> u\<close> \<open>has_env\<close> True os
      by (auto simp: query_cursor_def b o bindS_def critical_def result_simps)
    have "extends e e2" if "rc2 \<noteq> MDB_SUCCESS"
      using that os f by (auto simp: extends_def frame_def cursor_home_def)
    moreover have "session tx0 u e e2 n c tx" if "rc2 = MDB_SUCCESS"
      using that os f db \<open>\<not> u\<close> by (auto simp: session_def frame_def cursor_home_def)
    ultimately show ?thesis using run \<open>\<not> u\<close> by (auto split: if_splits)
  qed
qed

text \<open>Seeking a record in a session: a cursor call moves the cursor and changes nothing else.\<close>

lemma session_seek:
  assumes L: "lmdb_ok bsize L" and s: "session tx0 u e e1 n c tx"
    and g: "mdb_cursor_get L c op k v e1 = (rc, k', v', e2)" and key: "key_size_ok bsize k"
    and op: "op \<notin> {MDB_NEXT, MDB_NEXT_DUP}"
  obtains (fatal) "session tx0 u e e2 n c tx" "rc = EINVAL" "extends e e2" "u \<longrightarrow> unchanged e e2"
  | (missing) "session tx0 u e e2 n c tx" "rc = MDB_NOTFOUND"
      "get_target (env_cmp e n) op k v (query_tree e tx0 u n) None = None"
  | (found) i where "session tx0 u e e2 n c tx" "rc = MDB_SUCCESS"
      "get_target (env_cmp e n) op k v (query_tree e tx0 u n) None = Some i"
      "(k', v') = query_tree e tx0 u n ! i" "at_record e2 (session_txn tx0 u tx) n c i"
proof -
  note rd = session_reads [OF s]
  note mv = cursor_seek [OF L rd(1) g _ op, unfolded rd(2,3)]
  have s2: "session tx0 u e e2 n c tx" using mv key by (intro session_step [OF s]) blast
  have "u \<longrightarrow> unchanged e e2" using s2 session_unchanged by (cases u) auto
  then show thesis using mv key s2 session_extends [OF s2] that by blast
qed

lemma session_seek_key:
  assumes L: "lmdb_ok bsize L" and s: "session tx0 u e e1 n c tx"
    and g: "mdb_cursor_get L c MDB_SET k v e1 = (rc, k', v', e2)" and key: "key_size_ok bsize k"
  obtains (fatal) "session tx0 u e e2 n c tx" "rc = EINVAL" "extends e e2" "u \<longrightarrow> unchanged e e2"
  | (missing) "session tx0 u e e2 n c tx" "rc = MDB_NOTFOUND" "tget (query_tree e tx0 u n) k = []"
  | (found) i where "session tx0 u e e2 n c tx" "rc = MDB_SUCCESS" "k' = k"
      "find_ix (\<lambda>r. fst r = k) (query_tree e tx0 u n) = Some i" "tget (query_tree e tx0 u n) k \<noteq> []"
      "(k, v') = query_tree e tx0 u n ! i" "at_record e2 (session_txn tx0 u tx) n c i"
proof (cases rule: session_seek [OF L s g key])
  case 2
  then show thesis by (rule fatal)
next
  case 3
  then have "tget (query_tree e tx0 u n) k = []"
    by (simp add: get_target_def tget_eq_Nil tkeys_def find_ix_None image_iff) metis
  with 3(1,2) show thesis by (rule missing)
next
  case (4 i)
  then have ix: "find_ix (\<lambda>r. fst r = k) (query_tree e tx0 u n) = Some i" by (simp add: get_target_def)
  then have "tget (query_tree e tx0 u n) k \<noteq> []"
    using find_ix_Some [OF ix] nth_tkeys [of i "query_tree e tx0 u n" k] by (simp add: tget_eq_Nil)
  moreover have "k' = k" using find_ix_Some [OF ix] 4(4) by (metis fst_conv)
  ultimately show thesis using 4 ix by (intro found) simp_all
qed simp

text \<open>Closing it gives back the environment as it was found.\<close>

lemma cursor_close_data:
  assumes "lmdb_ok bsize L"
  shows "env_committed (mdb_cursor_close L c e) = env_committed e"
    "env_dbis (mdb_cursor_close L c e) = env_dbis e" "env_cmp (mdb_cursor_close L c e) = env_cmp e"
    "env_txns (mdb_cursor_close L c e) = env_txns e"
    "cursor_home (mdb_cursor_close L c e) = (cursor_home e)(c := None)"
  using assms by (auto simp: lmdb_ok_def close_spec_def Let_def cursor_home_def fun_eq_iff)

lemma abort_reader:
  assumes L: "lmdb_ok bsize L" and "env_txns e tx = None"
    and t: "env_txns e1 = (env_txns e)(tx \<mapsto> \<lparr>txn_rdonly = True, txn_dbs = dbs\<rparr>)"
    and "env_committed e1 = env_committed e" "env_dbis e1 = env_dbis e" "env_cmp e1 = env_cmp e"
    "cursor_home e1 = cursor_home e"
  shows "unchanged e (mdb_txn_abort L tx e1)"
proof -
  have "abort_spec L" using L by (simp add: lmdb_ok_def)
  from this [unfolded abort_spec_def, rule_format, of e1 tx "\<lparr>txn_rdonly = True, txn_dbs = dbs\<rparr>"] t
  show ?thesis using assms(2,4-7)
    by (auto simp: Let_def unchanged_def frame_def cursor_home_def fun_eq_iff)
qed

lemma session_end:
  assumes L: "lmdb_ok bsize L" and s: "session tx0 u e e' n c tx"
  shows "\<exists>e2. end_query L u c tx (e', w) = (Inr (), (e2, w)) \<and> unchanged e e2
    \<and> (u \<longrightarrow> e2 = e')"
proof (cases u)
  case True
  then show ?thesis using s by (simp add: end_query_def whenS_def result_simps session_def)
next
  case False
  then have "unchanged e (mdb_txn_abort L tx (mdb_cursor_close L c e'))"
    using s by (intro abort_reader [OF L]) (auto simp: session_def cursor_close_data [OF L])
  then show ?thesis using False by (simp add: end_query_def whenS_def envS_def result_simps)
qed

end
