(* ===== verification/Wsv_Refinement.thy ===== *)
theory Wsv_Refinement
  imports Query_Sessions
begin

text \<open>
  What the world state view promises: the ledger, a map for each of the four trees, and for
  every command the change of the ledger it makes.  Every handler of \<open>Wsv\<close> either reports a
  fatal error of the database or acts on the ledger as the specification says.
\<close>

section \<open>Searching by a key\<close>

lemma find_distinct_iff:
  "distinct (map f xs) \<Longrightarrow> find (\<lambda>x. f x = p) xs = Some x \<longleftrightarrow> x \<in> set xs \<and> f x = p"
  by (induction xs) (auto simp: image_iff)

lemma find_update_same:
  assumes "distinct (map f xs)" "j < length xs" "f (xs ! j) = f v"
  shows "find (\<lambda>x. f x = p) (xs[j := v]) = (if f v = p then Some v else find (\<lambda>x. f x = p) xs)"
  using assms
proof (induction xs arbitrary: j)
  case (Cons x xs)
  show ?case
  proof (cases j)
    case (Suc i)
    then have "f (xs ! i) = f v" "xs ! i \<in> set xs" using Cons.prems by auto
    then have "f x \<noteq> f v" using Cons.prems(1) by (auto simp: image_iff)
    then show ?thesis using Cons.IH [of i] Cons.prems Suc by auto
  qed (use Cons.prems in auto)
qed simp

lemma find_append: "find P (xs @ ys) = (case find P xs of None \<Rightarrow> find P ys | Some x \<Rightarrow> Some x)"
  by (induction xs) auto

lemma find_ins_nth:
  assumes "f v \<notin> f ` set xs"
  shows "find (\<lambda>x. f x = p) (ins_nth j v xs) = (if f v = p then Some v else find (\<lambda>x. f x = p) xs)"
proof -
  have "find (\<lambda>x. f x = f v) (take j xs) = None"
    using assms by (fastforce simp: find_None_iff image_iff dest: in_set_takeD)
  moreover have "find (\<lambda>x. f x = p) xs = find (\<lambda>x. f x = p) (take j xs @ drop j xs)" by simp
  ultimately show ?thesis
    by (cases "f v = p") (simp_all add: ins_nth_def find_append del: append_take_drop_id split: option.splits)
qed

section \<open>The ledger\<close>

record 'b ledger =
  lg_assets :: "string \<Rightarrow> string \<Rightarrow> 'b option"
  lg_accounts :: "string \<Rightarrow> 'b item option"
  lg_created :: "string \<Rightarrow> 'b option"
  lg_peers :: "string \<Rightarrow> 'b item option"

text \<open>The new record of an asset, from the one that is there and the one of the command.\<close>

definition spec_combine :: "'b fb \<Rightarrow> (currency \<Rightarrow> currency \<Rightarrow> error + currency) \<Rightarrow> 'b \<Rightarrow> 'b \<Rightarrow>
    error + 'b" where
  "spec_combine F f old asset =
     (case (fb_asset F old, fb_asset F asset) of
        (CurrencyAsset cy0, CurrencyAsset cy) \<Rightarrow>
          if fb_size F asset \<noteq> fb_size F old then Inl Assert_Failed
          else bindR (mk_currency (read_amount cy0) (read_precision cy0)) (\<lambda>current.
               bindR (mk_currency (read_amount cy) (read_precision cy)) (\<lambda>delta.
               bindR (f current delta) (\<lambda>new. Inr (store_amount F old new))))
      | _ \<Rightarrow> Inl Undefined)"

definition spec_sub :: "currency \<Rightarrow> currency \<Rightarrow> error + currency" where
  "spec_sub current delta =
     (if currency_less current delta then Inl (InvalidTransaction NOT_ENOUGH_ASSETS)
      else currency_sub current delta)"

definition set_asset :: "string \<Rightarrow> string \<Rightarrow> 'b \<Rightarrow> 'b ledger \<Rightarrow> 'b ledger" where
  "set_asset acc pk b g =
     g\<lparr>lg_assets := (lg_assets g)(acc := (lg_assets g acc)(pk \<mapsto> b))\<rparr>"

text \<open>What the account holds of an asset that was created.\<close>

definition held :: "'b ledger \<Rightarrow> string \<Rightarrow> string \<Rightarrow> 'b option" where
  "held g acc pk = (if lg_created g pk = None then None else lg_assets g acc pk)"

definition asset_id :: "'b fb \<Rightarrow> 'b \<Rightarrow> string" where
  "asset_id F b = (case fb_asset F b of CurrencyAsset cy \<Rightarrow> currency_pk cy | _ \<Rightarrow> [])"

definition spec_add :: "'b fb \<Rightarrow> string \<Rightarrow> 'b \<Rightarrow> 'b ledger \<Rightarrow> (error + unit) \<times> 'b ledger" where
  "spec_add F acc asset g =
     (let pk = asset_id F asset
      in case held g acc pk of
           None \<Rightarrow> (Inr (), set_asset acc pk asset g)
         | Some old \<Rightarrow> (case spec_combine F currency_add old asset of
               Inl err \<Rightarrow> (Inl err, g)
             | Inr new \<Rightarrow> (Inr (), set_asset acc pk new g)))"

definition spec_remove :: "'b fb \<Rightarrow> string \<Rightarrow> 'b \<Rightarrow> 'b ledger \<Rightarrow> (error + unit) \<times> 'b ledger" where
  "spec_remove F acc asset g =
     (let pk = asset_id F asset
      in case held g acc pk of
           None \<Rightarrow> (Inl (InvalidTransaction ASSET_NOT_FOUND), g)
         | Some old \<Rightarrow> (case spec_combine F spec_sub old asset of
               Inl err \<Rightarrow> (Inl err, g)
             | Inr new \<Rightarrow> (Inr (), set_asset acc pk new g)))"

section \<open>The invariant and the ledger of a state\<close>

definition wsv_names :: "(string \<times> bool) list" where
  "wsv_names = [(''wsv_pubkey_assets'', True), (''wsv_pubkey_account'', False),
                (''wsv_assetid_asset'', False), (''wsv_ip_peer'', False)]"

abbreviation wsv_set :: "string set" where
  "wsv_set \<equiv> fst ` set wsv_names"

definition wtree :: "('b, 'x) env \<Rightarrow> 'b wsv \<Rightarrow> string \<Rightarrow> 'b tree" where
  "wtree e w n = store_tree e (w_append_tx w) n"

text \<open>
  The values of the tree of assets: currencies of sizes the tree can hold, one for each asset
  identifier of an account.
\<close>

definition assets_ok :: "'b fb \<Rightarrow> 'b tree \<Rightarrow> bool" where
  "assets_ok F t \<longleftrightarrow> (\<forall>k.
     (\<forall>v \<in> set (tget t k). item_pk F v \<noteq> None \<and> key_size_ok (fb_size F) v
        \<and> (\<forall>v' \<in> set (tget t k). item_size (fb_size F) v' = item_size (fb_size F) v))
     \<and> distinct (map (item_pk F) (tget t k)))"

definition wsv_ok :: "'b fb \<Rightarrow> ('b, 'x) env \<Rightarrow> 'b wsv \<Rightarrow> bool" where
  "wsv_ok F e w \<longleftrightarrow>
     store_ok wsv_names (w_trees w) (w_append_tx w) e
     \<and> env_cmp e ''wsv_pubkey_assets'' = cmp_assets F
     \<and> assets_ok F (wtree e w ''wsv_pubkey_assets'')
     \<and> nodup (wtree e w ''wsv_pubkey_account'') \<and> nodup (wtree e w ''wsv_assetid_asset'')
     \<and> nodup (wtree e w ''wsv_ip_peer'')
     \<and> (\<forall>s. tmap (wtree e w ''wsv_assetid_asset'') (IStr s) = map_option IBlob (w_created_assets w s))
     \<and> (\<forall>s b. w_created_assets w s = Some b \<longrightarrow> item_pk F (IBlob b) = Some s)
     \<and> (\<forall>k. tmap (wtree e w ''wsv_assetid_asset'') k \<noteq> None \<longrightarrow> (\<exists>s. k = IStr s))"

definition hold :: "'b fb \<Rightarrow> 'b tree \<Rightarrow> string \<Rightarrow> string \<Rightarrow> 'b option" where
  "hold F t acc pk = (case find (\<lambda>v. item_pk F v = Some pk) (tget t (IStr acc)) of
       Some (IBlob b) \<Rightarrow> Some b | _ \<Rightarrow> None)"

definition wsv_abs :: "'b fb \<Rightarrow> ('b, 'x) env \<Rightarrow> 'b wsv \<Rightarrow> 'b ledger" where
  "wsv_abs F e w =
     \<lparr>lg_assets = hold F (wtree e w ''wsv_pubkey_assets''),
      lg_accounts = (\<lambda>s. tmap (wtree e w ''wsv_pubkey_account'') (IStr s)),
      lg_created = w_created_assets w,
      lg_peers = (\<lambda>s. tmap (wtree e w ''wsv_ip_peer'') (IStr s))\<rparr>"

text \<open>
  A handler follows a specification: it touches only its own trees, and reports a fatal error
  or ends with the result and the ledger that the specification gives.
\<close>

definition wsv_follows :: "'b fb \<Rightarrow> ('b, 'x, unit) wsv_op \<Rightarrow> (error + unit) \<times> 'b ledger \<Rightarrow>
    ('b, 'x) env \<Rightarrow> 'b wsv \<Rightarrow> bool" where
  "wsv_follows F m sp e w \<longleftrightarrow> (case m (e, w) of (r, (e', w')) \<Rightarrow>
     step_on (w_append_tx w) wsv_set e e'
     \<and> w_trees w' = w_trees w \<and> w_append_tx w' = w_append_tx w
     \<and> (r = Inl (InternalError FATAL) \<or> wsv_ok F e' w' \<and> (r, wsv_abs F e' w') = sp))"

lemma wsv_okD:
  assumes "wsv_ok F e w"
  shows "store_ok wsv_names (w_trees w) (w_append_tx w) e"
    "env_cmp e ''wsv_pubkey_assets'' = cmp_assets F"
    "assets_ok F (wtree e w ''wsv_pubkey_assets'')"
    "nodup (wtree e w ''wsv_pubkey_account'')" "nodup (wtree e w ''wsv_assetid_asset'')"
    "nodup (wtree e w ''wsv_ip_peer'')"
    "tmap (wtree e w ''wsv_assetid_asset'') (IStr s) = map_option IBlob (w_created_assets w s)"
    "w_created_assets w s = Some b \<Longrightarrow> item_pk F (IBlob b) = Some s"
    "tmap (wtree e w ''wsv_assetid_asset'') k \<noteq> None \<Longrightarrow> \<exists>s. k = IStr s"
  using assms by (simp_all add: wsv_ok_def)

lemma wsv_ok_step:
  assumes "wsv_ok F e w" and "step_on (w_append_tx w) {} e e'"
  shows "wsv_ok F e' w \<and> wsv_abs F e' w = wsv_abs F e w"
proof -
  have t: "wtree e' w n = wtree e w n" for n
    using step_on_tree [OF assms(2)] by (simp add: wtree_def)
  show ?thesis
    using assms(1) store_ok_step [OF _ assms(2)] step_on_cmp [OF assms(2)]
    by (auto simp: wsv_ok_def wsv_abs_def t)
qed

text \<open>The handles of a tree, and the call that looks them up.\<close>

lemma wsv_tree_at: "map_of (w_trees w) n = Some h \<Longrightarrow> wsv_tree n (e, w) = (Inr h, (e, w))"
  by (simp add: wsv_tree_def trees_at_def bindS_def result_simps split: prod.split)

lemma wsv_handle:
  assumes "wsv_ok F e w" and "(n, dup) \<in> set wsv_names"
  obtains d c where "map_of (w_trees w) n = Some (d, c)" "wsv_tree n (e, w) = (Inr (d, c), (e, w))"
  using store_okD [OF wsv_okD(1) [OF assms(1)] assms(2)] that wsv_tree_at by blast

section \<open>Looking up an asset\<close>

lemma item_pk_Some: "item_pk F v = Some pk \<Longrightarrow> \<exists>b cy. v = IBlob b \<and> fb_asset F b = CurrencyAsset cy
    \<and> currency_pk cy = pk"
  by (auto simp: item_pk_def split: item.splits any_asset.splits)

lemma item_pk_asset_id: "item_pk F (IBlob b) = Some pk \<Longrightarrow> asset_id F b = pk"
  by (auto simp: item_pk_def asset_id_def split: any_asset.splits)

lemma hold_iff:
  assumes "assets_ok F t"
  shows "hold F t acc pk = Some b \<longleftrightarrow> (IStr acc, IBlob b) \<in> set t \<and> item_pk F (IBlob b) = Some pk"
proof -
  have d: "distinct (map (item_pk F) (tget t (IStr acc)))"
    using assms by (simp add: assets_ok_def)
  have "hold F t acc pk = Some b \<longleftrightarrow> find (\<lambda>v. item_pk F v = Some pk) (tget t (IStr acc)) = Some (IBlob b)"
    by (auto simp: hold_def split: option.splits item.splits)
  also have "\<dots> \<longleftrightarrow> (IStr acc, IBlob b) \<in> set t \<and> item_pk F (IBlob b) = Some pk"
    unfolding find_distinct_iff [OF d] set_tget ..
  finally show ?thesis .
qed

lemma hold_None:
  assumes "assets_ok F t" and "hold F t acc pk = None" and "(IStr acc, v) \<in> set t"
  shows "item_pk F v \<noteq> Some pk"
proof
  assume pk: "item_pk F v = Some pk"
  then obtain b where "v = IBlob b" using item_pk_Some by blast
  then show False using hold_iff [OF assms(1), of acc pk b] assms(2,3) pk by simp
qed

lemma cmp_assets_eq_0:
  assumes "item_pk F a = Some p" and "item_pk F b \<noteq> None"
  shows "cmp_assets F a b = 0 \<longleftrightarrow> item_pk F b = Some p"
  using assms by (auto simp: cmp_assets_def)

lemma assets_ok_pk: "assets_ok F t \<Longrightarrow> (k, v) \<in> set t \<Longrightarrow> item_pk F v \<noteq> None"
  unfolding assets_ok_def by (metis set_tget)

text \<open>
  The record that \<^verbatim>\<open>MDB_GET_BOTH\<close> finds with the buffer of a created asset is the one the account
  holds of that asset.
\<close>

lemma asset_target:
  assumes a: "assets_ok F t" and b: "item_pk F (IBlob blob) = Some pk"
    and tg: "get_target (cmp_assets F) MDB_GET_BOTH (IStr acc) (IBlob blob) t pos = target"
  shows "target = None \<Longrightarrow> hold F t acc pk = None"
    and "target = Some i \<Longrightarrow> \<exists>b. t ! i = (IStr acc, IBlob b) \<and> hold F t acc pk = Some b
      \<and> item_pk F (IBlob b) = Some pk"
proof -
  let ?P = "\<lambda>r. fst r = IStr acc \<and> cmp_assets F (IBlob blob) (snd r) = 0"
  have P: "?P r \<longleftrightarrow> fst r = IStr acc \<and> item_pk F (snd r) = Some pk" if "r \<in> set t" for r
    using cmp_assets_eq_0 [OF b] assets_ok_pk [OF a] that by (metis prod.collapse)
  have f: "find_ix ?P t = target" using tg by (simp add: get_target_def)
  show "hold F t acc pk = None" if "target = None"
  proof (rule ccontr)
    assume "hold F t acc pk \<noteq> None"
    then obtain b where b: "(IStr acc, IBlob b) \<in> set t" "item_pk F (IBlob b) = Some pk"
      using hold_iff [OF a] by blast
    then show False using f that P [OF b(1)] by (auto simp: find_ix_None)
  qed
  show "\<exists>b. t ! i = (IStr acc, IBlob b) \<and> hold F t acc pk = Some b \<and> item_pk F (IBlob b) = Some pk"
    if "target = Some i"
  proof -
    have i: "i < length t" "?P (t ! i)" using find_ix_Some [of ?P t i] f that by simp_all
    then have m: "t ! i \<in> set t" by simp
    then obtain b where b: "snd (t ! i) = IBlob b" "item_pk F (IBlob b) = Some pk"
      using P [OF m] i(2) item_pk_Some by metis
    then have "t ! i = (IStr acc, IBlob b)" using i(2) by (metis prod.collapse)
    then show ?thesis using hold_iff [OF a] m b(2) by metis
  qed
qed

text \<open>The query of an asset, in the append transaction or of the committed data.\<close>

lemma get_asset_session:
  assumes L: "lmdb_ok (fb_size F) L" and h: "openable e tx0 u n h" and env: "u \<or> has_env"
    and n: "n = ''wsv_pubkey_assets''" "map_of (w_trees w) n = Some h"
    and t: "assets_ok F (query_tree e tx0 u n)" and cmp: "env_cmp e n = cmp_assets F"
    and blob: "w_created_assets w (asset_pk ln dn an) = Some blob"
      "item_pk F (IBlob blob) = Some (asset_pk ln dn an)"
    and key: "key_size_ok (fb_size F) (IStr acc)"
    and r: "accountGetAsset L acc ln dn an u has_env (e, w) = (r, (e', w'))"
  shows "w' = w \<and> (r = Inl (InternalError FATAL) \<and> extends e e' \<and> (u \<longrightarrow> unchanged e e')
    \<or> r = Inl (InvalidTransaction ASSET_NOT_FOUND) \<and> hold F (query_tree e tx0 u n) acc (asset_pk ln dn an) = None
      \<and> (\<exists>c tx. session tx0 u e e' n c tx)
    \<or> (\<exists>b i. r = Inr (IBlob b) \<and> hold F (query_tree e tx0 u n) acc (asset_pk ln dn an) = Some b
         \<and> unchanged e e' \<and> query_tree e tx0 u n ! i = (IStr acc, IBlob b)
         \<and> item_pk F (IBlob b) = Some (asset_pk ln dn an) \<and> (u \<longrightarrow> at_record e' tx0 n (snd h) i)))"
proof -
  let ?t = "query_tree e tx0 u n" and ?pk = "asset_pk ln dn an"
  have tr: "wsv_tree ''wsv_pubkey_assets'' (e, w) = (Inr h, (e, w))" using n by (simp add: wsv_tree_at)
  obtain q e1 w1 where q: "query_cursor L u has_env h (e, w) = (q, (e1, w1))" by (metis prod.exhaust)
  from query_cursor_session [OF L h env q]
  consider "q = Inl (InternalError FATAL)" "extends e e1" "w1 = w" "\<not> u"
    | c tx where "q = Inr (c, tx)" "session tx0 u e e1 n c tx" "w1 = w" "u \<longrightarrow> c = snd h" by blast
  then show ?thesis
  proof cases
    case 1
    have "(r, (e', w')) = (Inl (InternalError FATAL), (e1, w))"
      using r by (simp add: accountGetAsset_def bindS_def result_simps blob(1) tr q 1(1,3))
    then show ?thesis using 1(2,4) by simp
  next
    case s: 2
    obtain rc k v e2 where g: "mdb_cursor_get L c MDB_GET_BOTH (IStr acc) (IBlob blob) e1 = (rc, k, v, e2)"
      by (metis prod_cases4)
    have run: "(r, (e', w')) = (if rc = MDB_NOTFOUND
        then (Inl (InvalidTransaction ASSET_NOT_FOUND), (e2, w))
        else if rc = EINVAL then (Inl (InternalError FATAL), (e2, w))
        else bindS (end_query L u c tx) (\<lambda>_. returnS v) (e2, w))"
      using r by (cases "rc = MDB_NOTFOUND"; cases "rc = EINVAL")
        (simp_all add: accountGetAsset_def bindS_def result_simps blob(1) tr q s(1,3) cursor_get_def g
          whenS_def critical_def)
    show ?thesis
    proof (cases rule: session_seek [OF L s(2) g key, unfolded cmp])
      case 2
      then show ?thesis using run by auto
    next
      case 3
      then show ?thesis using run asset_target(1) [OF t blob(2) refl] by auto
    next
      case (4 i)
      from asset_target(2) [OF t blob(2) refl 4(3)]
      obtain b where b: "?t ! i = (IStr acc, IBlob b)" "hold F ?t acc ?pk = Some b"
        "item_pk F (IBlob b) = Some ?pk" by blast
      obtain e3 where e3: "end_query L u c tx (e2, w) = (Inr (), (e3, w))" "unchanged e e3" "u \<longrightarrow> e3 = e2"
        using session_end [OF L 4(1), of w] by blast
      have "r = Inr (IBlob b)" "e' = e3" "w' = w"
        using run 4(2,4) b(1) by (auto simp: bindS_def e3(1) result_simps)
      moreover have "u \<longrightarrow> at_record e3 tx0 n (snd h) i" using 4(5) s(4) e3(3) by auto
      ultimately show ?thesis using b e3(2) by blast
    qed simp
  qed
qed

lemma get_asset:
  assumes L: "lmdb_ok (fb_size F) L" and w: "wsv_ok F e w"
    and key: "key_size_ok (fb_size F) (IStr acc)"
    and c: "map_of (w_trees w) ''wsv_pubkey_assets'' = Some (d, c)"
    and r: "accountGetAsset L acc ln dn an True has_env (e, w) = (r, (e', w'))"
  defines "t \<equiv> wtree e w ''wsv_pubkey_assets''"
  shows "w' = w \<and> step_on (w_append_tx w) {} e e'
    \<and> (r = Inl (InternalError FATAL)
      \<or> r = Inl (InvalidTransaction ASSET_NOT_FOUND) \<and> held (wsv_abs F e w) acc (asset_pk ln dn an) = None
      \<or> (\<exists>b i. r = Inr (IBlob b) \<and> held (wsv_abs F e w) acc (asset_pk ln dn an) = Some b
           \<and> at_record e' (w_append_tx w) ''wsv_pubkey_assets'' c i \<and> t ! i = (IStr acc, IBlob b)
           \<and> item_pk F (IBlob b) = Some (asset_pk ln dn an)))"
proof (cases "w_created_assets w (asset_pk ln dn an)")
  case None
  then show ?thesis using r
    by (auto simp: accountGetAsset_def bindS_def result_simps held_def wsv_abs_def)
next
  case (Some blob)
  let ?tx = "w_append_tx w" and ?n = "''wsv_pubkey_assets''"
  have st: "store_ok wsv_names (w_trees w) ?tx e" "(?n, True) \<in> set wsv_names"
    using wsv_okD(1) [OF w] by (simp_all add: wsv_names_def)
  have o: "openable e ?tx True ?n (d, c)" using store_reads [OF st c] by (simp add: openable_def)
  have t: "query_tree e ?tx True ?n = t" by (simp add: query_tree_def t_def wtree_def)
  have held: "held (wsv_abs F e w) acc (asset_pk ln dn an) = hold F t acc (asset_pk ln dn an)"
    using Some by (simp add: held_def wsv_abs_def t_def)
  have "assets_ok F t" using wsv_okD(3) [OF w] by (simp add: t_def)
  note g = get_asset_session [OF L o _ refl c _ wsv_okD(2) [OF w] Some wsv_okD(8) [OF w Some] key r,
      unfolded t, OF TrueI [THEN disjI1] this]
  then show ?thesis using session_unchanged unchanged_step unfolding held by fastforce
qed


section \<open>Writing an asset\<close>

lemma step_wtree: "step_on (w_append_tx w) {n} e e' \<Longrightarrow> m \<noteq> n \<Longrightarrow> wtree e' w m = wtree e w m"
  by (simp add: wtree_def step_on_tree)

lemma assets_ok_pick:
  assumes "assets_ok F t" and "v \<in> set (tget t k)"
  shows "item_pk F v \<noteq> None" "key_size_ok (fb_size F) v"
    "v' \<in> set (tget t k) \<Longrightarrow> item_size (fb_size F) v' = item_size (fb_size F) v"
  using assms unfolding assets_ok_def by blast+

lemma assets_ok_change:
  assumes t: "assets_ok F t"
    and other: "\<And>k'. k' \<noteq> k \<Longrightarrow> tget t' k' = tget t k'"
    and d: "distinct (map (item_pk F) (tget t' k))"
    and sub: "set (tget t' k) \<subseteq> insert v (set (tget t k))"
    and v: "item_pk F v \<noteq> None" "key_size_ok (fb_size F) v"
    and size: "\<And>v'. v' \<in> set (tget t k) \<Longrightarrow> item_size (fb_size F) v' = item_size (fb_size F) v"
  shows "assets_ok F t'"
proof -
  have same: "item_size (fb_size F) v' = item_size (fb_size F) v" if "v' \<in> set (tget t' k)" for v'
    using that sub size by blast
  have "item_pk F v' \<noteq> None \<and> key_size_ok (fb_size F) v'" if "v' \<in> set (tget t' k)" for v'
    using that sub v assets_ok_pick(1,2) [OF t, of v' k] by blast
  then show ?thesis unfolding assets_ok_def using t [unfolded assets_ok_def] other d same by metis
qed

lemma assets_update:
  assumes t: "assets_ok F t" and i: "i < length t" "t ! i = (IStr acc, v0)"
    and v: "item_pk F (IBlob b) = item_pk F v0" "item_size (fb_size F) v0 = fb_size F b"
    and pk: "item_pk F (IBlob b) = Some pk"
  defines "t' \<equiv> t[i := (IStr acc, IBlob b)]"
  shows "assets_ok F t'"
    "hold F t' = (hold F t)(acc := (hold F t acc)(pk \<mapsto> b))"
proof -
  let ?k = "IStr acc" and ?f = "item_pk F"
  have fi: "fst (t ! i) = ?k" "snd (t ! i) = v0" using i by simp_all
  obtain j where j: "j < length (tget t ?k)" "tget t ?k ! j = v0"
    "tget t' ?k = (tget t ?k)[j := IBlob b]"
    using tget_update_same [OF i(1) fi(1), of "IBlob b"] fi unfolding t'_def by blast
  have mem: "v0 \<in> set (tget t ?k)" using j nth_mem by metis
  have other: "tget t' k' = tget t k'" if "k' \<noteq> ?k" for k'
    using tget_update_other [OF i(1) fi(1) that] by (simp add: t'_def)
  have d: "distinct (map ?f (tget t ?k))" using t by (simp add: assets_ok_def)
  have m: "map ?f (tget t' ?k) = map ?f (tget t ?k)"
    unfolding j(3) map_update v(1) using j(1,2) by (metis list_update_id nth_map)
  have sub: "set (tget t' ?k) \<subseteq> insert (IBlob b) (set (tget t ?k))"
    unfolding j(3) by (rule set_update_subset_insert)
  have ks: "key_size_ok (fb_size F) (IBlob b :: 'a item)"
    using assets_ok_pick(2) [OF t mem] v(2) by (simp add: key_size_ok_def)
  have size: "item_size (fb_size F) v' = item_size (fb_size F) (IBlob b)" if "v' \<in> set (tget t ?k)" for v'
    using assets_ok_pick(3) [OF t mem that] v(2) by simp
  show "assets_ok F t'"
    using assets_ok_change [OF t other _ sub _ ks size] m d pk by simp
  have fnd: "find (\<lambda>x. ?f x = p) (tget t' ?k)
      = (if ?f (IBlob b) = p then Some (IBlob b) else find (\<lambda>x. ?f x = p) (tget t ?k))" for p
    unfolding j(3) using find_update_same [OF d j(1)] j(2) v(1) by simp
  show "hold F t' = (hold F t)(acc := (hold F t acc)(pk \<mapsto> b))"
    by (auto simp: fun_eq_iff hold_def fnd pk other)
qed

lemma assets_insert:
  assumes t: "assets_ok F t" and new: "hold F t acc pk = None" and i: "i \<le> length t"
    and pk: "item_pk F (IBlob b) = Some pk" and ks: "key_size_ok (fb_size F) (IBlob b :: 'b item)"
    and size: "\<And>v'. v' \<in> set (tget t (IStr acc)) \<Longrightarrow> item_size (fb_size F) v' = fb_size F b"
  defines "t' \<equiv> ins_nth i (IStr acc, IBlob b) t"
  shows "assets_ok F t'"
    "hold F t' = (hold F t)(acc := (hold F t acc)(pk \<mapsto> b))"
proof -
  let ?k = "IStr acc" and ?f = "item_pk F"
  obtain j where j: "tget t' ?k = ins_nth j (IBlob b) (tget t ?k)"
    using tget_ins_same unfolding t'_def by blast
  have other: "tget t' k' = tget t k'" if "k' \<noteq> ?k" for k'
    using tget_ins_other [OF that] by (simp add: t'_def)
  have notin: "?f (IBlob b) \<notin> ?f ` set (tget t ?k)"
    using hold_None [OF t new] pk by (metis image_iff set_tget)
  have m: "map ?f (tget t' ?k) = ins_nth j (?f (IBlob b)) (map ?f (tget t ?k))"
    unfolding j by (simp add: ins_nth_def take_map drop_map)
  have d: "distinct (map ?f (tget t' ?k))"
    unfolding m distinct_ins_nth using notin t by (simp add: assets_ok_def)
  have sub: "set (tget t' ?k) \<subseteq> insert (IBlob b) (set (tget t ?k))" by (simp add: j)
  show "assets_ok F t'"
    using assets_ok_change [OF t other d sub _ ks] size pk by simp
  have fnd: "find (\<lambda>x. ?f x = p) (tget t' ?k)
      = (if ?f (IBlob b) = p then Some (IBlob b) else find (\<lambda>x. ?f x = p) (tget t ?k))" for p
    unfolding j by (rule find_ins_nth [OF notin])
  show "hold F t' = (hold F t)(acc := (hold F t acc)(pk \<mapsto> b))"
    by (auto simp: fun_eq_iff hold_def fnd pk other)
qed

text \<open>The invariant after a change of the tree of assets alone.\<close>

lemma wsv_ok_assets:
  assumes w: "wsv_ok F e w" and s: "step_on (w_append_tx w) {''wsv_pubkey_assets''} e e'"
    and a: "assets_ok F (wtree e' w ''wsv_pubkey_assets'')"
    and h: "hold F (wtree e' w ''wsv_pubkey_assets'') =
      (hold F (wtree e w ''wsv_pubkey_assets''))(acc := m)"
  shows "wsv_ok F e' w"
    "wsv_abs F e' w = (wsv_abs F e w)\<lparr>lg_assets := (lg_assets (wsv_abs F e w))(acc := m)\<rparr>"
  using w a h store_ok_step [OF _ s] step_on_cmp [OF s] step_wtree [OF s]
  by (simp_all add: wsv_ok_def wsv_abs_def)

text \<open>What the handlers make of the return codes.\<close>

lemma critical_put:
  assumes "rc \<in> put_codes"
  shows "critical rc [MDB_MAP_FULL, MDB_TXN_FULL, EACCES, EINVAL] s
      = ((if rc = MDB_SUCCESS then Inr () else Inl (InternalError FATAL)), s)"
    "critical rc [MDB_KEYEXIST, MDB_MAP_FULL, MDB_TXN_FULL, EACCES, EINVAL] s
      = ((if rc = MDB_SUCCESS then Inr () else Inl (InternalError FATAL)), s)"
    "rc \<noteq> MDB_KEYEXIST"
  using assms by (auto simp: critical_def put_codes_def result_simps)

lemma critical_del:
  assumes "rc \<in> {MDB_SUCCESS, EACCES, EINVAL}"
  shows "critical rc [EACCES, EINVAL] s
      = ((if rc = MDB_SUCCESS then Inr () else Inl (InternalError FATAL)), s)"
  using assms by (auto simp: critical_def result_simps)

lemma critical_get [simp]: "critical MDB_SUCCESS [EINVAL] s = (Inr (), s)"
  "critical MDB_NOTFOUND [EINVAL] s = (Inr (), s)"
  "critical EINVAL [EINVAL] s = (Inl (InternalError FATAL), s)"
  by (simp_all add: critical_def result_simps)

lemma put_asset_current:
  assumes L: "lmdb_ok (fb_size F) L" and w: "wsv_ok F e w"
    and c: "map_of (w_trees w) ''wsv_pubkey_assets'' = Some (d, c)"
    and i: "at_record e (w_append_tx w) ''wsv_pubkey_assets'' c i"
      "wtree e w ''wsv_pubkey_assets'' ! i = (IStr acc, IBlob b0)"
    and pk: "item_pk F (IBlob b0) = Some pk" "item_pk F (IBlob b) = Some pk"
    and size: "fb_size F b0 = fb_size F b" and key: "key_size_ok (fb_size F) (IStr acc)"
    and p: "mdb_cursor_put L c (IStr acc) (IBlob b) [MDB_CURRENT] e = (rc, e')"
  shows "step_on (w_append_tx w) {''wsv_pubkey_assets''} e e' \<and> rc \<in> put_codes
    \<and> (rc = MDB_SUCCESS \<longrightarrow> wsv_ok F e' w \<and> wsv_abs F e' w = set_asset acc pk b (wsv_abs F e w))"
proof -
  let ?n = "''wsv_pubkey_assets''" and ?t = "wtree e w ''wsv_pubkey_assets''"
  have st: "store_ok wsv_names (w_trees w) (w_append_tx w) e" "(?n, True) \<in> set wsv_names"
    using wsv_okD(1) [OF w] by (simp_all add: wsv_names_def)
  have a: "assets_ok F ?t" using wsv_okD(3) [OF w] .
  have il: "i < length ?t" using i(1) by (simp add: at_record_def wtree_def)
  have mem: "IBlob b0 \<in> set (tget ?t (IStr acc))" using i(2) il nth_mem by (metis set_tget)
  have ps: "put_size_ok (fb_size F) True ?t (IStr acc) (IBlob b)"
    using key assets_ok_pick(2,3) [OF a mem] size by (simp add: put_size_ok_def key_size_ok_def)
  have cmp: "env_cmp e ?n (IBlob b) (IBlob b0) = 0"
    using cmp_assets_eq_0 [OF pk(2)] pk(1) by (simp add: wsv_okD(2) [OF w])
  have r: "step_on (w_append_tx w) {?n} e e'" "rc \<in> put_codes"
    "rc = MDB_SUCCESS \<Longrightarrow> wtree e' w ?n = ?t[i := (IStr acc, IBlob b)]"
    using store_put_current [OF L st c p ps [unfolded wtree_def] i(1)] i(2) cmp
    by (simp_all add: wtree_def)
  have "wsv_ok F e' w \<and> wsv_abs F e' w = set_asset acc pk b (wsv_abs F e w)" if "rc = MDB_SUCCESS"
  proof -
    have sz: "item_size (fb_size F) (IBlob b0) = fb_size F b" using size by simp
    have u: "item_pk F (IBlob b) = item_pk F (IBlob b0)" using pk by simp
    note up = assets_update [OF a il i(2) u sz pk(2)]
    have "assets_ok F (wtree e' w ?n)" using up(1) r(3) [OF that] by simp
    moreover have "hold F (wtree e' w ?n) = (hold F ?t)(acc := (hold F ?t acc)(pk \<mapsto> b))"
      using up(2) r(3) [OF that] by simp
    ultimately show ?thesis using wsv_ok_assets [OF w r(1)]
      by (simp add: set_asset_def wsv_abs_def)
  qed
  then show ?thesis using r by blast
qed

lemma put_asset_new:
  assumes L: "lmdb_ok (fb_size F) L" and w: "wsv_ok F e w"
    and c: "map_of (w_trees w) ''wsv_pubkey_assets'' = Some (d, c)"
    and new: "lg_assets (wsv_abs F e w) acc pk = None" and pk: "item_pk F (IBlob b) = Some pk"
    and key: "key_size_ok (fb_size F) (IStr acc)" "key_size_ok (fb_size F) (IBlob b)"
    and size: "\<And>pk' b'. lg_assets (wsv_abs F e w) acc pk' = Some b' \<Longrightarrow> fb_size F b' = fb_size F b"
    and p: "mdb_cursor_put L c (IStr acc) (IBlob b) [] e = (rc, e')"
  shows "step_on (w_append_tx w) {''wsv_pubkey_assets''} e e' \<and> rc \<in> put_codes
    \<and> (rc = MDB_SUCCESS \<longrightarrow> wsv_ok F e' w \<and> wsv_abs F e' w = set_asset acc pk b (wsv_abs F e w))"
proof -
  let ?n = "''wsv_pubkey_assets''" and ?t = "wtree e w ''wsv_pubkey_assets''"
  have st: "store_ok wsv_names (w_trees w) (w_append_tx w) e" "(?n, True) \<in> set wsv_names"
    using wsv_okD(1) [OF w] by (simp_all add: wsv_names_def)
  have a: "assets_ok F ?t" using wsv_okD(3) [OF w] .
  have h: "hold F ?t acc pk = None" using new by (simp add: wsv_abs_def)
  have size': "item_size (fb_size F) v = fb_size F b" if vm: "v \<in> set (tget ?t (IStr acc))" for v
  proof -
    obtain q where q: "item_pk F v = Some q" using assets_ok_pick(1) [OF a vm] by blast
    then obtain b' where b': "v = IBlob b'" using item_pk_Some by blast
    then have "hold F ?t acc q = Some b'" using hold_iff [OF a] vm q by (simp add: set_tget)
    then show ?thesis using size [of q b'] b' by (simp add: wsv_abs_def)
  qed
  have ps: "put_size_ok (fb_size F) True ?t (IStr acc) (IBlob b)"
    using key size' by (simp add: put_size_ok_def)
  have nocmp: "\<not> (\<exists>v0 \<in> set (tget ?t (IStr acc)). env_cmp e ?n (IBlob b) v0 = 0)"
    using cmp_assets_eq_0 [OF pk] hold_None [OF a h] assets_ok_pick(1) [OF a]
    by (metis set_tget wsv_okD(2) [OF w])
  have r: "step_on (w_append_tx w) {?n} e e'" "rc \<in> put_codes"
    "rc = MDB_SUCCESS \<Longrightarrow> put_effect True (env_cmp e ?n) (IStr acc) (IBlob b) ?t (wtree e' w ?n)"
    using store_put [OF L st c p ps [unfolded wtree_def]] by (simp_all add: wtree_def)
  have "wsv_ok F e' w \<and> wsv_abs F e' w = set_asset acc pk b (wsv_abs F e w)" if sc: "rc = MDB_SUCCESS"
  proof -
    obtain i where i: "i \<le> length ?t" "wtree e' w ?n = ins_nth i (IStr acc, IBlob b) ?t"
      using r(3) [OF sc] nocmp by (auto simp: put_effect_def)
    note up = assets_insert [OF a h i(1) pk key(2) size']
    have "assets_ok F (wtree e' w ?n)" using up(1) i(2) by simp
    moreover have "hold F (wtree e' w ?n) = (hold F ?t)(acc := (hold F ?t acc)(pk \<mapsto> b))"
      using up(2) i(2) by simp
    ultimately show ?thesis using wsv_ok_assets [OF w r(1)]
      by (simp add: set_asset_def wsv_abs_def)
  qed
  then show ?thesis using r by blast
qed

lemma store_amount_asset:
  assumes "fb_ok F" and "fb_asset F b = CurrencyAsset cy"
  shows "fb_asset F (store_amount F b cur) = CurrencyAsset
      (cy\<lparr>cy_amount := map_option (\<lambda>_. get_amount cur) (cy_amount cy),
          cy_precision := map_option (\<lambda>_. get_precision cur) (cy_precision cy)\<rparr>)
    \<and> fb_size F (store_amount F b cur) = fb_size F b"
  using assms unfolding fb_ok_def store_amount_def by simp

lemma store_amount_pk:
  assumes "fb_ok F" and "item_pk F (IBlob b) = Some pk"
  shows "item_pk F (IBlob (store_amount F b cur)) = Some pk"
    "fb_size F (store_amount F b cur) = fb_size F b"
proof -
  obtain cy where cy: "fb_asset F b = CurrencyAsset cy" "currency_pk cy = pk"
    using item_pk_Some [OF assms(2)] by auto
  then show "item_pk F (IBlob (store_amount F b cur)) = Some pk"
    "fb_size F (store_amount F b cur) = fb_size F b"
    using store_amount_asset [OF assms(1) cy(1)] by (simp_all add: item_pk_def currency_pk_def)
qed

section \<open>Assets: add and remove\<close>

lemma spec_combine_Inr:
  "spec_combine F f b0 b = Inr new \<Longrightarrow> \<exists>cur. new = store_amount F b0 cur"
  by (auto simp: spec_combine_def bindR_eq_Inr_iff split: any_asset.splits if_splits)

definition put_current :: "('b, 'x) lmdb \<Rightarrow> nat \<Rightarrow> string \<Rightarrow> 'b \<Rightarrow> ('b, 'x, unit) wsv_op" where
  "put_current L c acc new =
     bindS (cursor_put L c (IStr acc) (IBlob new) [MDB_CURRENT])
       (\<lambda>res. critical res [MDB_KEYEXIST, MDB_MAP_FULL, MDB_TXN_FULL, EACCES, EINVAL])"

lemma remove_unfold:
  assumes "wsv_tree ''wsv_pubkey_assets'' (e, w) = (Inr (d, c), (e, w))"
    and "fb_asset F asset = CurrencyAsset cy" "fb_asset F b0 = CurrencyAsset cy0"
    and "accountGetAsset L acc (cy_ledger_name cy) (cy_domain_name cy) (cy_currency_name cy)
      True False (e, w) = (Inr (IBlob b0), (e1, w))"
  shows "account_remove_currency F L acc asset (e, w) = (case spec_combine F spec_sub b0 asset of
      Inl err \<Rightarrow> (Inl err, (e1, w)) | Inr new \<Rightarrow> put_current L c acc new (e1, w))"
  using assms
  by (auto simp: account_remove_currency_def bindS_def as_currency_def result_simps spec_combine_def
    liftR_def bindR_def whenS_def spec_sub_def put_current_def split: sum.splits)

lemma add_try_unfold:
  assumes "fb_asset F asset = CurrencyAsset cy" "fb_asset F b0 = CurrencyAsset cy0"
    and "accountGetAsset L acc (cy_ledger_name cy) (cy_domain_name cy) (cy_currency_name cy)
      True False (e, w) = (Inr (IBlob b0), (e1, w))"
  shows "add_currency_try F L c acc asset cy (e, w) = (case spec_combine F currency_add b0 asset of
      Inl err \<Rightarrow> (Inl err, (e1, w)) | Inr new \<Rightarrow> put_current L c acc new (e1, w))"
  using assms
  by (auto simp: add_currency_try_def bindS_def as_currency_def result_simps spec_combine_def
    liftR_def bindR_def whenS_def put_current_def split: sum.splits)

lemma spec_combine_add_error:
  "spec_combine F currency_add b0 b = Inl err \<Longrightarrow> err \<noteq> InvalidTransaction i"
  by (auto simp: spec_combine_def bindR_def mk_currency_def currency_add_def Let_def
      split: any_asset.splits if_splits sum.splits)

text \<open>The write that ends both handlers, once the asset has been found.\<close>

lemma put_current_follows:
  assumes L: "lmdb_ok (fb_size F) L" and F: "fb_ok F" and w: "wsv_ok F e w" "wsv_ok F e1 w"
    and s: "step_on (w_append_tx w) {} e e1" and same: "wsv_abs F e1 w = wsv_abs F e w"
    and c: "map_of (w_trees w) ''wsv_pubkey_assets'' = Some (d, c)"
    and i: "at_record e1 (w_append_tx w) ''wsv_pubkey_assets'' c i"
      "wtree e w ''wsv_pubkey_assets'' ! i = (IStr acc, IBlob b0)" "item_pk F (IBlob b0) = Some pk"
    and key: "key_size_ok (fb_size F) (IStr acc)"
    and m: "m (e, w) = (case spec_combine F f b0 asset of
      Inl err \<Rightarrow> (Inl err, (e1, w)) | Inr new \<Rightarrow> put_current L c acc new (e1, w))"
  shows "wsv_follows F m (case spec_combine F f b0 asset of
      Inl err \<Rightarrow> (Inl err, wsv_abs F e w) | Inr new \<Rightarrow> (Inr (), set_asset acc pk new (wsv_abs F e w))) e w"
proof (cases "spec_combine F f b0 asset")
  case (Inl err)
  then show ?thesis using m w same step_on_mono [OF s] by (simp add: wsv_follows_def)
next
  case (Inr new)
  obtain cur where new: "new = store_amount F b0 cur" using spec_combine_Inr [OF Inr] by blast
  obtain rc e2 where p: "mdb_cursor_put L c (IStr acc) (IBlob new) [MDB_CURRENT] e1 = (rc, e2)"
    by (cases "mdb_cursor_put L c (IStr acc) (IBlob new) [MDB_CURRENT] e1")
  have i2: "wtree e1 w ''wsv_pubkey_assets'' ! i = (IStr acc, IBlob b0)"
    using i(2) step_on_tree [OF s] by (simp add: wtree_def)
  have r: "step_on (w_append_tx w) {''wsv_pubkey_assets''} e1 e2" "rc \<in> put_codes"
    "rc = MDB_SUCCESS \<Longrightarrow> wsv_ok F e2 w \<and> wsv_abs F e2 w = set_asset acc pk new (wsv_abs F e w)"
    using put_asset_current [OF L w(2) c i(1) i2 i(3) _ _ key p] store_amount_pk [OF F i(3)] new same
    by simp_all
  have "step_on (w_append_tx w) wsv_set e e2"
    using step_on_trans [OF step_on_mono [OF s] step_on_mono [OF r(1)]] by (simp add: wsv_names_def)
  then show ?thesis using m r Inr
    by (simp add: wsv_follows_def put_current_def bindS_def cursor_put_def p critical_put(2) [OF r(2)])
qed

lemma remove_follows:
  assumes L: "lmdb_ok (fb_size F) L" and F: "fb_ok F" and w: "wsv_ok F e w"
    and key: "key_size_ok (fb_size F) (IStr acc)" and cy: "fb_asset F asset = CurrencyAsset cy"
  shows "wsv_follows F (account_remove_currency F L acc asset)
    (spec_remove F acc asset (wsv_abs F e w)) e w"
proof -
  obtain d c where h: "map_of (w_trees w) ''wsv_pubkey_assets'' = Some (d, c)"
    "wsv_tree ''wsv_pubkey_assets'' (e, w) = (Inr (d, c), (e, w))"
    using wsv_handle [OF w, of "''wsv_pubkey_assets''" True] by (auto simp: wsv_names_def)
  let ?pk = "asset_pk (cy_ledger_name cy) (cy_domain_name cy) (cy_currency_name cy)"
  have id: "asset_id F asset = ?pk" using cy by (simp add: asset_id_def currency_pk_def)
  obtain r e1 w1 where g: "accountGetAsset L acc (cy_ledger_name cy) (cy_domain_name cy)
      (cy_currency_name cy) True False (e, w) = (r, (e1, w1))" by (metis prod.exhaust)
  note ga = get_asset [OF L w key h(1) g]
  have w1: "w1 = w" and s: "step_on (w_append_tx w) {} e e1" using ga by auto
  note ok = wsv_ok_step [OF w s]
  have fwd: "account_remove_currency F L acc asset (e, w) = (Inl err, (e1, w))" if "r = Inl err" for err
    using that g cy h(2) w1
    by (simp add: account_remove_currency_def bindS_def as_currency_def result_simps)
  consider "r = Inl (InternalError FATAL)"
    | "r = Inl (InvalidTransaction ASSET_NOT_FOUND)" "held (wsv_abs F e w) acc ?pk = None"
    | b i where "r = Inr (IBlob b)" "held (wsv_abs F e w) acc ?pk = Some b"
        "at_record e1 (w_append_tx w) ''wsv_pubkey_assets'' c i"
        "wtree e w ''wsv_pubkey_assets'' ! i = (IStr acc, IBlob b)" "item_pk F (IBlob b) = Some ?pk"
    using ga by metis
  then show ?thesis
  proof cases
    case 3
    obtain cy0 where cy0: "fb_asset F b = CurrencyAsset cy0" using item_pk_Some [OF 3(5)] by auto
    show ?thesis
      using put_current_follows [where m = "account_remove_currency F L acc asset",
          OF L F w conjunct1 [OF ok] s conjunct2 [OF ok] h(1) 3(3,4,5) key
          remove_unfold [OF h(2) cy cy0 g [unfolded 3(1) w1]]] 3(2)
      by (simp add: spec_remove_def id)
  qed (use fwd ok step_on_mono [OF s] in \<open>simp_all add: wsv_follows_def spec_remove_def id\<close>)
qed

text \<open>
  What a command that adds an asset needs: a key and a buffer of sizes that LMDB takes, and, if
  the account gets its first record of the asset, no record of it from before it was created and
  records of one size.
\<close>

definition asset_fits :: "'b fb \<Rightarrow> string \<Rightarrow> 'b \<Rightarrow> 'b ledger \<Rightarrow> bool" where
  "asset_fits F acc asset g \<longleftrightarrow> key_size_ok (fb_size F) (IStr acc)
     \<and> (held g acc (asset_id F asset) = None \<longrightarrow>
          key_size_ok (fb_size F) (IBlob asset)
          \<and> lg_assets g acc (asset_id F asset) = None
          \<and> (\<forall>pk b. lg_assets g acc pk = Some b \<longrightarrow> fb_size F b = fb_size F asset))"

text \<open>Adding to what the account does not hold, and to what it holds.\<close>

lemma add_new_follows:
  assumes L: "lmdb_ok (fb_size F) L" and w: "wsv_ok F e w"
    and h: "map_of (w_trees w) ''wsv_pubkey_assets'' = Some (d, c)"
    and fits: "asset_fits F acc asset (wsv_abs F e w)" and pk: "item_pk F (IBlob asset) = Some (asset_id F asset)"
    and s: "step_on (w_append_tx w) {} e e1" and none: "held (wsv_abs F e w) acc (asset_id F asset) = None"
    and m: "m (e, w) = bindS (cursor_put L c (IStr acc) (IBlob asset) [])
      (\<lambda>res. critical res [MDB_MAP_FULL, MDB_TXN_FULL, EACCES, EINVAL]) (e1, w)"
  shows "wsv_follows F m (spec_add F acc asset (wsv_abs F e w)) e w"
proof -
  note ok = wsv_ok_step [OF w s]
  have key: "key_size_ok (fb_size F) (IStr acc)" using fits by (simp add: asset_fits_def)
  obtain rc e2 where p: "mdb_cursor_put L c (IStr acc) (IBlob asset) [] e1 = (rc, e2)"
    by (cases "mdb_cursor_put L c (IStr acc) (IBlob asset) [] e1")
  have new: "lg_assets (wsv_abs F e1 w) acc (asset_id F asset) = None" "key_size_ok (fb_size F) (IBlob asset)"
    "\<And>pk' b'. lg_assets (wsv_abs F e1 w) acc pk' = Some b' \<Longrightarrow> fb_size F b' = fb_size F asset"
    using fits none ok by (simp_all add: asset_fits_def)
  have r: "step_on (w_append_tx w) {''wsv_pubkey_assets''} e1 e2" "rc \<in> put_codes"
    "rc = MDB_SUCCESS \<Longrightarrow> wsv_ok F e2 w \<and> wsv_abs F e2 w = set_asset acc (asset_id F asset) asset (wsv_abs F e w)"
    using put_asset_new [OF L _ h new(1) pk key new(2,3) p] ok by simp_all
  have "step_on (w_append_tx w) wsv_set e e2"
    using step_on_trans [OF step_on_mono [OF s] step_on_mono [OF r(1)]] by (simp add: wsv_names_def)
  then show ?thesis using m r none
    by (simp add: wsv_follows_def bindS_def cursor_put_def p critical_put(1) [OF r(2)] spec_add_def)
qed

lemma spec_add_not_found:
  assumes "held g acc (asset_id F asset) \<noteq> None"
  shows "fst (spec_add F acc asset g) \<noteq> Inl (InvalidTransaction ASSET_NOT_FOUND)"
  using assms by (auto simp: spec_add_def Let_def dest: spec_combine_add_error split: option.splits sum.splits)

lemma add_follows:
  assumes L: "lmdb_ok (fb_size F) L" and F: "fb_ok F" and w: "wsv_ok F e w"
    and fits: "asset_fits F acc asset (wsv_abs F e w)" and cy: "fb_asset F asset = CurrencyAsset cy"
  shows "wsv_follows F (account_add_currency F L acc asset)
    (spec_add F acc asset (wsv_abs F e w)) e w"
proof -
  obtain d c where h: "map_of (w_trees w) ''wsv_pubkey_assets'' = Some (d, c)"
    "wsv_tree ''wsv_pubkey_assets'' (e, w) = (Inr (d, c), (e, w))"
    using wsv_handle [OF w, of "''wsv_pubkey_assets''" True] by (auto simp: wsv_names_def)
  have key: "key_size_ok (fb_size F) (IStr acc)" using fits by (simp add: asset_fits_def)
  let ?pk = "asset_pk (cy_ledger_name cy) (cy_domain_name cy) (cy_currency_name cy)"
  have id: "asset_id F asset = ?pk" using cy by (simp add: asset_id_def currency_pk_def)
  have pk: "item_pk F (IBlob asset) = Some (asset_id F asset)" using cy by (simp add: item_pk_def currency_pk_def id)
  obtain r e1 w1 where g: "accountGetAsset L acc (cy_ledger_name cy) (cy_domain_name cy)
      (cy_currency_name cy) True False (e, w) = (r, (e1, w1))" by (metis prod.exhaust)
  note ga = get_asset [OF L w key h(1) g]
  have w1: "w1 = w" and s: "step_on (w_append_tx w) {} e e1" using ga by auto
  note ok = wsv_ok_step [OF w s]
  have start: "account_add_currency F L acc asset (e, w) =
      (case add_currency_try F L c acc asset cy (e, w) of
         (Inr r, s') \<Rightarrow> (Inr r, s')
       | (Inl err, s') \<Rightarrow> if err = InvalidTransaction ASSET_NOT_FOUND
           then bindS (cursor_put L c (IStr acc) (IBlob asset) [])
                 (\<lambda>res. critical res [MDB_MAP_FULL, MDB_TXN_FULL, EACCES, EINVAL]) s'
           else (Inl err, s'))"
    using cy h(2) by (simp add: account_add_currency_def bindS_def as_currency_def result_simps)
  have try_err: "add_currency_try F L c acc asset cy (e, w) = (Inl err, (e1, w))" if "r = Inl err" for err
    using that g w1 by (simp add: add_currency_try_def bindS_def)
  consider "r = Inl (InternalError FATAL)"
    | "r = Inl (InvalidTransaction ASSET_NOT_FOUND)" "held (wsv_abs F e w) acc ?pk = None"
    | b i where "r = Inr (IBlob b)" "held (wsv_abs F e w) acc ?pk = Some b"
        "at_record e1 (w_append_tx w) ''wsv_pubkey_assets'' c i"
        "wtree e w ''wsv_pubkey_assets'' ! i = (IStr acc, IBlob b)" "item_pk F (IBlob b) = Some ?pk"
    using ga by metis
  then show ?thesis
  proof cases
    case 1
    then show ?thesis using start try_err [OF 1] step_on_mono [OF s] by (simp add: wsv_follows_def)
  next
    case 2
    show ?thesis
      by (rule add_new_follows [OF L w h(1) fits pk s]) (use 2 start try_err [OF 2(1)] id in simp_all)
  next
    case 3
    obtain cy0 where cy0: "fb_asset F b = CurrencyAsset cy0" using item_pk_Some [OF 3(5)] by auto
    note tr = add_try_unfold [OF cy cy0 g [unfolded 3(1) w1], of c]
    have fw: "wsv_follows F (add_currency_try F L c acc asset cy)
        (spec_add F acc asset (wsv_abs F e w)) e w"
      using put_current_follows [where m = "add_currency_try F L c acc asset cy",
          OF L F w conjunct1 [OF ok] s conjunct2 [OF ok] h(1) 3(3,4,5) key tr] 3(2)
      by (simp add: spec_add_def id)
    obtain r2 s2 where rs: "add_currency_try F L c acc asset cy (e, w) = (r2, s2)"
      by (metis prod.exhaust)
    have "r2 \<noteq> Inl (InvalidTransaction ASSET_NOT_FOUND)"
      using fw rs spec_add_not_found [of "wsv_abs F e w" acc F asset] 3(2)
      by (auto simp: wsv_follows_def id split: prod.splits) (metis fst_conv)
    then have "account_add_currency F L acc asset (e, w) = (r2, s2)"
      using start rs by (auto split: sum.splits)
    then show ?thesis using fw rs by (simp add: wsv_follows_def)
  qed
qed

section \<open>Accounts, assets and peers: trees without duplicates\<close>

lemma put_map:
  assumes L: "lmdb_ok (fb_size F) L" and w: "wsv_ok F e w"
    and n: "(n, False) \<in> set wsv_names" and c: "map_of (w_trees w) n = Some (d, c)"
    and key: "key_size_ok (fb_size F) k"
    and p: "mdb_cursor_put L c k v [] e = (rc, e')"
  shows "step_on (w_append_tx w) {n} e e' \<and> rc \<in> put_codes
    \<and> (rc = MDB_SUCCESS \<longrightarrow> nodup (wtree e' w n) \<and> tmap (wtree e' w n) = (tmap (wtree e w n))(k \<mapsto> v))"
proof -
  have nd: "nodup (wtree e w n)" using n wsv_okD(4,5,6) [OF w] by (auto simp: wsv_names_def)
  have "put_size_ok (fb_size F) False (store_tree e (w_append_tx w) n) k v"
    using key by (simp add: put_size_ok_def)
  from store_put [OF L wsv_okD(1) [OF w] n c p this] put_effect_map [OF _ nd]
  show ?thesis by (auto simp: wtree_def)
qed

lemma set_get:
  assumes L: "lmdb_ok (fb_size F) L" and w: "wsv_ok F e w"
    and n: "(n, dup) \<in> set wsv_names" and c: "map_of (w_trees w) n = Some (d, c)"
    and key: "key_size_ok (fb_size F) k"
    and g: "mdb_cursor_get L c MDB_SET k v e = (rc, k', v', e')"
  shows "step_on (w_append_tx w) {} e e' \<and> (rc = EINVAL
    \<or> rc = MDB_NOTFOUND \<and> k \<notin> tkeys (wtree e w n)
    \<or> rc = MDB_SUCCESS \<and> (\<exists>i. at_record e' (w_append_tx w) n c i \<and> fst (wtree e w n ! i) = k
         \<and> i < length (wtree e w n)))"
proof -
  have "get_target (env_cmp e n) MDB_SET k v t None = find_ix (\<lambda>r. fst r = k) t" for t
    by (simp add: get_target_def)
  then show ?thesis
    using cursor_seek [OF L store_reads [OF wsv_okD(1) [OF w] n c] g] key
    by (auto simp: wtree_def tkeys_def find_ix_None dest: find_ix_Some)
qed

lemma del_record:
  assumes L: "lmdb_ok (fb_size F) L" and w: "wsv_ok F e w"
    and n: "(n, dup) \<in> set wsv_names" and c: "map_of (w_trees w) n = Some (d, c)"
    and i: "at_record e (w_append_tx w) n c i" "fst (wtree e w n ! i) = k"
    and g: "mdb_cursor_del L c fl e = (rc, e')"
  shows "step_on (w_append_tx w) {n} e e' \<and> rc \<in> {MDB_SUCCESS, EACCES, EINVAL}
    \<and> (rc = MDB_SUCCESS \<longrightarrow>
      (fl = [] \<and> \<not> dup \<longrightarrow> nodup (wtree e' w n) \<and> tmap (wtree e' w n) = (tmap (wtree e w n))(k := None))
      \<and> (fl = [MDB_NODUPDATA] \<longrightarrow> wtree e' w n = filter (\<lambda>r. fst r \<noteq> k) (wtree e w n)))"
proof -
  have nd: "\<not> dup \<Longrightarrow> nodup (wtree e w n)"
    using n wsv_okD(4,5,6) [OF w] by (auto simp: wsv_names_def)
  have il: "i < length (wtree e w n)" using i(1) by (simp add: at_record_def wtree_def)
  show ?thesis
    using store_del [OF L wsv_okD(1) [OF w] n c g i(1)] Lmdb.delete_map [OF nd il i(2)] i(2)
    by (simp add: wtree_def)
qed

text \<open>The invariant after a change of one tree without duplicates.\<close>

text \<open>Looking a key up and deleting what the cursor is at, the way all removals begin.\<close>

lemma seek_delete:
  assumes L: "lmdb_ok (fb_size F) L" and w: "wsv_ok F e w"
    and n: "(n, dup) \<in> set wsv_names" and c: "map_of (w_trees w) n = Some (d, c)"
    and key: "key_size_ok (fb_size F) k"
    and g: "mdb_cursor_get L c MDB_SET k v e = (rc, k', v', e1)"
    and del: "mdb_cursor_del L c fl e1 = (rc2, e2)"
  shows "step_on (w_append_tx w) {} e e1" and "rc \<in> {EINVAL, MDB_NOTFOUND, MDB_SUCCESS}"
    and "rc = MDB_NOTFOUND \<Longrightarrow> k \<notin> tkeys (wtree e w n)"
    and "rc = MDB_SUCCESS \<Longrightarrow> k \<in> tkeys (wtree e w n)
      \<and> step_on (w_append_tx w) {n} e e2 \<and> rc2 \<in> {MDB_SUCCESS, EACCES, EINVAL}
      \<and> (rc2 = MDB_SUCCESS \<longrightarrow>
          (fl = [] \<and> \<not> dup \<longrightarrow> nodup (wtree e2 w n) \<and> tmap (wtree e2 w n) = (tmap (wtree e w n))(k := None))
          \<and> (fl = [MDB_NODUPDATA] \<longrightarrow> wtree e2 w n = filter (\<lambda>r. fst r \<noteq> k) (wtree e w n)))"
proof -
  note sg = set_get [OF L w n c key g]
  show s: "step_on (w_append_tx w) {} e e1" using sg by (rule conjunct1)
  show "rc \<in> {EINVAL, MDB_NOTFOUND, MDB_SUCCESS}" "rc = MDB_NOTFOUND \<Longrightarrow> k \<notin> tkeys (wtree e w n)"
    using sg by auto
  have t: "wtree e1 w n = wtree e w n" using step_on_tree [OF s] by (simp add: wtree_def)
  assume "rc = MDB_SUCCESS"
  then obtain i where i: "at_record e1 (w_append_tx w) n c i" "fst (wtree e w n ! i) = k"
    "i < length (wtree e w n)" using sg by auto
  have "wsv_ok F e1 w" using wsv_ok_step [OF w s] by simp
  note dl = del_record [OF L this n c i(1) _ del, unfolded t, OF i(2)]
  have "step_on (w_append_tx w) {n} e e2"
    using step_on_trans [OF step_on_mono [OF s] conjunct1 [OF dl]] by simp
  then show "k \<in> tkeys (wtree e w n)
      \<and> step_on (w_append_tx w) {n} e e2 \<and> rc2 \<in> {MDB_SUCCESS, EACCES, EINVAL}
      \<and> (rc2 = MDB_SUCCESS \<longrightarrow>
          (fl = [] \<and> \<not> dup \<longrightarrow> nodup (wtree e2 w n) \<and> tmap (wtree e2 w n) = (tmap (wtree e w n))(k := None))
          \<and> (fl = [MDB_NODUPDATA] \<longrightarrow> wtree e2 w n = filter (\<lambda>r. fst r \<noteq> k) (wtree e w n)))"
    using nth_tkeys [OF i(3,2)] conjunct2 [OF dl] by simp
qed

lemma wsv_ok_account:
  assumes w: "wsv_ok F e w" and s: "step_on (w_append_tx w) {''wsv_pubkey_account''} e e'"
    and a: "nodup (wtree e' w ''wsv_pubkey_account'')"
    "tmap (wtree e' w ''wsv_pubkey_account'') = (tmap (wtree e w ''wsv_pubkey_account''))(IStr k := x)"
  shows "wsv_ok F e' w"
    "wsv_abs F e' w = (wsv_abs F e w)\<lparr>lg_accounts := (lg_accounts (wsv_abs F e w))(k := x)\<rparr>"
  using w a store_ok_step [OF _ s] step_on_cmp [OF s] step_wtree [OF s]
  by (auto simp: wsv_ok_def wsv_abs_def fun_eq_iff)

lemma wsv_ok_peer:
  assumes w: "wsv_ok F e w" and s: "step_on (w_append_tx w) {''wsv_ip_peer''} e e'"
    and a: "nodup (wtree e' w ''wsv_ip_peer'')"
    "tmap (wtree e' w ''wsv_ip_peer'') = (tmap (wtree e w ''wsv_ip_peer''))(IStr k := x)"
  shows "wsv_ok F e' w"
    "wsv_abs F e' w = (wsv_abs F e w)\<lparr>lg_peers := (lg_peers (wsv_abs F e w))(k := x)\<rparr>"
  using w a store_ok_step [OF _ s] step_on_cmp [OF s] step_wtree [OF s]
  by (auto simp: wsv_ok_def wsv_abs_def fun_eq_iff)

lemma wsv_ok_created:
  assumes w: "wsv_ok F e w" and s: "step_on (w_append_tx w) {''wsv_assetid_asset''} e e'"
    and a: "nodup (wtree e' w ''wsv_assetid_asset'')"
    "tmap (wtree e' w ''wsv_assetid_asset'') =
      (tmap (wtree e w ''wsv_assetid_asset''))(IStr k \<mapsto> IBlob b)"
    and pk: "item_pk F (IBlob b) = Some k"
  defines "w' \<equiv> w\<lparr>w_created_assets := (w_created_assets w)(k \<mapsto> b)\<rparr>"
  shows "wsv_ok F e' w'"
    "wsv_abs F e' w' = (wsv_abs F e w)\<lparr>lg_created := (lg_created (wsv_abs F e w))(k \<mapsto> b)\<rparr>"
proof -
  have t: "wtree e' w' n = wtree e' w n" for n by (simp add: wtree_def w'_def)
  have o: "wtree e' w ''wsv_pubkey_assets'' = wtree e w ''wsv_pubkey_assets''"
    "wtree e' w ''wsv_pubkey_account'' = wtree e w ''wsv_pubkey_account''"
    "wtree e' w ''wsv_ip_peer'' = wtree e w ''wsv_ip_peer''"
    using step_wtree [OF s] by simp_all
  show "wsv_ok F e' w'"
    using w a pk store_ok_step [OF _ s] step_on_cmp [OF s]
    by (auto simp: wsv_ok_def t o) (auto simp: w'_def split: if_splits)
  show "wsv_abs F e' w' = (wsv_abs F e w)\<lparr>lg_created := (lg_created (wsv_abs F e w))(k \<mapsto> b)\<rparr>"
    by (simp add: wsv_abs_def t o) (simp add: w'_def)
qed

section \<open>Every command\<close>

definition spec_update :: "'b fb \<Rightarrow> 'b command \<Rightarrow> 'b ledger \<Rightarrow> (error + unit) \<times> 'b ledger" where
  "spec_update F cmd g = (case cmd of
       AssetCreate an dn ln \<Rightarrow> (Inr (), g\<lparr>lg_created := (lg_created g)
         (asset_pk ln dn an \<mapsto> fb_create_currency F (c_str an) (c_str dn) (c_str ln))\<rparr>)
     | AssetAdd acc asset \<Rightarrow>
         if is_currency F asset then spec_add F acc asset g else (Inl (InternalError NOT_IMPLEMENTED), g)
     | AssetRemove acc asset \<Rightarrow>
         if is_currency F asset then spec_remove F acc asset g else (Inl (InternalError NOT_IMPLEMENTED), g)
     | AssetTransfer asset sender receiver \<Rightarrow>
         if is_currency F asset then
           (case spec_remove F sender asset g of
              (Inl err, g') \<Rightarrow> (Inl err, g')
            | (Inr _, g') \<Rightarrow> spec_add F receiver asset g')
         else (Inl (InternalError NOT_IMPLEMENTED), g)
     | AccountAdd account \<Rightarrow> (Inr (), g\<lparr>lg_accounts := (lg_accounts g)
         (fb_account_pubKey F account \<mapsto> IBlob account)\<rparr>)
     | AccountRemove pubkey \<Rightarrow> (case pubkey of
           None \<Rightarrow> (Inl Undefined, g)
         | Some pk \<Rightarrow>
             if lg_accounts g pk = None then (Inl (InvalidTransaction ACCOUNT_NOT_FOUND), g)
             else (Inr (), g\<lparr>lg_accounts := (lg_accounts g)(pk := None),
                              lg_assets := (lg_assets g)(pk := (\<lambda>_. None))\<rparr>))
     | PeerAdd peer \<Rightarrow> (case fb_peer_ip F peer of
           None \<Rightarrow> (Inl Undefined, g)
         | Some ip \<Rightarrow> (Inr (), g\<lparr>lg_peers := (lg_peers g)(ip \<mapsto> IBlob peer)\<rparr>))
     | PeerRemove peer \<Rightarrow> (case fb_peer_ip F peer of
           None \<Rightarrow> (Inl Undefined, g)
         | Some ip \<Rightarrow>
             if lg_peers g ip = None then (Inl (InvalidTransaction PEER_NOT_FOUND), g)
             else (Inr (), g\<lparr>lg_peers := (lg_peers g)(ip := None)\<rparr>))
     | _ \<Rightarrow> (Inl (InternalError NOT_IMPLEMENTED), g))"

text \<open>The sizes a command needs.\<close>

definition cmd_fits :: "'b fb \<Rightarrow> 'b command \<Rightarrow> 'b ledger \<Rightarrow> bool" where
  "cmd_fits F cmd g = (let ok = (\<lambda>s. key_size_ok (fb_size F) (IStr s)) in case cmd of
       AssetCreate an dn ln \<Rightarrow> ok (asset_pk ln dn an)
     | AssetAdd acc asset \<Rightarrow> asset_fits F acc asset g
     | AssetRemove acc asset \<Rightarrow> ok acc
     | AssetTransfer asset sender receiver \<Rightarrow>
         ok sender \<and> asset_fits F receiver asset (snd (spec_remove F sender asset g))
     | AccountAdd account \<Rightarrow> ok (fb_account_pubKey F account)
     | AccountRemove pubkey \<Rightarrow> (case pubkey of None \<Rightarrow> True | Some pk \<Rightarrow> ok pk)
     | PeerAdd peer \<Rightarrow> (case fb_peer_ip F peer of None \<Rightarrow> True | Some ip \<Rightarrow> ok ip)
     | PeerRemove peer \<Rightarrow> (case fb_peer_ip F peer of None \<Rightarrow> True | Some ip \<Rightarrow> ok ip)
     | _ \<Rightarrow> True)"

lemma c_str_idem [simp]: "c_str (c_str s) = c_str s"
  by (simp add: c_str_def takeWhile_idem)

lemma is_currencyD: "is_currency F b \<Longrightarrow> \<exists>cy. fb_asset F b = CurrencyAsset cy"
  by (auto simp: is_currency_def split: any_asset.splits)

lemma follows_bind:
  assumes "wsv_follows F m sp e w" and w: "wsv_ok F e w"
    and "\<And>e' w'. wsv_ok F e' w' \<Longrightarrow> wsv_abs F e' w' = snd sp \<Longrightarrow> w_append_tx w' = w_append_tx w \<Longrightarrow>
      wsv_follows F m' (sp' (snd sp)) e' w'"
  shows "wsv_follows F (bindS m (\<lambda>_. m'))
    (case sp of (Inl err, g) \<Rightarrow> (Inl err, g) | (Inr _, g) \<Rightarrow> sp' g) e w"
proof -
  obtain r e1 w1 where m: "m (e, w) = (r, (e1, w1))" by (metis prod.exhaust)
  have m1: "step_on (w_append_tx w) wsv_set e e1" "w_trees w1 = w_trees w"
    "w_append_tx w1 = w_append_tx w"
    "r = Inl (InternalError FATAL) \<or> wsv_ok F e1 w1 \<and> (r, wsv_abs F e1 w1) = sp"
    using assms(1) m by (simp_all add: wsv_follows_def)
  show ?thesis
  proof (cases r)
    case (Inl err)
    then show ?thesis using m m1 by (auto simp: wsv_follows_def bindS_def)
  next
    case (Inr u)
    obtain r2 e2 w2 where m2: "m' (e1, w1) = (r2, (e2, w2))" by (metis prod.exhaust)
    have sp: "sp = (Inr u, wsv_abs F e1 w1)" and "wsv_ok F e1 w1" using m1(4) Inr by auto
    then have "wsv_follows F m' (sp' (wsv_abs F e1 w1)) e1 w1" using assms(3) [of e1 w1] m1(3) by simp
    then show ?thesis using m Inr m1 m2 step_on_trans [OF m1(1)] sp
      by (simp add: wsv_follows_def bindS_def)
  qed
qed

lemma follows_fail: "wsv_ok F e w \<Longrightarrow> wsv_follows F (throwS err) (Inl err, wsv_abs F e w) e w"
  by (simp add: wsv_follows_def result_simps)

lemma create_follows:
  assumes L: "lmdb_ok (fb_size F) L" and F: "fb_ok F" and w: "wsv_ok F e w"
    and fits: "cmd_fits F (AssetCreate an dn ln) (wsv_abs F e w)"
  shows "wsv_follows F (asset_create F L an dn ln)
    (spec_update F (AssetCreate an dn ln) (wsv_abs F e w)) e w"
proof -
  let ?n = "''wsv_assetid_asset''" and ?pk = "asset_pk ln dn an"
  let ?b = "fb_create_currency F (c_str an) (c_str dn) (c_str ln)"
  have n: "(?n, False) \<in> set wsv_names" by (simp add: wsv_names_def)
  obtain d c where h: "map_of (w_trees w) ?n = Some (d, c)" "wsv_tree ?n (e, w) = (Inr (d, c), (e, w))"
    using wsv_handle [OF w n] by blast
  obtain rc e' where p: "mdb_cursor_put L c (IStr ?pk) (IBlob ?b) [] e = (rc, e')"
    by (metis prod.exhaust)
  have r: "step_on (w_append_tx w) {?n} e e'" "rc \<in> put_codes"
    "rc = MDB_SUCCESS \<Longrightarrow> nodup (wtree e' w ?n)"
    "rc = MDB_SUCCESS \<Longrightarrow> tmap (wtree e' w ?n) = (tmap (wtree e w ?n))(IStr ?pk \<mapsto> IBlob ?b)"
    using put_map [OF L w n h(1) _ p] fits by (simp_all add: cmd_fits_def)
  have pk: "item_pk F (IBlob ?b) = Some ?pk"
    using F by (simp add: fb_ok_def item_pk_def currency_pk_def asset_pk_def)
  have "step_on (w_append_tx w) wsv_set e e'"
    using step_on_mono [OF r(1)] by (simp add: wsv_names_def)
  then show ?thesis using wsv_ok_created [OF w r(1,3,4) pk]
    by (simp add: wsv_follows_def asset_create_def Let_def h(2) bindS_def cursor_put_def p whenS_def
      critical_put(1,3) [OF r(2)] modify_wsv_def result_simps spec_update_def)
qed

lemma account_add_follows:
  assumes L: "lmdb_ok (fb_size F) L" and w: "wsv_ok F e w"
    and fits: "cmd_fits F (AccountAdd a) (wsv_abs F e w)"
  shows "wsv_follows F (account_add F L a) (spec_update F (AccountAdd a) (wsv_abs F e w)) e w"
proof -
  let ?n = "''wsv_pubkey_account''" and ?k = "fb_account_pubKey F a"
  have n: "(?n, False) \<in> set wsv_names" by (simp add: wsv_names_def)
  obtain d c where h: "map_of (w_trees w) ?n = Some (d, c)" "wsv_tree ?n (e, w) = (Inr (d, c), (e, w))"
    using wsv_handle [OF w n] by blast
  obtain rc e' where p: "mdb_cursor_put L c (IStr ?k) (IBlob a) [] e = (rc, e')"
    by (metis prod.exhaust)
  have r: "step_on (w_append_tx w) {?n} e e'" "rc \<in> put_codes"
    "rc = MDB_SUCCESS \<Longrightarrow> nodup (wtree e' w ?n)"
    "rc = MDB_SUCCESS \<Longrightarrow> tmap (wtree e' w ?n) = (tmap (wtree e w ?n))(IStr ?k \<mapsto> IBlob a)"
    using put_map [OF L w n h(1) _ p] fits by (simp_all add: cmd_fits_def)
  have "step_on (w_append_tx w) wsv_set e e'"
    using step_on_mono [OF r(1)] by (simp add: wsv_names_def)
  then show ?thesis using wsv_ok_account [OF w r(1,3,4)]
    by (simp add: wsv_follows_def account_add_def h(2) bindS_def cursor_put_def p whenS_def
      critical_put(1,3) [OF r(2)] result_simps spec_update_def)
qed

lemma peer_add_follows:
  assumes L: "lmdb_ok (fb_size F) L" and w: "wsv_ok F e w"
    and fits: "cmd_fits F (PeerAdd a) (wsv_abs F e w)"
  shows "wsv_follows F (peer_add F L a) (spec_update F (PeerAdd a) (wsv_abs F e w)) e w"
proof -
  let ?n = "''wsv_ip_peer''"
  have n: "(?n, False) \<in> set wsv_names" by (simp add: wsv_names_def)
  obtain d c where h: "map_of (w_trees w) ?n = Some (d, c)" "wsv_tree ?n (e, w) = (Inr (d, c), (e, w))"
    using wsv_handle [OF w n] by blast
  show ?thesis
  proof (cases "fb_peer_ip F a")
    case None
    then show ?thesis using w
      by (simp add: wsv_follows_def peer_add_def h(2) bindS_def result_simps spec_update_def)
  next
    case (Some ip)
    obtain rc e' where p: "mdb_cursor_put L c (IStr ip) (IBlob a) [] e = (rc, e')"
      by (metis prod.exhaust)
    have r: "step_on (w_append_tx w) {?n} e e'" "rc \<in> put_codes"
      "rc = MDB_SUCCESS \<Longrightarrow> nodup (wtree e' w ?n)"
      "rc = MDB_SUCCESS \<Longrightarrow> tmap (wtree e' w ?n) = (tmap (wtree e w ?n))(IStr ip \<mapsto> IBlob a)"
      using put_map [OF L w n h(1) _ p] fits Some by (simp_all add: cmd_fits_def)
    have "step_on (w_append_tx w) wsv_set e e'"
      using step_on_mono [OF r(1)] by (simp add: wsv_names_def)
    then show ?thesis using wsv_ok_peer [OF w r(1,3,4)] Some
      by (simp add: wsv_follows_def peer_add_def h(2) bindS_def cursor_put_def p whenS_def
        critical_put(1,3) [OF r(2)] result_simps spec_update_def)
  qed
qed

text \<open>Both removals look a key up, reject it when it is not there, and delete its record.\<close>

lemma bindS_unit: "bindS m (\<lambda>_. returnS ()) = m"
  by (auto simp: bindS_def result_simps fun_eq_iff split: prod.split sum.split)

lemma delete_key:
  assumes L: "lmdb_ok (fb_size F) L" and w: "wsv_ok F e w" and n: "(n, False) \<in> set wsv_names"
    and c: "map_of (w_trees w) n = Some (d, c)" and key: "key_size_ok (fb_size F) k"
  defines "m \<equiv> \<lambda>buf err f. bindS (cursor_get L c MDB_SET k buf) (\<lambda>(res, c_key, c_val).
      bindS (whenS (res = MDB_NOTFOUND) (throwS (InvalidTransaction err))) (\<lambda>_.
      bindS (critical res [EINVAL]) (\<lambda>_.
      bindS (cursor_del L c []) (\<lambda>res.
      bindS (critical res [EACCES, EINVAL]) (\<lambda>_. f c_val)))))"
  obtains (fatal) e2 where "m buf err f (e, w) = (Inl (InternalError FATAL), (e2, w))" "step_on (w_append_tx w) wsv_set e e2"
    | (missing) e2 where "m buf err f (e, w) = (Inl (InvalidTransaction err), (e2, w))" "k \<notin> tkeys (wtree e w n)"
        "step_on (w_append_tx w) {} e e2"
    | (deleted) v e2 where "m buf err f (e, w) = f v (e2, w)" "k \<in> tkeys (wtree e w n)"
        "step_on (w_append_tx w) {n} e e2" "nodup (wtree e2 w n)" "tmap (wtree e2 w n) = (tmap (wtree e w n))(k := None)"
proof -
  obtain rc k' v e1 where g: "mdb_cursor_get L c MDB_SET k buf e = (rc, k', v, e1)" by (metis prod_cases4)
  obtain rc2 e2 where del: "mdb_cursor_del L c [] e1 = (rc2, e2)" by (metis prod.exhaust)
  note sd = seek_delete [OF L w n c key g del]
  consider "rc = MDB_NOTFOUND" | "rc = EINVAL" | "rc = MDB_SUCCESS" using sd(2) by blast
  then show ?thesis
  proof cases
    case 1
    then have "m buf err f (e, w) = (Inl (InvalidTransaction err), (e1, w))"
      by (simp add: m_def bindS_def cursor_get_def g whenS_def result_simps)
    then show ?thesis using missing sd(1,3) 1 by blast
  next
    case 2
    then have "m buf err f (e, w) = (Inl (InternalError FATAL), (e1, w))"
      by (simp add: m_def bindS_def cursor_get_def g whenS_def critical_def result_simps)
    then show ?thesis using fatal step_on_mono [OF sd(1)] by blast
  next
    case 3
    note dl = sd(4) [OF 3]
    have rc2: "rc2 \<in> {MDB_SUCCESS, EACCES, EINVAL}" and s2: "step_on (w_append_tx w) {n} e e2" using dl by blast+
    have run: "m buf err f (e, w) = (if rc2 = MDB_SUCCESS then f v (e2, w) else (Inl (InternalError FATAL), (e2, w)))"
      using 3 by (simp add: m_def bindS_def cursor_get_def g cursor_del_def del whenS_def result_simps critical_del [OF rc2])
    have "n \<in> wsv_set" using n by force
    then have "step_on (w_append_tx w) wsv_set e e2" using step_on_mono [OF s2] by blast
    then show ?thesis using fatal deleted run dl by (cases "rc2 = MDB_SUCCESS") auto
  qed
qed

lemma peer_remove_follows:
  assumes L: "lmdb_ok (fb_size F) L" and w: "wsv_ok F e w"
    and fits: "cmd_fits F (PeerRemove a) (wsv_abs F e w)"
  shows "wsv_follows F (peer_remove F L a) (spec_update F (PeerRemove a) (wsv_abs F e w)) e w"
proof -
  let ?n = "''wsv_ip_peer''" and ?g = "wsv_abs F e w"
  have n: "(?n, False) \<in> set wsv_names" by (simp add: wsv_names_def)
  obtain d c where h: "map_of (w_trees w) ?n = Some (d, c)" "wsv_tree ?n (e, w) = (Inr (d, c), (e, w))"
    using wsv_handle [OF w n] by blast
  show ?thesis
  proof (cases "fb_peer_ip F a")
    case None
    then show ?thesis using w
      by (simp add: wsv_follows_def peer_remove_def h(2) bindS_def result_simps spec_update_def)
  next
    case (Some ip)
    have key: "key_size_ok (fb_size F) (IStr ip)" using fits Some by (simp add: cmd_fits_def)
    have lg: "lg_peers ?g ip = None \<longleftrightarrow> IStr ip \<notin> tkeys (wtree e w ?n)" by (simp add: wsv_abs_def tmap_None)
    have "bindS (wsv_tree ?n) f (e, w) = f (d, c) (e, w)" for f using h(2) by (simp add: bindS_def)
    note run = peer_remove_def this Some
    show ?thesis
    proof (cases rule: delete_key [OF L w n h(1) key, where buf = "IBlob a" and err = PEER_NOT_FOUND
        and f = "\<lambda>_. returnS ()", unfolded bindS_unit, case_names fatal missing deleted])
      case (fatal e2)
      then show ?thesis by (simp add: wsv_follows_def run)
    next
      case (missing e2)
      then show ?thesis using wsv_ok_step [OF w missing(3)] step_on_mono [OF missing(3)] lg Some
        by (simp add: wsv_follows_def run spec_update_def)
    next
      case (deleted v e2)
      have "step_on (w_append_tx w) wsv_set e e2" using step_on_mono [OF deleted(3)] by (simp add: wsv_names_def)
      then show ?thesis using deleted lg Some wsv_ok_peer [OF w deleted(3-5)]
        by (auto simp: wsv_follows_def run spec_update_def result_simps)
    qed
  qed
qed

text \<open>Removing an account removes what it holds.\<close>

lemma wsv_ok_drop_assets:
  assumes w: "wsv_ok F e w" and s: "step_on (w_append_tx w) {''wsv_pubkey_assets''} e e'"
    and t: "wtree e' w ''wsv_pubkey_assets'' =
      filter (\<lambda>r. fst r \<noteq> IStr pk) (wtree e w ''wsv_pubkey_assets'')"
  shows "wsv_ok F e' w"
    "wsv_abs F e' w = (wsv_abs F e w)\<lparr>lg_assets := (lg_assets (wsv_abs F e w))(pk := (\<lambda>_. None))\<rparr>"
proof -
  let ?t = "wtree e w ''wsv_pubkey_assets''" and ?n = "''wsv_pubkey_assets''"
  have tg: "tget (wtree e' w ?n) k = (if k = IStr pk then [] else tget ?t k)" for k
    unfolding t by (simp add: tget_filter_other tget_filter_same)
  have a: "assets_ok F (wtree e' w ?n)"
    unfolding assets_ok_def
  proof
    fix k
    show "(\<forall>v \<in> set (tget (wtree e' w ?n) k). item_pk F v \<noteq> None \<and> key_size_ok (fb_size F) v
        \<and> (\<forall>v' \<in> set (tget (wtree e' w ?n) k). item_size (fb_size F) v' = item_size (fb_size F) v))
      \<and> distinct (map (item_pk F) (tget (wtree e' w ?n) k))"
    proof (cases "k = IStr pk")
      case False
      then have eq: "tget (wtree e' w ?n) k = tget ?t k" by (simp add: tg)
      show ?thesis unfolding eq by (rule spec [OF wsv_okD(3) [OF w, unfolded assets_ok_def]])
    qed (simp add: tg)
  qed
  have h: "hold F (wtree e' w ?n) = (hold F ?t)(pk := (\<lambda>_. None))"
    by (auto simp: hold_def tg fun_eq_iff)
  show "wsv_ok F e' w"
    "wsv_abs F e' w = (wsv_abs F e w)\<lparr>lg_assets := (lg_assets (wsv_abs F e w))(pk := (\<lambda>_. None))\<rparr>"
    using wsv_ok_assets [OF w s a h] by simp_all
qed

lemma hold_absent: "IStr pk \<notin> tkeys t \<Longrightarrow> hold F t pk = (\<lambda>_. None)"
  by (simp add: hold_def tget_eq_Nil [symmetric] fun_eq_iff)

lemma drop_assets_follows:
  fixes L :: "('b, 'x) lmdb"
  assumes L: "lmdb_ok (fb_size F) L" and w: "wsv_ok F e w" and key: "key_size_ok (fb_size F) (IStr pk)"
  shows "wsv_follows F
    (bindS (wsv_tree ''wsv_pubkey_assets'') (\<lambda>(dbi, cursor).
     bindS (cursor_get L cursor MDB_SET (IStr pk) v) (\<lambda>(res, c_key, c_val).
     bindS (critical res [EINVAL]) (\<lambda>_.
     if res = MDB_NOTFOUND then returnS ()
     else bindS (cursor_del L cursor [MDB_NODUPDATA]) (\<lambda>res. critical res [EACCES, EINVAL])))))
    (Inr (), (wsv_abs F e w)\<lparr>lg_assets := (lg_assets (wsv_abs F e w))(pk := (\<lambda>_. None))\<rparr>) e w"
    (is "wsv_follows F ?m (Inr (), ?g') e w")
proof -
  let ?n = "''wsv_pubkey_assets''"
  have n: "(?n, True) \<in> set wsv_names" by (simp add: wsv_names_def)
  obtain d c where h: "map_of (w_trees w) ?n = Some (d, c)" "wsv_tree ?n (e, w) = (Inr (d, c), (e, w))"
    using wsv_handle [OF w n] by blast
  obtain rc k v' e1 where g: "mdb_cursor_get L c MDB_SET (IStr pk) v e = (rc, k, v', e1)"
    by (metis prod_cases4)
  obtain rc2 e2 where del: "mdb_cursor_del L c [MDB_NODUPDATA] e1 = (rc2, e2)" by (metis prod.exhaust)
  note sd = seek_delete [OF L w n h(1) key g del]
  note ok = wsv_ok_step [OF w sd(1)]
  have run: "?m (e, w) = (if rc = EINVAL then (Inl (InternalError FATAL), (e1, w))
      else if rc = MDB_NOTFOUND then (Inr (), (e1, w)) else critical rc2 [EACCES, EINVAL] (e2, w))"
    by (simp add: h(2) bindS_def cursor_get_def g cursor_del_def del result_simps critical_def)
  consider "rc = EINVAL" | "rc = MDB_NOTFOUND" | "rc = MDB_SUCCESS" using sd(2) by blast
  then show ?thesis
  proof cases
    case 1
    then show ?thesis using run step_on_mono [OF sd(1)] by (simp add: wsv_follows_def)
  next
    case 2
    have "lg_assets (wsv_abs F e w) pk = (\<lambda>_. None)"
      using hold_absent [OF sd(3) [OF 2]] by (simp add: wsv_abs_def)
    then have "?g' = wsv_abs F e w" by (simp add: fun_upd_idem)
    then show ?thesis using run 2 ok step_on_mono [OF sd(1)] by (simp add: wsv_follows_def)
  next
    case 3
    note dl = sd(4) [OF 3]
    have rc2: "rc2 \<in> {MDB_SUCCESS, EACCES, EINVAL}" and s2: "step_on (w_append_tx w) {?n} e e2"
      using dl by blast+
    have "step_on (w_append_tx w) wsv_set e e2" using step_on_mono [OF s2] by (simp add: wsv_names_def)
    moreover have "wsv_ok F e2 w \<and> wsv_abs F e2 w = ?g'" if "rc2 = MDB_SUCCESS"
      using wsv_ok_drop_assets [OF w s2] dl that by simp
    ultimately show ?thesis using run [unfolded critical_del [OF rc2]] 3
      by (simp add: wsv_follows_def)
  qed
qed

lemma account_remove_follows:
  assumes L: "lmdb_ok (fb_size F) L" and w: "wsv_ok F e w"
    and fits: "cmd_fits F (AccountRemove pubkey) (wsv_abs F e w)"
  shows "wsv_follows F (account_remove L pubkey) (spec_update F (AccountRemove pubkey) (wsv_abs F e w)) e w"
proof (cases pubkey)
  case None
  then show ?thesis using follows_fail [OF w] by (simp add: account_remove_def spec_update_def)
next
  case (Some pk)
  let ?n = "''wsv_pubkey_account''" and ?g = "wsv_abs F e w"
  have n: "(?n, False) \<in> set wsv_names" by (simp add: wsv_names_def)
  have key: "key_size_ok (fb_size F) (IStr pk)" using fits Some by (simp add: cmd_fits_def)
  obtain d c where h: "map_of (w_trees w) ?n = Some (d, c)" "wsv_tree ?n (e, w) = (Inr (d, c), (e, w))"
    using wsv_handle [OF w n] by blast
  have lg: "lg_accounts ?g pk = None \<longleftrightarrow> IStr pk \<notin> tkeys (wtree e w ?n)"
    by (simp add: wsv_abs_def tmap_None)
  let ?tail = "\<lambda>v. bindS (wsv_tree ''wsv_pubkey_assets'') (\<lambda>(dbi, cursor).
     bindS (cursor_get L cursor MDB_SET (IStr pk) v) (\<lambda>(res, c_key, c_val).
     bindS (critical res [EINVAL]) (\<lambda>_.
     if res = MDB_NOTFOUND then returnS ()
     else bindS (cursor_del L cursor [MDB_NODUPDATA]) (\<lambda>res. critical res [EACCES, EINVAL]))))"
  have run: "bindS (wsv_tree ?n) f (e, w) = f (d, c) (e, w)" for f using h(2) by (simp add: bindS_def)
  show ?thesis
  proof (cases rule: delete_key [OF L w n h(1) key, where buf = "IStr []" and err = ACCOUNT_NOT_FOUND and f = ?tail, case_names fatal missing deleted])
    case (fatal e2)
    then show ?thesis by (simp add: wsv_follows_def account_remove_def Some run)
  next
    case (missing e2)
    then show ?thesis using wsv_ok_step [OF w missing(3)] step_on_mono [OF missing(3)] lg Some
      by (simp add: wsv_follows_def account_remove_def run spec_update_def)
  next
    case (deleted v e2)
    note ok = wsv_ok_account [OF w deleted(3-5)]
    have s: "step_on (w_append_tx w) wsv_set e e2" using step_on_mono [OF deleted(3)] by (simp add: wsv_names_def)
    obtain y where there: "lg_accounts ?g pk = Some y" using lg deleted(2) by auto
    have "wsv_follows F (?tail v) (Inr (), (wsv_abs F e2 w)\<lparr>lg_assets := (lg_assets (wsv_abs F e2 w))(pk := (\<lambda>_. None))\<rparr>) e2 w"
      by (rule drop_assets_follows [OF L ok(1) key])
    moreover have "account_remove L pubkey (e, w) = ?tail v (e2, w)"
      using deleted(1) by (simp add: account_remove_def Some run)
    ultimately show ?thesis using there Some step_on_trans [OF s]
      by (auto simp: wsv_follows_def spec_update_def ok(2) split: prod.splits)
  qed
qed

text \<open>To the other users of the transaction the view is the trees \<open>wsv_names\<close>.\<close>

interpretation ledger_part: store_part wsv_set "wsv_ok F" "wsv_abs F" w_append_tx for F
proof
  show "wsv_ok F e' w \<and> wsv_abs F e' w = wsv_abs F e w"
    if w: "wsv_ok F e w" and s: "step_on (w_append_tx w) ns e e'" and d: "wsv_set \<inter> ns = {}"
    for e w ns and e' :: "('a, 'b) env"
  proof -
    have "wtree e' w n = wtree e w n" if "n \<in> wsv_set" for n
      using step_on_tree [OF s, of n] d that by (auto simp: wtree_def)
    then have t: "wtree e' w ''wsv_pubkey_assets'' = wtree e w ''wsv_pubkey_assets''"
      "wtree e' w ''wsv_pubkey_account'' = wtree e w ''wsv_pubkey_account''"
      "wtree e' w ''wsv_assetid_asset'' = wtree e w ''wsv_assetid_asset''"
      "wtree e' w ''wsv_ip_peer'' = wtree e w ''wsv_ip_peer''" by (simp_all add: wsv_names_def)
    show ?thesis using w store_ok_step [OF _ s] step_on_cmp [OF s] by (simp add: wsv_ok_def wsv_abs_def t)
  qed
qed

text \<open>The whole update.\<close>

lemma transfer_follows:
  fixes L :: "('b, 'x) lmdb"
  assumes L: "lmdb_ok (fb_size F) L" and F: "fb_ok F" and w: "wsv_ok F e w"
    and fits: "cmd_fits F (AssetTransfer asset sender receiver) (wsv_abs F e w)"
    and cur: "is_currency F asset"
  shows "wsv_follows F (asset_transfer F L asset sender receiver)
    (spec_update F (AssetTransfer asset sender receiver) (wsv_abs F e w)) e w"
proof -
  obtain cy where cy: "fb_asset F asset = CurrencyAsset cy" using is_currencyD [OF cur] by blast
  let ?sp = "spec_remove F sender asset (wsv_abs F e w)"
  have key: "key_size_ok (fb_size F) (IStr sender)"
    and fit2: "asset_fits F receiver asset (snd ?sp)"
    using fits by (simp_all add: cmd_fits_def)
  have "wsv_follows F (bindS (account_remove_currency F L sender asset)
      (\<lambda>_. account_add_currency F L receiver asset))
    (case ?sp of (Inl err, g) \<Rightarrow> (Inl err, g) | (Inr _, g) \<Rightarrow> spec_add F receiver asset g) e w"
  proof (rule follows_bind [OF remove_follows [OF L F w key cy] w])
    fix e' :: "('b, 'x) env" and w'
    assume "wsv_ok F e' w'" and abs: "wsv_abs F e' w' = snd ?sp"
    then show "wsv_follows F (account_add_currency F L receiver asset)
        (spec_add F receiver asset (snd ?sp)) e' w'"
      using add_follows [OF L F _ _ cy, of e' w' receiver] fit2 by (metis abs)
  qed
  then show ?thesis using cur by (simp add: asset_transfer_def spec_update_def)
qed

lemma update_follows:
  assumes L: "lmdb_ok (fb_size F) L" and F: "fb_ok F" and w: "wsv_ok F e w"
    and fits: "cmd_fits F (tx_command (fb_transaction F blob)) (wsv_abs F e w)"
  shows "wsv_follows F (wsv_update F L blob)
    (spec_update F (tx_command (fb_transaction F blob)) (wsv_abs F e w)) e w"
proof (cases "tx_command (fb_transaction F blob)")
  case (AssetAdd acc asset)
  then show ?thesis
    using add_follows [OF L F w] fits follows_fail [OF w] is_currencyD [of F asset]
    by (auto simp: wsv_update_def asset_add_def spec_update_def cmd_fits_def)
next
  case (AssetRemove acc asset)
  then show ?thesis
    using remove_follows [OF L F w] fits follows_fail [OF w] is_currencyD [of F asset]
    by (auto simp: wsv_update_def asset_remove_def spec_update_def cmd_fits_def)
next
  case (AssetTransfer asset sender receiver)
  then show ?thesis
    using transfer_follows [OF L F w] fits follows_fail [OF w]
    by (cases "is_currency F asset") (simp_all add: wsv_update_def asset_transfer_def spec_update_def)
next
  case (AssetCreate an dn ln)
  then show ?thesis using create_follows [OF L F w] fits by (simp add: wsv_update_def)
next
  case (AccountAdd a)
  then show ?thesis using account_add_follows [OF L w] fits by (simp add: wsv_update_def)
next
  case (AccountRemove pk)
  then show ?thesis using account_remove_follows [OF L w] fits by (simp add: wsv_update_def)
next
  case (PeerAdd a)
  then show ?thesis using peer_add_follows [OF L w] fits by (simp add: wsv_update_def)
next
  case (PeerRemove a)
  then show ?thesis using peer_remove_follows [OF L w] fits by (simp add: wsv_update_def)
qed (simp_all add: wsv_update_def spec_update_def follows_fail [OF w])

end
