(* ===== verification/Lmdb_Memory.thy ===== *)
theory Lmdb_Memory
  imports Lmdb
begin

text \<open>
  A database in memory that keeps the promises of \<open>Lmdb\<close>: it shows that they can be kept, and
  the witnesses of the properties run on it.  Its hidden state is the next handle to give out.
\<close>

section \<open>The functions\<close>

type_synonym 'b mem = "('b, nat) env"

definition mem_txn_begin :: "bool \<Rightarrow> 'b mem \<Rightarrow> rc \<times> nat \<times> 'b mem" where
  "mem_txn_begin ro e = (let h = env_hidden e in
     if env_txns e h = None
     then (MDB_SUCCESS, h, e\<lparr>env_txns := (env_txns e)(h \<mapsto> \<lparr>txn_rdonly = ro, txn_dbs = env_committed e\<rparr>),
                            env_hidden := h + 1\<rparr>)
     else (ENOMEM, h, e))"

definition mem_txn_commit :: "nat \<Rightarrow> 'b mem \<Rightarrow> rc \<times> 'b mem" where
  "mem_txn_commit tx e = (case env_txns e tx of
       None \<Rightarrow> (MDB_SUCCESS, e)
     | Some x \<Rightarrow> (MDB_SUCCESS, e\<lparr>env_txns := (env_txns e)(tx := None),
         env_committed := (if txn_rdonly x then env_committed e else txn_dbs x)\<rparr>))"

definition mem_txn_abort :: "nat \<Rightarrow> 'b mem \<Rightarrow> 'b mem" where
  "mem_txn_abort tx e = e\<lparr>env_txns := (env_txns e)(tx := None)\<rparr>"

definition mem_dbi_open :: "nat \<Rightarrow> string \<Rightarrow> db_flag list \<Rightarrow> 'b mem \<Rightarrow> rc \<times> nat \<times> 'b mem" where
  "mem_dbi_open tx n fl e = (let h = env_hidden e; fresh = e\<lparr>env_dbis := (env_dbis e)(h \<mapsto> n),
       env_hidden := h + 1\<rparr> in
     if env_dbis e h \<noteq> None then (MDB_DBS_FULL, h, e)
     else case env_txns e tx of
       None \<Rightarrow> (MDB_NOTFOUND, h, e)
     | Some x \<Rightarrow>
         if txn_dbs x n \<noteq> None then (MDB_SUCCESS, h, fresh)
         else if MDB_CREATE \<in> set fl \<and> \<not> txn_rdonly x
         then (MDB_SUCCESS, h, fresh\<lparr>env_txns := (env_txns e)(tx \<mapsto> x\<lparr>txn_dbs := (txn_dbs x)
                 (n \<mapsto> \<lparr>db_dup = (MDB_DUPSORT \<in> set fl), db_tree = []\<rparr>)\<rparr>)\<rparr>)
         else (MDB_NOTFOUND, h, e))"

definition mem_dbi_close :: "nat \<Rightarrow> 'b mem \<Rightarrow> 'b mem" where
  "mem_dbi_close h e = e\<lparr>env_dbis := (env_dbis e)(h := None)\<rparr>"

definition mem_set_dupsort :: "nat \<Rightarrow> nat \<Rightarrow> ('b item \<Rightarrow> 'b item \<Rightarrow> int) \<Rightarrow> 'b mem \<Rightarrow> rc \<times> 'b mem" where
  "mem_set_dupsort tx h cmp e = (case env_dbis e h of
       None \<Rightarrow> (EINVAL, e)
     | Some n \<Rightarrow> (MDB_SUCCESS, e\<lparr>env_cmp := (env_cmp e)(n := cmp)\<rparr>))"

definition mem_drop :: "nat \<Rightarrow> nat \<Rightarrow> 'b mem \<Rightarrow> rc \<times> 'b mem" where
  "mem_drop tx h e = (case env_dbis e h of
       None \<Rightarrow> (EINVAL, e)
     | Some n \<Rightarrow> (MDB_SUCCESS, e\<lparr>env_txns := upd_tree tx n [] (env_txns e)\<rparr>))"

definition mem_cursor_open :: "nat \<Rightarrow> nat \<Rightarrow> 'b mem \<Rightarrow> rc \<times> nat \<times> 'b mem" where
  "mem_cursor_open tx h e = (let c = env_hidden e in
     case env_dbis e h of
       None \<Rightarrow> (EINVAL, c, e)
     | Some n \<Rightarrow>
         if env_cursors e c = None
         then (MDB_SUCCESS, c, e\<lparr>env_cursors := (env_cursors e)(c \<mapsto> \<lparr>cu_txn = tx, cu_db = n, cu_pos = None\<rparr>),
                                env_hidden := c + 1\<rparr>)
         else (EINVAL, c, e))"

definition mem_cursor_close :: "nat \<Rightarrow> 'b mem \<Rightarrow> 'b mem" where
  "mem_cursor_close c e = e\<lparr>env_cursors := (env_cursors e)(c := None)\<rparr>"

definition mem_get :: "nat \<Rightarrow> cursor_op \<Rightarrow> 'b item \<Rightarrow> 'b item \<Rightarrow> 'b mem \<Rightarrow>
    rc \<times> 'b item \<times> 'b item \<times> 'b mem" where
  "mem_get c op k v e = (case env_cursors e c of
       None \<Rightarrow> (EINVAL, k, v, e)
     | Some cu \<Rightarrow> (case txn_db e (cu_txn cu) (cu_db cu) of
         None \<Rightarrow> (EINVAL, k, v, e)
       | Some d \<Rightarrow> (case get_target (env_cmp e (cu_db cu)) op k v (db_tree d) (cu_pos cu) of
           None \<Rightarrow> (MDB_NOTFOUND, k, v, e)
         | Some i \<Rightarrow> (MDB_SUCCESS, fst (db_tree d ! i), snd (db_tree d ! i),
             e\<lparr>env_cursors := (env_cursors e)(c \<mapsto> cu\<lparr>cu_pos := Some i\<rparr>)\<rparr>))))"

text \<open>A new record goes before the first one of its key, or to the end.\<close>

fun mem_ins :: "'b item \<Rightarrow> 'b item \<Rightarrow> 'b tree \<Rightarrow> 'b tree" where
  "mem_ins k v [] = [(k, v)]"
| "mem_ins k v (r # t) = (if fst r = k then (k, v) # r # t else r # mem_ins k v t)"

definition mem_put_tree :: "bool \<Rightarrow> ('b item \<Rightarrow> 'b item \<Rightarrow> int) \<Rightarrow> 'b item \<Rightarrow> 'b item \<Rightarrow> put_flag list \<Rightarrow>
    nat option \<Rightarrow> 'b tree \<Rightarrow> rc \<times> 'b tree" where
  "mem_put_tree dup cmp k v fl pos t =
     (if fl = [] then
        (if dup then
           (if \<exists>v0 \<in> set (tget t k). cmp v v0 = 0 then (MDB_SUCCESS, t) else (MDB_SUCCESS, mem_ins k v t))
         else case find_ix (\<lambda>r. fst r = k) t of
             None \<Rightarrow> (MDB_SUCCESS, t @ [(k, v)])
           | Some i \<Rightarrow> (MDB_SUCCESS, t[i := (k, v)]))
      else if fl = [MDB_CURRENT] then
        (case pos of
           None \<Rightarrow> (EINVAL, t)
         | Some i \<Rightarrow> if i < length t \<and> fst (t ! i) = k then (MDB_SUCCESS, t[i := (k, v)]) else (EINVAL, t))
      else if MDB_APPEND \<in> set fl \<and> \<not> dup then
        (if \<forall>r \<in> set t. num_less (fst r) k then (MDB_SUCCESS, t @ [(k, v)]) else (MDB_KEYEXIST, t))
      else (EINVAL, t))"

definition mem_put :: "('b \<Rightarrow> nat) \<Rightarrow> nat \<Rightarrow> 'b item \<Rightarrow> 'b item \<Rightarrow> put_flag list \<Rightarrow> 'b mem \<Rightarrow>
    rc \<times> 'b mem" where
  "mem_put bsize c k v fl e = (case env_cursors e c of
       None \<Rightarrow> (EINVAL, e)
     | Some cu \<Rightarrow> (case txn_db e (cu_txn cu) (cu_db cu) of
         None \<Rightarrow> (EINVAL, e)
       | Some d \<Rightarrow>
           if put_size_ok bsize (db_dup d) (db_tree d) k v
           then (case mem_put_tree (db_dup d) (env_cmp e (cu_db cu)) k v fl (cu_pos cu) (db_tree d) of
                   (rc, t') \<Rightarrow> (rc, e\<lparr>env_txns := upd_tree (cu_txn cu) (cu_db cu) t' (env_txns e)\<rparr>))
           else (MDB_BAD_VALSIZE, e)))"

definition mem_del :: "nat \<Rightarrow> put_flag list \<Rightarrow> 'b mem \<Rightarrow> rc \<times> 'b mem" where
  "mem_del c fl e = (case env_cursors e c of
       None \<Rightarrow> (EINVAL, e)
     | Some cu \<Rightarrow> (case (txn_db e (cu_txn cu) (cu_db cu), cu_pos cu) of
         (Some d, Some i) \<Rightarrow>
           if i < length (db_tree d)
           then (let t = db_tree d;
                     t' = (if fl = [MDB_NODUPDATA] then filter (\<lambda>r. fst r \<noteq> fst (t ! i)) t
                           else take i t @ drop (Suc i) t)
                 in (MDB_SUCCESS, e\<lparr>env_txns := upd_tree (cu_txn cu) (cu_db cu) t' (env_txns e)\<rparr>))
           else (EINVAL, e)
       | _ \<Rightarrow> (EINVAL, e)))"

definition mem_lmdb :: "('b \<Rightarrow> nat) \<Rightarrow> ('b, nat) lmdb" where
  "mem_lmdb bsize =
     \<lparr>mdb_txn_begin = mem_txn_begin, mdb_txn_commit = mem_txn_commit, mdb_txn_abort = mem_txn_abort,
      mdb_dbi_open = mem_dbi_open, mdb_dbi_close = mem_dbi_close,
      mdb_set_dupsort = mem_set_dupsort, mdb_drop = mem_drop, mdb_cursor_open = mem_cursor_open,
      mdb_cursor_close = mem_cursor_close, mdb_cursor_get = mem_get,
      mdb_cursor_put = mem_put bsize, mdb_cursor_del = mem_del\<rparr>"

definition mem_empty :: "'b mem" where
  "mem_empty = \<lparr>env_committed = (\<lambda>_. None), env_txns = (\<lambda>_. None), env_dbis = (\<lambda>_. None),
     env_cursors = (\<lambda>_. None), env_cmp = (\<lambda>_ a b. if a = b then 0 else 1), env_hidden = 1\<rparr>"

section \<open>The promises\<close>

lemma upd_tree_same: "txn_db e tx n = Some d \<Longrightarrow> upd_tree tx n (db_tree d) (env_txns e) = env_txns e"
  by (auto simp: upd_tree_def txn_db_def fun_eq_iff split: option.splits)

lemma mem_get_spec: "get_spec bsize (mem_lmdb bsize)"
  unfolding get_spec_def
proof (intro allI impI, elim conjE)
  fix c op k v e cu d rc k' v' and e' :: "'a mem"
  assume a: "env_cursors e c = Some cu" "txn_db e (cu_txn cu) (cu_db cu) = Some d"
    "mdb_cursor_get (mem_lmdb bsize) c op k v e = (rc, k', v', e')"
  let ?tg = "get_target (env_cmp e (cu_db cu)) op k v (db_tree d) (cu_pos cu)"
  have home: "cursor_home (e\<lparr>env_cursors := (env_cursors e)(c \<mapsto> cu\<lparr>cu_pos := p\<rparr>)\<rparr>) = cursor_home e" for p
    using a(1) by (auto simp: cursor_home_def fun_eq_iff)
  show "let target = ?tg in \<exists>pos. frame e e' \<and> env_txns e' = env_txns e
        \<and> env_cursors e' = (env_cursors e)(c \<mapsto> cu\<lparr>cu_pos := pos\<rparr>)
        \<and> (rc = MDB_SUCCESS \<longrightarrow> target = pos \<and> (\<exists>i. pos = Some i \<and> (k', v') = db_tree d ! i))
        \<and> (rc = MDB_NOTFOUND \<longrightarrow> target = None)
        \<and> ((op \<in> {MDB_SET, MDB_GET_BOTH} \<longrightarrow> key_size_ok bsize k) \<longrightarrow>
             rc \<in> {MDB_SUCCESS, MDB_NOTFOUND, EINVAL})"
  proof (cases ?tg)
    case None
    then have "rc = MDB_NOTFOUND" "e' = e" using a by (auto simp: mem_lmdb_def mem_get_def)
    moreover have "env_cursors e = (env_cursors e)(c \<mapsto> cu\<lparr>cu_pos := cu_pos cu\<rparr>)"
      using a(1) by (simp add: fun_upd_idem)
    ultimately show ?thesis using None unfolding Let_def
      by (intro exI [of _ "cu_pos cu"]) (simp add: frame_def)
  next
    case (Some i)
    then show ?thesis using a home by (auto simp: mem_lmdb_def mem_get_def frame_def Let_def)
  qed
qed

lemma mem_ins_ins_nth: "\<exists>i \<le> length t. mem_ins k v t = ins_nth i (k, v) t"
proof (induction t)
  case (Cons r t)
  then obtain i where "i \<le> length t" "mem_ins k v t = ins_nth i (k, v) t" by blast
  then have "mem_ins k v (r # t) = ins_nth (if fst r = k then 0 else Suc i) (k, v) (r # t)"
    by (simp add: ins_nth_def)
  with \<open>i \<le> length t\<close> show ?case by (intro exI [of _ "if fst r = k then 0 else Suc i"]) simp
qed (simp add: ins_nth_def)

lemma grouped_keys: "map fst t = map fst u \<Longrightarrow> grouped t \<Longrightarrow> grouped u"
proof -
  assume m: "map fst t = map fst u" and g: "grouped t"
  have l: "length t = length u" using m by (metis length_map)
  have k: "fst (t ! i) = fst (u ! i)" if "i < length u" for i using m that l by (metis nth_map)
  show ?thesis unfolding grouped_def
  proof (intro allI impI, elim conjE)
    fix i j assume "i < j" "j < length u" "fst (u ! i) = fst (u ! j)"
    then show "fst (u ! Suc i) = fst (u ! i)"
      using g [unfolded grouped_def, rule_format, of i j] k l by simp
  qed
qed

lemma tkeys_mem_ins: "tkeys (mem_ins k v t) = insert k (tkeys t)"
  by (induction t) (auto simp: tkeys_def)

lemma grouped_mem_ins: "grouped t \<Longrightarrow> grouped (mem_ins k v t)"
proof (induction t)
  case (Cons r t)
  then have g: "grouped t" "fst r \<in> tkeys t \<longrightarrow> fst (hd t) = fst r" by (simp_all add: grouped_Cons)
  show ?case
  proof (cases "fst r = k")
    case True
    then show ?thesis using Cons.prems by (simp add: grouped_Cons)
  next
    case False
    have "fst (hd (mem_ins k v t)) = fst r" if r: "fst r \<in> tkeys t"
    proof -
      have "fst (hd t) = fst r" using g(2) r by simp
      then show ?thesis using r by (cases t) (auto simp: tkeys_def)
    qed
    then show ?thesis using False Cons.IH [OF g(1)]
      by (simp add: grouped_Cons tkeys_mem_ins)
  qed
qed (simp add: grouped_def)

lemma grouped_snoc: "grouped t \<Longrightarrow> k \<notin> tkeys t \<Longrightarrow> grouped (t @ [(k, v)])"
proof (induction t)
  case (Cons r t)
  have k: "fst r \<noteq> k" "k \<notin> tkeys t" using Cons.prems(2) by (auto simp: tkeys_def)
  have g: "grouped t" "fst r \<in> tkeys t \<longrightarrow> fst (hd t) = fst r"
    using Cons.prems(1) by (simp_all add: grouped_Cons)
  have "fst (hd (t @ [(k, v)])) = fst r" if r: "fst r \<in> tkeys (t @ [(k, v)])"
  proof -
    have "fst r \<in> tkeys t" using r k(1) by (simp add: tkeys_def)
    moreover from this have "t \<noteq> []" by (auto simp: tkeys_def)
    ultimately show ?thesis using g(2) by simp
  qed
  then show ?case using Cons.IH [OF g(1) k(2)] by (simp add: grouped_Cons)
qed (simp add: grouped_def)

lemma cursor_home_txns [simp]: "cursor_home (e\<lparr>env_txns := x\<rparr>) = cursor_home e"
  by (simp add: cursor_home_def fun_eq_iff)

lemma num_less_irrefl: "\<not> num_less k k"
  by (cases k) auto

lemma mem_put_effect:
  assumes "mem_put_tree dup cmp k v [] pos t = (rc, t')"
  shows "rc = MDB_SUCCESS \<and> put_effect dup cmp k v t t'"
proof (cases dup)
  case True
  show ?thesis
  proof (cases "\<exists>v0 \<in> set (tget t k). cmp v v0 = 0")
    case False
    then have "rc = MDB_SUCCESS" "t' = mem_ins k v t" using assms True by (auto simp: mem_put_tree_def)
    then show ?thesis using False True mem_ins_ins_nth [of t k v] grouped_mem_ins
      by (auto simp: put_effect_def)
  qed (use assms True in \<open>auto simp: mem_put_tree_def put_effect_def\<close>)
next
  case False
  show ?thesis
  proof (cases "find_ix (\<lambda>r. fst r = k) t")
    case None
    then have "k \<notin> tkeys t" by (auto simp: find_ix_None tkeys_def)
    moreover have "rc = MDB_SUCCESS" "t' = ins_nth (length t) (k, v) t"
      using assms False None by (auto simp: mem_put_tree_def)
    ultimately show ?thesis using False grouped_snoc
      by (auto simp: put_effect_def intro!: exI [of _ "length t"])
  next
    case (Some i)
    then have i: "i < length t" "fst (t ! i) = k" using find_ix_Some by fastforce+
    have t': "rc = MDB_SUCCESS" "t' = t[i := (k, v)]"
      using assms False Some by (auto simp: mem_put_tree_def)
    have "map fst t = map fst t'" using i unfolding t' by (simp add: map_update) (metis list_update_id nth_map)
    then have "grouped t \<Longrightarrow> grouped t'" by (rule grouped_keys)
    then show ?thesis using False i nth_tkeys [OF i] t' by (auto simp: put_effect_def)
  qed
qed

lemma mem_put_spec: "put_spec bsize (mem_lmdb bsize)"
  unfolding put_spec_def
proof (intro allI impI, elim conjE)
  fix c k v fl cu d rc and e e' :: "'a mem"
  assume a: "env_cursors e c = Some cu" "txn_db e (cu_txn cu) (cu_db cu) = Some d"
    "mdb_cursor_put (mem_lmdb bsize) c k v fl e = (rc, e')"
  let ?t = "db_tree d" and ?cmp = "env_cmp e (cu_db cu)"
  let ?ok = "put_size_ok bsize (db_dup d) ?t k v"
  obtain t' where t': "e' = e\<lparr>env_txns := upd_tree (cu_txn cu) (cu_db cu) t' (env_txns e)\<rparr>"
    "?ok \<Longrightarrow> mem_put_tree (db_dup d) ?cmp k v fl (cu_pos cu) ?t = (rc, t')"
  proof (cases ?ok)
    case True
    obtain r u where "mem_put_tree (db_dup d) ?cmp k v fl (cu_pos cu) ?t = (r, u)" by (metis prod.exhaust)
    then show ?thesis using that a True by (auto simp: mem_lmdb_def mem_put_def)
  next
    case False
    then have "e' = e" using a by (auto simp: mem_lmdb_def mem_put_def)
    then show ?thesis using that [of ?t] False upd_tree_same [OF a(2)] by simp
  qed
  have f: "frame e e'" "env_txns e' = upd_tree (cu_txn cu) (cu_db cu) t' (env_txns e)"
    unfolding t'(1) by (auto simp: frame_def cursor_home_def)
  have p1: "rc \<in> put_codes \<and> (rc = MDB_SUCCESS \<longrightarrow> put_effect (db_dup d) ?cmp k v ?t t')"
    if "?ok" "fl = []"
    using mem_put_effect t'(2) that by (fastforce simp: put_codes_def)
  have p2: "rc \<in> put_codes \<and> (rc = MDB_SUCCESS \<longrightarrow> t' = ?t[i := (k, v)])"
    if "?ok" "fl = [MDB_CURRENT]" "cu_pos cu = Some i" "i < length ?t" "fst (?t ! i) = k" for i
    using t'(2) that by (auto simp: mem_put_tree_def put_codes_def)
  have p3: "rc \<in> insert MDB_KEYEXIST put_codes
       \<and> (rc = MDB_SUCCESS \<longrightarrow> t' = ?t @ [(k, v)] \<and> k \<notin> tkeys ?t)
       \<and> (rc = MDB_KEYEXIST \<longrightarrow> (\<exists>k0 \<in> tkeys ?t. \<not> num_less k0 k))"
    if "?ok" "\<not> db_dup d" "MDB_APPEND \<in> set fl" "set fl \<subseteq> {MDB_APPEND, MDB_NOOVERWRITE}"
  proof -
    have "fl \<noteq> []" "fl \<noteq> [MDB_CURRENT]" using that(3,4) by auto
    then have "(rc, t') = (if \<forall>r \<in> set ?t. num_less (fst r) k then (MDB_SUCCESS, ?t @ [(k, v)])
        else (MDB_KEYEXIST, ?t))"
      using t'(2) that by (simp add: mem_put_tree_def)
    then show ?thesis using num_less_irrefl
      by (auto simp: put_codes_def tkeys_def split: if_splits)
  qed
  show "let t = db_tree d; cmp = env_cmp e (cu_db cu)
      in \<exists>t'. frame e e' \<and> env_txns e' = upd_tree (cu_txn cu) (cu_db cu) t' (env_txns e)
        \<and> (put_size_ok bsize (db_dup d) t k v \<and> fl = [] \<longrightarrow>
             rc \<in> put_codes \<and> (rc = MDB_SUCCESS \<longrightarrow> put_effect (db_dup d) cmp k v t t'))
        \<and> (\<forall>i. put_size_ok bsize (db_dup d) t k v \<and> fl = [MDB_CURRENT]
             \<and> cu_pos cu = Some i \<and> i < length t \<and> fst (t ! i) = k
             \<and> (db_dup d \<longrightarrow> cmp v (snd (t ! i)) = 0) \<longrightarrow>
             rc \<in> put_codes \<and> (rc = MDB_SUCCESS \<longrightarrow> t' = t[i := (k, v)]))
        \<and> (put_size_ok bsize (db_dup d) t k v \<and> \<not> db_dup d \<and> MDB_APPEND \<in> set fl
             \<and> set fl \<subseteq> {MDB_APPEND, MDB_NOOVERWRITE} \<longrightarrow>
             rc \<in> insert MDB_KEYEXIST put_codes
             \<and> (rc = MDB_SUCCESS \<longrightarrow> t' = t @ [(k, v)] \<and> k \<notin> tkeys t)
             \<and> (rc = MDB_KEYEXIST \<longrightarrow> (\<exists>k0 \<in> tkeys t. \<not> num_less k0 k)))"
    unfolding Let_def
    by (intro exI [of _ t'] conjI allI impI; (elim conjE)?) (use f p1 p2 p3 in \<open>blast+\<close>)
qed

lemma mem_del_spec: "del_spec (mem_lmdb bsize)"
  unfolding del_spec_def
proof (intro allI impI, elim conjE)
  fix c fl cu d rc and e e' :: "'a mem"
  assume a: "env_cursors e c = Some cu" "txn_db e (cu_txn cu) (cu_db cu) = Some d"
    "mdb_cursor_del (mem_lmdb bsize) c fl e = (rc, e')"
  let ?t = "db_tree d"
  consider (fail) "e' = e" "rc = EINVAL"
    | (del) i where "cu_pos cu = Some i" "i < length ?t" "rc = MDB_SUCCESS"
      "e' = e\<lparr>env_txns := upd_tree (cu_txn cu) (cu_db cu)
         (if fl = [MDB_NODUPDATA] then filter (\<lambda>r. fst r \<noteq> fst (?t ! i)) ?t
          else take i ?t @ drop (Suc i) ?t) (env_txns e)\<rparr>"
    using a by (auto simp: mem_lmdb_def mem_del_def Let_def split: option.splits if_splits)
  then show "let t = db_tree d
      in \<exists>t'. frame e e' \<and> env_txns e' = upd_tree (cu_txn cu) (cu_db cu) t' (env_txns e)
        \<and> rc \<in> {MDB_SUCCESS, EACCES, EINVAL}
        \<and> (rc = MDB_SUCCESS \<longrightarrow> (\<exists>i. cu_pos cu = Some i \<and> i < length t
             \<and> (fl = [] \<longrightarrow> t' = take i t @ drop (Suc i) t)
             \<and> (fl = [MDB_NODUPDATA] \<longrightarrow> t' = filter (\<lambda>r. fst r \<noteq> fst (t ! i)) t)))"
  proof cases
    case fail
    then show ?thesis using upd_tree_same [OF a(2)] unfolding Let_def
      by (intro exI [of _ ?t]) (simp add: frame_def)
  next
    case del
    then show ?thesis unfolding Let_def
      by (intro exI [of _ "if fl = [MDB_NODUPDATA] then filter (\<lambda>r. fst r \<noteq> fst (?t ! i)) ?t
          else take i ?t @ drop (Suc i) ?t"]) (simp add: frame_def cursor_home_def)
  qed
qed

lemma mem_ok: "lmdb_ok bsize (mem_lmdb bsize)"
proof -
  have drop: "drop_spec (mem_lmdb bsize)"
    by (auto simp: drop_spec_def mem_lmdb_def mem_drop_def frame_def cursor_home_def)
  have begin': "begin_spec (mem_lmdb bsize)"
    by (auto simp: begin_spec_def mem_lmdb_def mem_txn_begin_def frame_def cursor_home_def Let_def
        split: if_splits)
  have dbi: "dbi_open_spec (mem_lmdb bsize)"
    by (auto simp: dbi_open_spec_def mem_lmdb_def mem_dbi_open_def Let_def split: if_splits)
  have dups: "set_dupsort_spec (mem_lmdb bsize)"
    by (auto simp: set_dupsort_spec_def mem_lmdb_def mem_set_dupsort_def)
  have copen: "cursor_open_spec (mem_lmdb bsize)"
    by (auto simp: cursor_open_spec_def mem_lmdb_def mem_cursor_open_def Let_def split: if_splits)
  have close: "close_spec (mem_lmdb bsize)"
    by (auto simp: close_spec_def mem_lmdb_def mem_cursor_close_def mem_dbi_close_def Let_def)
  have commit: "commit_spec (mem_lmdb bsize)"
    by (auto simp: commit_spec_def mem_lmdb_def mem_txn_commit_def)
  have abort: "abort_spec (mem_lmdb bsize)"
    by (auto simp: abort_spec_def mem_lmdb_def mem_txn_abort_def Let_def)
  show ?thesis
    unfolding lmdb_ok_def
    by (intro conjI mem_get_spec mem_put_spec mem_del_spec drop begin' dbi dups copen close commit abort)
qed

end
