(* ===== verification/Example_State.thy ===== *)
theory Example_State
  imports Wsv_Refinement Lmdb_Memory
begin

text \<open>
  A concrete instance of everything the properties are parametric in, for their witnesses: the
  buffers are the tables themselves, the database is the one in memory, and the trees of a
  store are opened in the append transaction 0 with given records.
\<close>

section \<open>Buffers\<close>

datatype cell =
    CTx string "cell command" "byte list option"
  | CAsset currency_fb
  | CAccount string
  | CPeer "string option"

definition cell_fb :: "cell fb" where
  "cell_fb =
     \<lparr>fb_transaction = (\<lambda>c. case c of
          CTx k cmd h \<Rightarrow> \<lparr>tx_creatorPubKey = k, tx_command = cmd, tx_hash = h\<rparr>
        | _ \<Rightarrow> \<lparr>tx_creatorPubKey = [], tx_command = Command_NONE, tx_hash = None\<rparr>),
      fb_asset = (\<lambda>c. case c of CAsset cy \<Rightarrow> CurrencyAsset cy | _ \<Rightarrow> AnyAsset_NONE),
      fb_account_pubKey = (\<lambda>c. case c of CAccount k \<Rightarrow> k | _ \<Rightarrow> []),
      fb_peer_ip = (\<lambda>c. case c of CPeer ip \<Rightarrow> ip | _ \<Rightarrow> None),
      fb_create_currency = (\<lambda>an dn ln. CAsset \<lparr>cy_currency_name = an, cy_domain_name = dn,
        cy_ledger_name = ln, cy_amount = None, cy_precision = None\<rparr>),
      fb_mutate_amount = (\<lambda>c a. case c of
          CAsset cy \<Rightarrow> CAsset (cy\<lparr>cy_amount := map_option (\<lambda>_. a) (cy_amount cy)\<rparr>) | _ \<Rightarrow> c),
      fb_mutate_precision = (\<lambda>c p. case c of
          CAsset cy \<Rightarrow> CAsset (cy\<lparr>cy_precision := map_option (\<lambda>_. p) (cy_precision cy)\<rparr>) | _ \<Rightarrow> c),
      fb_size = (\<lambda>_. 100)\<rparr>"

lemma cell_fb_ok: "fb_ok cell_fb"
  by (auto simp: fb_ok_def cell_fb_def split: cell.splits)

section \<open>Stores\<close>

text \<open>The order of the values of a key, where the program does not set one.\<close>

definition eq_cmp :: "'b item \<Rightarrow> 'b item \<Rightarrow> int" where
  "eq_cmp a b = (if a = b then 0 else 1)"

definition demo_cmp :: "string \<Rightarrow> cell item \<Rightarrow> cell item \<Rightarrow> int" where
  "demo_cmp n = (if n = ''wsv_pubkey_assets'' then cmp_assets cell_fb else eq_cmp)"

definition demo_env :: "(string \<times> bool \<times> 'b tree) list \<Rightarrow> (string \<Rightarrow> 'b item \<Rightarrow> 'b item \<Rightarrow> int) \<Rightarrow> 'b mem" where
  "demo_env l cmp =
     \<lparr>env_committed = (\<lambda>_. None),
      env_txns = [0 \<mapsto> \<lparr>txn_rdonly = False,
        txn_dbs = (\<lambda>n. map_option (\<lambda>(dup, t). \<lparr>db_dup = dup, db_tree = t\<rparr>) (map_of l n))\<rparr>],
      env_dbis = (\<lambda>h. if h < length l then Some (fst (l ! h)) else None),
      env_cursors = (\<lambda>c. if c < length l
        then Some \<lparr>cu_txn = 0, cu_db = fst (l ! c), cu_pos = None\<rparr> else None),
      env_cmp = cmp, env_hidden = length l + 1\<rparr>"

definition demo_trees :: "(string \<times> bool \<times> 'b tree) list \<Rightarrow> trees" where
  "demo_trees l = map (\<lambda>i. (fst (l ! i), i, i)) [0..<length l]"

lemma demo_trees_at:
  assumes "distinct (map fst l)" and "i < length l"
  shows "map_of (demo_trees l) (fst (l ! i)) = Some (i, i)"
proof -
  have "map fst (demo_trees l) = map fst l"
    by (intro nth_equalityI) (simp_all add: demo_trees_def)
  then have "distinct (map fst (demo_trees l))" using assms(1) by simp
  moreover have "(fst (l ! i), i, i) \<in> set (demo_trees l)"
    using assms(2) by (auto simp: demo_trees_def)
  ultimately show ?thesis by simp
qed

lemma demo_store_ok:
  assumes "distinct (map fst l)"
  shows "store_ok (map (\<lambda>(n, dup, t). (n, dup)) l) (demo_trees l) 0 (demo_env l cmp)"
proof -
  have "\<exists>d c db. map_of (demo_trees l) n = Some (d, c) \<and> env_dbis (demo_env l cmp) d = Some n
          \<and> cursor_home (demo_env l cmp) c = Some (0, n)
          \<and> txn_db (demo_env l cmp) 0 n = Some db \<and> db_dup db = dup"
    if mem: "(n, dup, t) \<in> set l" for n dup t
  proof -
    obtain i where i: "i < length l" "l ! i = (n, dup, t)" using mem by (auto simp: in_set_conv_nth)
    have "map_of l n = Some (dup, t)" using assms mem by simp
    then show ?thesis using demo_trees_at [OF assms i(1)] i
      by (simp add: demo_env_def cursor_home_def txn_db_def)
  qed
  then have "\<forall>(n, dup) \<in> set (map (\<lambda>(n, dup, t). (n, dup)) l). \<exists>d c db.
      map_of (demo_trees l) n = Some (d, c) \<and> env_dbis (demo_env l cmp) d = Some n
      \<and> cursor_home (demo_env l cmp) c = Some (0, n)
      \<and> txn_db (demo_env l cmp) 0 n = Some db \<and> db_dup db = dup"
    by (simp add: split_beta) (metis prod.collapse)
  moreover have "\<exists>x. env_txns (demo_env l cmp) 0 = Some x \<and> \<not> txn_rdonly x"
    by (simp add: demo_env_def)
  ultimately show ?thesis unfolding store_ok_def by (rule conjI [rotated])
qed

lemma demo_store_tree: "store_tree (demo_env l cmp) 0 n = (case map_of l n of None \<Rightarrow> [] | Some (d, t) \<Rightarrow> t)"
  by (simp add: store_tree_def txn_db_def demo_env_def split: option.splits prod.splits)

section \<open>A small ledger\<close>

text \<open>A currency, an account that holds 200 of it, and an account that holds none.\<close>

definition dollar :: "64 word option \<Rightarrow> 8 word option \<Rightarrow> cell" where
  "dollar a p = CAsset \<lparr>cy_currency_name = ''d'', cy_domain_name = ''u'', cy_ledger_name = ''l'',
     cy_amount = a, cy_precision = p\<rparr>"

definition demo_wsv_trees :: "(string \<times> bool \<times> cell tree) list" where
  "demo_wsv_trees =
     [(''wsv_pubkey_assets'', True, [(IStr ''1'', IBlob (dollar (Some 200) (Some 2)))]),
      (''wsv_pubkey_account'', False, [(IStr ''1'', IBlob (CAccount ''1'')), (IStr ''2'', IBlob (CAccount ''2''))]),
      (''wsv_assetid_asset'', False, [(IStr ''lud'', IBlob (dollar None None))]),
      (''wsv_ip_peer'', False, [])]"

definition demo_wsv :: "cell wsv" where
  "demo_wsv = \<lparr>w_trees = demo_trees demo_wsv_trees, w_append_tx = 0, w_trees_total = 4,
     w_created_assets = [''lud'' \<mapsto> dollar None None]\<rparr>"

definition demo_wsv_env :: "cell mem" where
  "demo_wsv_env = demo_env demo_wsv_trees demo_cmp"

lemma dollar_fb [simp]:
  "fb_asset cell_fb (dollar a p) = CurrencyAsset \<lparr>cy_currency_name = ''d'', cy_domain_name = ''u'',
     cy_ledger_name = ''l'', cy_amount = a, cy_precision = p\<rparr>"
  "item_pk cell_fb (IBlob (dollar a p)) = Some ''lud''"
  "asset_id cell_fb (dollar a p) = ''lud''"
  by (simp_all add: dollar_def cell_fb_def item_pk_def asset_id_def currency_pk_def asset_pk_def c_str_def)

lemma cell_fb_size [simp]: "fb_size cell_fb b = 100"
  by (simp add: cell_fb_def)

lemma demo_wtree:
  "wtree demo_wsv_env demo_wsv n = (case map_of demo_wsv_trees n of None \<Rightarrow> [] | Some (d, t) \<Rightarrow> t)"
  by (simp add: wtree_def demo_wsv_env_def demo_wsv_def demo_store_tree)

lemma demo_wsv_ok: "wsv_ok cell_fb demo_wsv_env demo_wsv"
proof -
  have "store_ok wsv_names (demo_trees demo_wsv_trees) 0 demo_wsv_env"
    using demo_store_ok [of demo_wsv_trees demo_cmp]
    by (simp add: demo_wsv_env_def demo_wsv_trees_def wsv_names_def)
  moreover have "assets_ok cell_fb (wtree demo_wsv_env demo_wsv ''wsv_pubkey_assets'')"
    by (simp add: assets_ok_def demo_wtree demo_wsv_trees_def key_size_ok_def MAXKEYSIZE_def)
  ultimately show ?thesis
    by (auto simp: wsv_ok_def demo_wtree demo_wsv_trees_def nodup_def tmap_def)
       (auto simp: demo_wsv_def demo_wsv_trees_def demo_wsv_env_def demo_env_def demo_cmp_def split: if_splits)
qed

lemma demo_abs:
  "wsv_abs cell_fb demo_wsv_env demo_wsv =
     \<lparr>lg_assets = (\<lambda>acc pk. if acc = ''1'' \<and> pk = ''lud'' then Some (dollar (Some 200) (Some 2)) else None),
      lg_accounts = [''1'' \<mapsto> IBlob (CAccount ''1''), ''2'' \<mapsto> IBlob (CAccount ''2'')],
      lg_created = [''lud'' \<mapsto> dollar None None], lg_peers = (\<lambda>_. None)\<rparr>"
  by (auto simp: wsv_abs_def demo_wtree demo_wsv_trees_def hold_def tmap_def fun_eq_iff)
     (auto simp: demo_wsv_def)

section \<open>Running the code\<close>

text \<open>The definitions that a run on the database in memory is evaluated with.\<close>

lemmas mem_calls = cursor_put_def cursor_get_def cursor_del_def mem_lmdb_def mem_put_def mem_get_def
  mem_del_def mem_put_tree_def mem_txn_begin_def mem_txn_abort_def mem_cursor_open_def mem_cursor_close_def
  txn_db_def upd_tree_def put_size_ok_def key_size_ok_def MAXKEYSIZE_def get_target_def

lemma cell_tx:
  "fb_transaction cell_fb (CTx k cmd h) = \<lparr>tx_creatorPubKey = k, tx_command = cmd, tx_hash = h\<rparr>"
  "fb_account_pubKey cell_fb (CAccount k) = k"
  by (simp_all add: cell_fb_def)

lemmas op_calls = bindS_def result_simps whenS_def liftR_def critical_def trees_at_def Let_def

lemmas wsv_calls = op_calls cell_tx wsv_update_def wsv_tree_def modify_wsv_def asset_create_def asset_add_def
  asset_transfer_def is_currency_def account_remove_currency_def account_add_currency_def
  add_currency_try_def as_currency_def account_add_def account_remove_def
  accountGetAsset_def query_cursor_def end_query_def asset_pk_def c_str_def

text \<open>The arithmetic on amounts of precision 2 and 0, and the records it makes.\<close>

lemma cents:
  "mk_currency a 2 = Inr \<lparr>cur_amount = a, cur_precision = 2, cur_div = 100,
     cur_integer = a div 100, cur_fractional = a mod 100\<rparr>"
  "mk_currency a 0 = Inr \<lparr>cur_amount = a, cur_precision = 0, cur_div = 1,
     cur_integer = a div 1, cur_fractional = a mod 1\<rparr>"
proof -
  have "div_loop 2 1 = 100" by (simp add: numeral_2_eq_2)
  then show "mk_currency a 2 = Inr \<lparr>cur_amount = a, cur_precision = 2, cur_div = 100,
     cur_integer = a div 100, cur_fractional = a mod 100\<rparr>"
    by (simp add: mk_currency_def AMETSUCHI_MAX_PRECISION_def)
qed (simp add: mk_currency_def AMETSUCHI_MAX_PRECISION_def)

lemma dollar_stored:
  "store_amount cell_fb (dollar a p) c =
     dollar (map_option (\<lambda>_. cur_amount c) a) (map_option (\<lambda>_. cur_precision c) p)"
  by (simp add: store_amount_def cell_fb_def dollar_def get_amount_def get_precision_def)

lemma dollar_same: "cmp_assets cell_fb (IBlob (dollar a p)) (IBlob (dollar a' p')) = 0"
  by (simp add: cmp_assets_def)

lemmas dollar_calls = cents dollar_stored dollar_same currency_less_def currency_sub_def
  currency_add_def read_amount_def read_precision_def

lemmas demo_state = demo_wsv_env_def demo_env_def demo_wsv_def demo_trees_def demo_wsv_trees_def demo_cmp_def

end
