(* ===== verification/Wsv_Queries.thy ===== *)
theory Wsv_Queries
  imports Wsv_Refinement
begin

text \<open>
  The query of all assets of an account (\<^verbatim>\<open>WSV::accountGetAllAssets\<close>): the walk over the records
  ends, and what it returns, through either kind of cursor.
\<close>

section \<open>The loop over the assets of an account\<close>

lemma dup_loop_ok:
  assumes L: "lmdb_ok bsize L"
  shows "reads e tx n c \<Longrightarrow> at_record e tx n c i \<Longrightarrow> (k, v) = store_tree e tx n ! i \<Longrightarrow>
    \<exists>r e'. dup_loop L c k v ret e = Some (r, e') \<and> step_on tx {} e e'
      \<and> (r = Inl (InternalError FATAL)
        \<or> r = Inr (ret @ map snd (takeWhile (\<lambda>r. fst r = k) (drop i (store_tree e tx n))), True))"
proof (induction "length (store_tree e tx n) - i" arbitrary: i e k v ret)
  case 0
  then show ?case by (simp add: at_record_def)
next
  case (Suc m)
  let ?t = "store_tree e tx n"
  have il: "i < length ?t" using Suc.prems(2) by (simp add: at_record_def)
  obtain rc k' v' e1 where g: "mdb_cursor_get L c MDB_NEXT_DUP k v e = (rc, k', v', e1)"
    by (metis prod_cases4)
  have sn: "step_on tx {} e e1"
    "rc = EINVAL \<or> rc = MDB_NOTFOUND \<and> \<not> (Suc i < length ?t \<and> fst (?t ! Suc i) = fst (?t ! i))
      \<or> rc = MDB_SUCCESS \<and> (Suc i < length ?t \<and> fst (?t ! Suc i) = fst (?t ! i))
        \<and> (k', v') = ?t ! Suc i \<and> at_record e1 tx n c (Suc i)"
    using cursor_next [OF L Suc.prems(1) g _ Suc.prems(2)] by simp_all
  have t1: "store_tree e1 tx n = ?t" using step_on_tree [OF sn(1)] by simp
  have dr: "drop i ?t = (k, v) # drop (Suc i) ?t"
    using il Suc.prems(3) by (simp add: Cons_nth_drop_Suc)
  have ki: "fst (?t ! i) = k" using Suc.prems(3) by (metis fst_conv)
  from sn(2) consider "rc = EINVAL"
    | "rc = MDB_NOTFOUND" "\<not> (Suc i < length ?t \<and> fst (?t ! Suc i) = k)"
    | "rc = MDB_SUCCESS" "fst (?t ! Suc i) = k" "(k', v') = ?t ! Suc i" "at_record e1 tx n c (Suc i)"
    unfolding ki by blast
  then show ?case
  proof cases
    case 1
    then have "dup_loop L c k v ret e = Some (Inl (InternalError FATAL), e1)"
      by (simp add: dup_loop.simps g)
    then show ?thesis using sn(1) by blast
  next
    case 2
    then have "takeWhile (\<lambda>r. fst r = k) (drop (Suc i) ?t) = []"
      by (cases "Suc i < length ?t") (simp_all add: Cons_nth_drop_Suc [symmetric])
    then have "dup_loop L c k v ret e
        = Some (Inr (ret @ map snd (takeWhile (\<lambda>r. fst r = k) (drop i ?t)), True), e1)"
      using 2(1) by (simp add: dup_loop.simps g dr)
    then show ?thesis using sn(1) by blast
  next
    case 3
    then have k': "k' = k" by (metis fst_conv)
    have m: "m = length (store_tree e1 tx n) - Suc i" using Suc.hyps(2) t1 by simp
    obtain r e2 where r: "dup_loop L c k' v' (ret @ [v]) e1 = Some (r, e2)"
      "step_on tx {} e1 e2" "r = Inl (InternalError FATAL)
        \<or> r = Inr ((ret @ [v]) @ map snd (takeWhile (\<lambda>r. fst r = k') (drop (Suc i) ?t)), True)"
      using Suc.hyps(1) [OF m reads_step [OF Suc.prems(1) sn(1)], of k' v' "ret @ [v]"] 3 t1 by auto
    have "dup_loop L c k v ret e = Some (r, e2)" using 3(1) r(1) by (subst dup_loop.simps) (simp add: g)
    then show ?thesis using step_on_trans [OF sn(1) r(2)] r(3) k' by (simp add: dr)
  qed
qed

section \<open>The query\<close>

text \<open>
  The loop ends with \<^verbatim>\<open>MDB_NOTFOUND\<close>, and the query returns from inside it: a session of its own is
  never closed.
\<close>

lemma all_assets_session:
  assumes L: "lmdb_ok bsize L" and h: "openable e tx0 u n h" and env: "u \<or> has_env"
    and n: "n = ''wsv_pubkey_assets''" "map_of (w_trees w) n = Some h"
    and gr: "grouped (query_tree e tx0 u n)" and key: "key_size_ok bsize (IStr acc)"
    and r: "accountGetAllAssets L acc u has_env (e, w) = (r, (e', w'))"
  shows "w' = w \<and> (r = Inl (InternalError FATAL) \<and> extends e e' \<and> (u \<longrightarrow> unchanged e e')
    \<or> r = Inr (tget (query_tree e tx0 u n) (IStr acc)) \<and> (\<exists>c tx. session tx0 u e e' n c tx))"
proof -
  let ?t = "query_tree e tx0 u n"
  have tr: "wsv_tree ''wsv_pubkey_assets'' (e, w) = (Inr h, (e, w))" using n by (simp add: wsv_tree_at)
  obtain q e1 w1 where q: "query_cursor L u has_env h (e, w) = (q, (e1, w1))" by (metis prod.exhaust)
  from query_cursor_session [OF L h env q]
  consider "q = Inl (InternalError FATAL)" "w1 = w" "extends e e1" "\<not> u"
    | c tx where "q = Inr (c, tx)" "w1 = w" "session tx0 u e e1 n c tx" by blast
  then show ?thesis
  proof cases
    case 1
    have "(r, (e', w')) = (Inl (InternalError FATAL), (e1, w))"
      using r by (simp add: accountGetAllAssets_def bindS_def result_simps tr q 1(1,2))
    then show ?thesis using 1(3,4) by simp
  next
    case s: 2
    obtain rc k v e2 where g: "mdb_cursor_get L c MDB_SET (IStr acc) (IStr []) e1 = (rc, k, v, e2)"
      by (metis prod_cases4)
    have run: "(r, (e', w')) = (if rc = MDB_NOTFOUND then (Inr [], (e2, w))
        else if rc = EINVAL then (Inl (InternalError FATAL), (e2, w))
        else bindS (loopS (dup_loop L c k v [])) (\<lambda>(ret, early).
               bindS (whenS (\<not> early) (end_query L u c tx)) (\<lambda>_. returnS ret)) (e2, w))"
      using r by (cases "rc = MDB_NOTFOUND"; cases "rc = EINVAL")
        (simp_all add: accountGetAllAssets_def bindS_def result_simps tr q s(1,2) cursor_get_def g critical_def)
    show ?thesis
    proof (cases rule: session_seek_key [OF L s(3) g key])
      case 1
      then show ?thesis using run by auto
    next
      case 2
      then show ?thesis using run by auto
    next
      case (3 i)
      note rd = session_reads [OF 3(1)]
      obtain r' e3 where l: "dup_loop L c k v [] e2 = Some (r', e3)"
        "step_on (session_txn tx0 u tx) {} e2 e3"
        "r' = Inl (InternalError FATAL) \<or> r' = Inr (tget ?t (IStr acc), True)"
        using dup_loop_ok [OF L rd(1) 3(7), of k v "[]"] 3(3,6) grouped_tget [OF gr 3(4)]
        unfolding rd(2) by auto
      have s3: "session tx0 u e e3 n c tx" by (rule session_step [OF 3(1) l(2)])
      have "(r, (e', w')) = (map_sum id fst r', (e3, w))"
        using run l(3) 3(2) by (auto simp: bindS_def loopS_def l(1) whenS_def result_simps)
      then show ?thesis using l(3) s3 session_extends [OF s3] session_unchanged by auto
    qed
  qed
qed

end
