(* ===== verification/Wsv_Properties.thy ===== *)
theory Wsv_Properties
  imports Example_State Wsv_Queries
begin

text \<open>
  The theorems about the world state view: every command follows its specification, transfers
  conserve what is owned, queries return what the trees hold, and what the code does not do.
  The witnesses run on the database in memory with a small ledger.
\<close>

section \<open>Amounts\<close>

definition amount_of :: "'b fb \<Rightarrow> 'b \<Rightarrow> nat" where
  "amount_of F b = (case fb_asset F b of CurrencyAsset cy \<Rightarrow> unat (read_amount cy) | _ \<Rightarrow> 0)"

definition balance :: "'b fb \<Rightarrow> 'b ledger \<Rightarrow> string \<Rightarrow> string \<Rightarrow> nat" where
  "balance F g acc pk = (case lg_assets g acc pk of None \<Rightarrow> 0 | Some b \<Rightarrow> amount_of F b)"

text \<open>
  A stored record that can take the amount of a command: the same size and precision, the
  precision valid, and the amount stored (it is not when it was 0 from the start).
\<close>

definition takes :: "'b fb \<Rightarrow> 'b \<Rightarrow> 'b \<Rightarrow> bool" where
  "takes F old asset \<longleftrightarrow> fb_size F old = fb_size F asset
     \<and> (case (fb_asset F old, fb_asset F asset) of
          (CurrencyAsset cy0, CurrencyAsset cy) \<Rightarrow>
            read_precision cy0 = read_precision cy \<and> read_precision cy \<le> 18 \<and> cy_amount cy0 \<noteq> None
        | _ \<Rightarrow> False)"

lemma takesE:
  assumes "takes F old asset"
  obtains cy0 cy a0 where "fb_asset F old = CurrencyAsset cy0" "fb_asset F asset = CurrencyAsset cy"
    "fb_size F old = fb_size F asset" "read_precision cy0 = read_precision cy"
    "read_precision cy \<le> 18" "cy_amount cy0 = Some a0"
  using assms by (auto simp: takes_def split: any_asset.splits)

text \<open>The record that a result of arithmetic is written to.\<close>

lemma store_amount_takes:
  assumes F: "fb_ok F" and t: "takes F old asset"
    and c: "get_precision cur = read_precision cy0" "fb_asset F old = CurrencyAsset cy0"
  shows "takes F (store_amount F old cur) asset \<and> amount_of F (store_amount F old cur) = unat (get_amount cur)"
proof -
  obtain cy a0 where h: "fb_asset F asset = CurrencyAsset cy" "fb_size F old = fb_size F asset"
    "read_precision cy0 = read_precision cy" "read_precision cy \<le> 18" "cy_amount cy0 = Some a0"
    using takesE [OF t] c(2) by (metis any_asset.inject)
  have "read_precision (cy0\<lparr>cy_amount := x, cy_precision := map_option (\<lambda>_. get_precision cur) (cy_precision cy0)\<rparr>)
      = read_precision cy0" for x
    using c(1) by (simp add: read_precision_def split: option.splits)
  then show ?thesis using store_amount_asset [OF F c(2), of cur] h
    by (simp add: takes_def amount_of_def read_amount_def)
qed

lemma combine_add:
  assumes F: "fb_ok F" and t: "takes F old asset"
    and small: "amount_of F old + amount_of F asset < 2 ^ 64"
  shows "\<exists>new. spec_combine F currency_add old asset = Inr new \<and> takes F new asset
    \<and> amount_of F new = amount_of F old + amount_of F asset"
proof -
  obtain cy0 cy a0 where h: "fb_asset F old = CurrencyAsset cy0" "fb_asset F asset = CurrencyAsset cy"
    "fb_size F old = fb_size F asset" "read_precision cy0 = read_precision cy"
    "read_precision cy \<le> 18" "cy_amount cy0 = Some a0" using t by (rule takesE)
  obtain c where c: "mk_currency (read_amount cy0) (read_precision cy) = Inr c"
    using mk_currency_total [OF h(5)] by blast
  obtain d where d: "mk_currency (read_amount cy) (read_precision cy) = Inr d"
    using mk_currency_total [OF h(5)] by blast
  obtain x where x: "currency_add c d = Inr x" "cur_amount x = cur_amount c + cur_amount d"
    "cur_precision x = cur_precision c" using currency_add_total [OF mk_currency_ok [OF c]] by blast
  have n: "spec_combine F currency_add old asset = Inr (store_amount F old x)"
    using h c d x by (simp add: spec_combine_def)
  have "unat (get_amount x) = amount_of F old + amount_of F asset"
    using x(2) mk_currency_fields [OF c] mk_currency_fields [OF d] small h(1,2)
    by (simp add: get_amount_def amount_of_def unat_add_exact)
  moreover have "get_precision x = read_precision cy0"
    using x(3) mk_currency_fields [OF c] h(4) by (simp add: get_precision_def)
  ultimately show ?thesis using store_amount_takes [OF F t _ h(1)] n by auto
qed

lemma combine_sub:
  assumes F: "fb_ok F" and t: "takes F old asset"
  shows "if amount_of F old < amount_of F asset
    then spec_combine F spec_sub old asset = Inl (InvalidTransaction NOT_ENOUGH_ASSETS)
    else \<exists>new. spec_combine F spec_sub old asset = Inr new \<and> takes F new asset
      \<and> amount_of F new = amount_of F old - amount_of F asset"
proof -
  obtain cy0 cy a0 where h: "fb_asset F old = CurrencyAsset cy0" "fb_asset F asset = CurrencyAsset cy"
    "fb_size F old = fb_size F asset" "read_precision cy0 = read_precision cy"
    "read_precision cy \<le> 18" "cy_amount cy0 = Some a0" using t by (rule takesE)
  obtain c where c: "mk_currency (read_amount cy0) (read_precision cy) = Inr c"
    using mk_currency_total [OF h(5)] by blast
  obtain d where d: "mk_currency (read_amount cy) (read_precision cy) = Inr d"
    using mk_currency_total [OF h(5)] by blast
  note fc = mk_currency_fields [OF c] and fd = mk_currency_fields [OF d]
  have less: "currency_less c d \<longleftrightarrow> amount_of F old < amount_of F asset"
    using currency_less_iff [OF mk_currency_ok [OF c] mk_currency_ok [OF d]] fc fd h(1,2)
    by (simp add: amount_of_def)
  show ?thesis
  proof (cases "amount_of F old < amount_of F asset")
    case True
    then show ?thesis using h c d less by (simp add: spec_combine_def spec_sub_def)
  next
    case False
    obtain x where x: "currency_sub c d = Inr x" "cur_amount x = cur_amount c - cur_amount d"
      "cur_precision x = cur_precision c" using currency_sub_total [OF mk_currency_ok [OF c]] by blast
    have n: "spec_combine F spec_sub old asset = Inr (store_amount F old x)"
      using h c d x False less by (simp add: spec_combine_def spec_sub_def)
    have "read_amount cy \<le> read_amount cy0"
      using False h(1,2) by (simp add: amount_of_def word_le_nat_alt)
    then have "unat (get_amount x) = amount_of F old - amount_of F asset"
      using x(2) fc fd h(1,2) by (simp add: get_amount_def amount_of_def unat_sub_exact)
    moreover have "get_precision x = read_precision cy0"
      using x(3) fc h(4) by (simp add: get_precision_def)
    ultimately show ?thesis using store_amount_takes [OF F t _ h(1)] n False by auto
  qed
qed

text \<open>What the two specifications do to the balances.\<close>

lemma balance_set_asset:
  "balance F (set_asset acc pk b g) acc' pk' =
     (if acc' = acc \<and> pk' = pk then amount_of F b else balance F g acc' pk')"
  by (simp add: balance_def set_asset_def)

lemma spec_remove_balance:
  assumes F: "fb_ok F" and t: "\<And>b. lg_assets g acc pk = Some b \<Longrightarrow> takes F b asset"
    and pk: "pk = asset_id F asset"
  shows "if held g acc pk = None
    then spec_remove F acc asset g = (Inl (InvalidTransaction ASSET_NOT_FOUND), g)
    else if balance F g acc pk < amount_of F asset
    then spec_remove F acc asset g = (Inl (InvalidTransaction NOT_ENOUGH_ASSETS), g)
    else \<exists>new. spec_remove F acc asset g = (Inr (), set_asset acc pk new g) \<and> takes F new asset
      \<and> amount_of F new = balance F g acc pk - amount_of F asset"
proof (cases "held g acc pk")
  case None
  then show ?thesis by (simp add: spec_remove_def pk)
next
  case (Some b)
  then have b: "lg_assets g acc pk = Some b" by (simp add: held_def split: if_splits)
  have bal: "balance F g acc pk = amount_of F b" by (simp add: balance_def b)
  show ?thesis
  proof (cases "amount_of F b < amount_of F asset")
    case True
    then show ?thesis using combine_sub [OF F t [OF b]] Some bal
      by (simp add: spec_remove_def pk [symmetric])
  next
    case False
    then obtain new where n: "spec_combine F spec_sub b asset = Inr new" "takes F new asset"
      "amount_of F new = amount_of F b - amount_of F asset"
      using combine_sub [OF F t [OF b]] by auto
    have "spec_remove F acc asset g = (Inr (), set_asset acc pk new g)"
      using Some n(1) by (simp add: spec_remove_def pk [symmetric])
    then show ?thesis using Some False bal n by auto
  qed
qed

lemma spec_add_balance:
  assumes F: "fb_ok F" and t: "\<And>b. lg_assets g acc pk = Some b \<Longrightarrow> takes F b asset"
    and pk: "pk = asset_id F asset" and small: "balance F g acc pk + amount_of F asset < 2 ^ 64"
    and held: "held g acc pk = lg_assets g acc pk"
  shows "\<exists>new. spec_add F acc asset g = (Inr (), set_asset acc pk new g)
    \<and> amount_of F new = balance F g acc pk + amount_of F asset \<and> (takes F new asset \<or> new = asset)"
proof (cases "lg_assets g acc pk")
  case None
  then show ?thesis using held
    by (intro exI [of _ asset]) (simp add: spec_add_def pk [symmetric] balance_def)
next
  case (Some b)
  then obtain new where "spec_combine F currency_add b asset = Inr new" "takes F new asset"
    "amount_of F new = amount_of F b + amount_of F asset"
    using combine_add [OF F t [OF Some]] small by (auto simp: balance_def)
  then show ?thesis using held Some
    by (intro exI [of _ new]) (simp add: spec_add_def pk [symmetric] balance_def)
qed

section \<open>Properties\<close>

text \<open>
  C5: every command of \<^verbatim>\<open>WSV::update\<close> follows its specification on the ledger: from a state that
  satisfies the invariant, it either reports a fatal error of the database, or it keeps the
  invariant and gives exactly the result, error or success, and the ledger of the specification.
\<close>

theorem wsv_update_refines:
  assumes "lmdb_ok (fb_size F) L" and "fb_ok F" and "wsv_ok F e w"
    and "cmd_fits F (tx_command (fb_transaction F blob)) (wsv_abs F e w)"
    and "wsv_update F L blob (e, w) = (r, (e', w'))"
  shows "r = Inl (InternalError FATAL)
    \<or> wsv_ok F e' w'
      \<and> (r, wsv_abs F e' w') = spec_update F (tx_command (fb_transaction F blob)) (wsv_abs F e w)"
  using update_follows [OF assms(1-4)] assms(5) by (simp add: wsv_follows_def)

text \<open>The update of the example ledger by a transfer of 50 from account 1 to account 2.\<close>

definition demo_transfer :: "64 word \<Rightarrow> cell" where
  "demo_transfer a = CTx ''0'' (AssetTransfer (dollar (Some a) (Some 2)) ''1'' ''2'') None"

lemma demo_transfer_cmd [simp]:
  "tx_command (fb_transaction cell_fb (demo_transfer a)) =
     AssetTransfer (dollar (Some a) (Some 2)) ''1'' ''2''"
  by (simp add: demo_transfer_def cell_fb_def)

lemma demo_takes: "takes cell_fb (dollar (Some a) (Some 2)) (dollar (Some b) (Some 2))"
  by (simp add: takes_def read_precision_def)

lemma demo_amount [simp]: "amount_of cell_fb (dollar (Some a) p) = unat a"
  by (simp add: amount_of_def read_amount_def)

lemma demo_fits:
  "cmd_fits cell_fb (AssetTransfer (dollar (Some a) (Some 2)) ''1'' ''2'')
     (wsv_abs cell_fb demo_wsv_env demo_wsv)"
proof -
  let ?g = "wsv_abs cell_fb demo_wsv_env demo_wsv"
  have g: "lg_assets (snd (spec_remove cell_fb ''1'' (dollar (Some a) (Some 2)) ?g)) ''2'' = lg_assets ?g ''2''"
    by (simp add: spec_remove_def Let_def set_asset_def split: option.splits sum.splits)
  show ?thesis
    by (simp add: cmd_fits_def asset_fits_def g) (simp add: demo_abs key_size_ok_def MAXKEYSIZE_def)
qed

lemma demo_transfer_runs:
  "\<exists>e' w'. wsv_update cell_fb (mem_lmdb (fb_size cell_fb)) (demo_transfer 50) (demo_wsv_env, demo_wsv)
     = (Inr (), (e', w'))"
  by (simp add: wsv_calls mem_calls dollar_calls demo_state)

theorem wsv_update_refines_witness:
  "\<exists>e' w'. wsv_update cell_fb (mem_lmdb (fb_size cell_fb)) (demo_transfer 50) (demo_wsv_env, demo_wsv)
      = (Inr (), (e', w')) \<and> wsv_ok cell_fb e' w'"
proof -
  obtain e' w' where r: "wsv_update cell_fb (mem_lmdb (fb_size cell_fb)) (demo_transfer 50)
      (demo_wsv_env, demo_wsv) = (Inr (), (e', w'))" using demo_transfer_runs by blast
  have "cmd_fits cell_fb (tx_command (fb_transaction cell_fb (demo_transfer 50)))
      (wsv_abs cell_fb demo_wsv_env demo_wsv)" using demo_fits by simp
  from wsv_update_refines [OF mem_ok cell_fb_ok demo_wsv_ok this r] r show ?thesis by auto
qed

text \<open>
  C6: a transfer moves exactly its amount.  If the records of sender and receiver can take the
  amount and the receiver's sum is below \<open>2 ^ 64\<close>, then, unless the database fails, it is
  rejected with \<^verbatim>\<open>ASSET_NOT_FOUND\<close> when the sender does not hold the asset, with
  \<^verbatim>\<open>NOT_ENOUGH_ASSETS\<close> when the sender holds less, and the ledger is as before; otherwise it
  succeeds, what the sender loses the receiver gains, and no other balance, account, asset or
  peer changes.
\<close>

theorem wsv_transfer:
  assumes "lmdb_ok (fb_size F) L" and "fb_ok F" and "wsv_ok F e w"
    and "tx_command (fb_transaction F blob) = AssetTransfer asset s r"
    and "is_currency F asset" and "cmd_fits F (AssetTransfer asset s r) (wsv_abs F e w)"
    and "\<And>acc b. acc \<in> {s, r} \<Longrightarrow> lg_assets (wsv_abs F e w) acc (asset_id F asset) = Some b \<Longrightarrow> takes F b asset"
    and "balance F (wsv_abs F e w) r (asset_id F asset) + amount_of F asset < 2 ^ 64"
    and "wsv_update F L blob (e, w) = (res, (e', w'))"
  shows "res = Inl (InternalError FATAL)
    \<or> (let g = wsv_abs F e w; g' = wsv_abs F e' w'; pk = asset_id F asset; a = amount_of F asset
       in if held g s pk = None then res = Inl (InvalidTransaction ASSET_NOT_FOUND) \<and> g' = g
          else if balance F g s pk < a then res = Inl (InvalidTransaction NOT_ENOUGH_ASSETS) \<and> g' = g
          else res = Inr ()
            \<and> (s \<noteq> r \<longrightarrow> balance F g' s pk = balance F g s pk - a \<and> balance F g' r pk = balance F g r pk + a)
            \<and> (s = r \<longrightarrow> balance F g' s pk = balance F g s pk)
            \<and> (\<forall>acc pk'. (acc, pk') \<noteq> (s, pk) \<and> (acc, pk') \<noteq> (r, pk) \<longrightarrow>
                 balance F g' acc pk' = balance F g acc pk')
            \<and> lg_accounts g' = lg_accounts g \<and> lg_created g' = lg_created g \<and> lg_peers g' = lg_peers g)"
proof (cases "res = Inl (InternalError FATAL)")
  case False
  let ?g = "wsv_abs F e w" and ?pk = "asset_id F asset" and ?a = "amount_of F asset"
  have fits: "cmd_fits F (tx_command (fb_transaction F blob)) ?g" using assms(4,6) by simp
  have sp: "(res, wsv_abs F e' w') = spec_update F (AssetTransfer asset s r) ?g"
    using update_follows [OF assms(1-3) fits] assms(4,9) False by (simp add: wsv_follows_def)
  have tk: "takes F b asset" if "lg_assets ?g s ?pk = Some b" for b using assms(7) [of s b] that by simp
  note rem = spec_remove_balance [where g = "wsv_abs F e w" and acc = s, OF assms(2) tk refl]
  show ?thesis
  proof (cases "held ?g s ?pk = None \<or> balance F ?g s ?pk < ?a")
    case True
    then show ?thesis using rem assms(5) sp by (auto simp: spec_update_def Let_def split: if_splits)
  next
    case hold: False
    then obtain n1 where n1: "spec_remove F s asset ?g = (Inr (), set_asset s ?pk n1 ?g)"
      "takes F n1 asset" "amount_of F n1 = balance F ?g s ?pk - ?a"
      using rem by auto
    let ?g1 = "set_asset s ?pk n1 ?g"
    have cr: "lg_created ?g ?pk \<noteq> None" using hold by (auto simp: held_def split: if_splits)
    have t1: "takes F b asset" if "lg_assets ?g1 r ?pk = Some b" for b
      using that n1(2) assms(7) [of r b] by (auto simp: set_asset_def split: if_splits)
    have sm: "balance F ?g1 r ?pk + ?a < 2 ^ 64"
      using assms(8) n1(3) by (auto simp: balance_set_asset)
    have h1: "held ?g1 r ?pk = lg_assets ?g1 r ?pk" using cr by (auto simp: held_def set_asset_def)
    obtain n2 where n2: "spec_add F r asset ?g1 = (Inr (), set_asset r ?pk n2 ?g1)"
      "amount_of F n2 = balance F ?g1 r ?pk + ?a"
      using spec_add_balance [OF assms(2) t1 refl sm h1] by blast
    have res: "res = Inr ()" "wsv_abs F e' w' = set_asset r ?pk n2 ?g1"
      using sp assms(5) n1(1) n2(1) by (simp_all add: spec_update_def)
    have bal: "balance F (wsv_abs F e' w') acc pk' = (if acc = r \<and> pk' = ?pk then amount_of F n2
        else if acc = s \<and> pk' = ?pk then amount_of F n1 else balance F ?g acc pk')" for acc pk'
      by (simp add: res(2) balance_set_asset)
    have n2': "amount_of F n2 = (if s = r then balance F ?g s ?pk else balance F ?g r ?pk + ?a)"
      using n2(2) n1(3) hold by (auto simp: balance_set_asset)
    have "lg_accounts (wsv_abs F e' w') = lg_accounts ?g" "lg_created (wsv_abs F e' w') = lg_created ?g"
      "lg_peers (wsv_abs F e' w') = lg_peers ?g" by (simp_all add: res(2) set_asset_def)
    then show ?thesis using hold res(1) bal n1(3) n2' by (simp add: Let_def)
  qed
qed simp

theorem wsv_transfer_witness:
  "\<exists>e' w'. wsv_update cell_fb (mem_lmdb (fb_size cell_fb)) (demo_transfer 50) (demo_wsv_env, demo_wsv)
      = (Inr (), (e', w')) \<and> balance cell_fb (wsv_abs cell_fb e' w') ''1'' ''lud'' = 150
    \<and> balance cell_fb (wsv_abs cell_fb e' w') ''2'' ''lud'' = 50"
proof -
  let ?g = "wsv_abs cell_fb demo_wsv_env demo_wsv"
  obtain e' w' where r: "wsv_update cell_fb (mem_lmdb (fb_size cell_fb)) (demo_transfer 50)
      (demo_wsv_env, demo_wsv) = (Inr (), (e', w'))" using demo_transfer_runs by blast
  have cur: "is_currency cell_fb (dollar (Some 50) (Some 2))" by (simp add: is_currency_def)
  have t: "takes cell_fb b (dollar (Some 50) (Some 2))"
    if "acc \<in> {''1'', ''2''}" "lg_assets ?g acc (asset_id cell_fb (dollar (Some 50) (Some 2))) = Some b" for acc b
    using that demo_takes by (auto simp: demo_abs split: if_splits)
  have b: "balance cell_fb ?g ''1'' ''lud'' = 200" "balance cell_fb ?g ''2'' ''lud'' = 0"
    "held ?g ''1'' ''lud'' \<noteq> None" by (simp_all add: balance_def demo_abs held_def)
  have s: "balance cell_fb ?g ''2'' (asset_id cell_fb (dollar (Some 50) (Some 2)))
      + amount_of cell_fb (dollar (Some 50) (Some 2)) < 2 ^ 64" by (simp add: b)
  show ?thesis
    using wsv_transfer [OF mem_ok cell_fb_ok demo_wsv_ok demo_transfer_cmd cur demo_fits t s r] r b
    by (auto simp: Let_def)
qed

text \<open>
  C33: \<^verbatim>\<open>accountGetAllAssets\<close> on the uncommitted state always returns: it changes nothing but its
  cursor, and, unless the database fails, its result is the list of all records the tree holds
  for the account, empty if there are none.
\<close>

theorem wsv_get_all_assets:
  assumes "lmdb_ok (fb_size F) L" and "wsv_ok F e w"
    and "grouped (wtree e w ''wsv_pubkey_assets'')" and "key_size_ok (fb_size F) (IStr acc)"
  shows "\<exists>r e'. accountGetAllAssets L acc True has_env (e, w) = (r, (e', w))
    \<and> wsv_ok F e' w \<and> wsv_abs F e' w = wsv_abs F e w \<and> r \<noteq> Inl Diverges
    \<and> (r = Inl (InternalError FATAL) \<or> r = Inr (tget (wtree e w ''wsv_pubkey_assets'') (IStr acc)))"
proof -
  let ?n = "''wsv_pubkey_assets''"
  obtain d c where h: "map_of (w_trees w) ?n = Some (d, c)"
    using store_okD [OF wsv_okD(1) [OF assms(2)], of ?n True] by (auto simp: wsv_names_def)
  have o: "openable e (w_append_tx w) True ?n (d, c)"
    using store_reads [OF wsv_okD(1) [OF assms(2)] _ h] by (auto simp: openable_def wsv_names_def)
  have t: "query_tree e (w_append_tx w) True ?n = wtree e w ?n" by (simp add: query_tree_def wtree_def)
  obtain r e' w' where r: "accountGetAllAssets L acc True has_env (e, w) = (r, (e', w'))"
    by (metis prod.exhaust)
  have "wsv_ok F e' w \<and> wsv_abs F e' w = wsv_abs F e w" if "unchanged e e'"
    using wsv_ok_step [OF assms(2) unchanged_step [OF that]] .
  then show ?thesis using all_assets_session [OF assms(1) o _ refl h _ assms(4) r] assms(3) r
    unfolding t by (auto dest: session_unchanged)
qed

theorem wsv_get_all_assets_witness:
  "\<exists>e'. accountGetAllAssets (mem_lmdb (fb_size cell_fb)) ''1'' True False (demo_wsv_env, demo_wsv)
      = (Inr [IBlob (dollar (Some 200) (Some 2))], (e', demo_wsv)) \<and> wsv_ok cell_fb e' demo_wsv"
proof -
  have t: "wtree demo_wsv_env demo_wsv ''wsv_pubkey_assets'' = [(IStr ''1'', IBlob (dollar (Some 200) (Some 2)))]"
    by (simp add: demo_wtree demo_wsv_trees_def)
  have "grouped (wtree demo_wsv_env demo_wsv ''wsv_pubkey_assets'')" by (simp add: t grouped_def)
  moreover have "key_size_ok (fb_size cell_fb) (IStr ''1'')" by (simp add: key_size_ok_def MAXKEYSIZE_def)
  moreover have "\<exists>e'. accountGetAllAssets (mem_lmdb (fb_size cell_fb)) ''1'' True False (demo_wsv_env, demo_wsv)
      = (Inr [IBlob (dollar (Some 200) (Some 2))], (e', demo_wsv))"
    by (simp add: accountGetAllAssets_def wsv_calls mem_calls dollar_calls demo_state loopS_def dup_loop.simps)
  ultimately show ?thesis using wsv_get_all_assets [OF mem_ok demo_wsv_ok, of "''1''" False] t by auto
qed

text \<open>
  C36: removing an account.  It fails with \<^verbatim>\<open>ACCOUNT_NOT_FOUND\<close> and changes nothing if there is no
  such account; otherwise the account and every asset it holds are gone, and every other
  account and balance is as before.
\<close>

theorem wsv_account_remove:
  assumes "lmdb_ok (fb_size F) L" and "fb_ok F" and "wsv_ok F e w"
    and "tx_command (fb_transaction F blob) = AccountRemove (Some pk)"
    and "key_size_ok (fb_size F) (IStr pk)"
    and "wsv_update F L blob (e, w) = (res, (e', w'))"
  shows "res = Inl (InternalError FATAL)
    \<or> (let g = wsv_abs F e w; g' = wsv_abs F e' w'
       in if lg_accounts g pk = None then res = Inl (InvalidTransaction ACCOUNT_NOT_FOUND) \<and> g' = g
          else res = Inr () \<and> lg_accounts g' pk = None \<and> (\<forall>a. lg_assets g' pk a = None)
            \<and> (\<forall>acc. acc \<noteq> pk \<longrightarrow> lg_accounts g' acc = lg_accounts g acc
                 \<and> (\<forall>a. balance F g' acc a = balance F g acc a)))"
proof -
  have fits: "cmd_fits F (tx_command (fb_transaction F blob)) (wsv_abs F e w)"
    using assms(4,5) by (simp add: cmd_fits_def)
  show ?thesis using update_follows [OF assms(1-3) fits] assms(4,6)
    by (auto simp: wsv_follows_def spec_update_def Let_def balance_def split: if_splits)
qed

theorem wsv_account_remove_witness:
  "\<exists>e' w'. wsv_update cell_fb (mem_lmdb (fb_size cell_fb)) (CTx ''0'' (AccountRemove (Some ''1'')) None)
      (demo_wsv_env, demo_wsv) = (Inr (), (e', w')) \<and> lg_assets (wsv_abs cell_fb e' w') ''1'' ''lud'' = None"
proof -
  have "\<exists>e' w'. wsv_update cell_fb (mem_lmdb (fb_size cell_fb))
      (CTx ''0'' (AccountRemove (Some ''1'')) None) (demo_wsv_env, demo_wsv) = (Inr (), (e', w'))"
    by (simp add: wsv_calls mem_calls dollar_calls demo_state)
  then obtain e' w' where r: "wsv_update cell_fb (mem_lmdb (fb_size cell_fb))
      (CTx ''0'' (AccountRemove (Some ''1'')) None) (demo_wsv_env, demo_wsv) = (Inr (), (e', w'))" by blast
  have cmd: "tx_command (fb_transaction cell_fb (CTx ''0'' (AccountRemove (Some ''1'')) None))
      = AccountRemove (Some ''1'')" by (simp add: cell_fb_def)
  have key: "key_size_ok (fb_size cell_fb) (IStr ''1'')" by (simp add: key_size_ok_def MAXKEYSIZE_def)
  show ?thesis using wsv_account_remove [OF mem_ok cell_fb_ok demo_wsv_ok cmd key r] r
    by (auto simp: Let_def demo_abs)
qed

text \<open>
  C37: creating what exists is not rejected.  A put without flags never reports that the key
  exists, so an asset, an account or a peer that is created again replaces the old record: the
  exceptions \<^verbatim>\<open>ASSET_EXISTS\<close>, \<^verbatim>\<open>ACCOUNT_EXISTS\<close> and \<^verbatim>\<open>PEER_EXISTS\<close> are never thrown.
\<close>

theorem wsv_create_overwrites:
  assumes "lmdb_ok (fb_size F) L" and "fb_ok F" and "wsv_ok F e w"
    and "cmd_fits F (tx_command (fb_transaction F blob)) (wsv_abs F e w)"
    and "wsv_update F L blob (e, w) = (res, (e', w'))"
  shows "case tx_command (fb_transaction F blob) of
      AssetCreate an dn ln \<Rightarrow> res = Inl (InternalError FATAL) \<or> res = Inr ()
        \<and> lg_created (wsv_abs F e' w') (asset_pk ln dn an)
            = Some (fb_create_currency F (c_str an) (c_str dn) (c_str ln))
    | AccountAdd a \<Rightarrow> res = Inl (InternalError FATAL) \<or> res = Inr ()
        \<and> lg_accounts (wsv_abs F e' w') (fb_account_pubKey F a) = Some (IBlob a)
    | PeerAdd p \<Rightarrow> (\<forall>ip. fb_peer_ip F p = Some ip \<longrightarrow> res = Inl (InternalError FATAL)
        \<or> res = Inr () \<and> lg_peers (wsv_abs F e' w') ip = Some (IBlob p))
    | _ \<Rightarrow> True"
proof (cases "res = Inl (InternalError FATAL)")
  case True
  then show ?thesis by (cases "tx_command (fb_transaction F blob)") simp_all
next
  case False
  then have sp: "(res, wsv_abs F e' w') = spec_update F (tx_command (fb_transaction F blob)) (wsv_abs F e w)"
    using update_follows [OF assms(1-4)] assms(5) by (simp add: wsv_follows_def)
  then show ?thesis
    by (cases "tx_command (fb_transaction F blob)") (simp_all add: spec_update_def split: option.splits)
qed

theorem wsv_create_overwrites_witness:
  "\<exists>e' w'. wsv_update cell_fb (mem_lmdb (fb_size cell_fb)) (CTx ''0'' (AccountAdd (CAccount ''1'')) None)
      (demo_wsv_env, demo_wsv) = (Inr (), (e', w'))
    \<and> lg_accounts (wsv_abs cell_fb e' w') ''1'' = Some (IBlob (CAccount ''1''))"
proof -
  have "\<exists>e' w'. wsv_update cell_fb (mem_lmdb (fb_size cell_fb))
      (CTx ''0'' (AccountAdd (CAccount ''1'')) None) (demo_wsv_env, demo_wsv) = (Inr (), (e', w'))"
    by (simp add: wsv_calls mem_calls dollar_calls demo_state)
  then obtain e' w' where r: "wsv_update cell_fb (mem_lmdb (fb_size cell_fb))
      (CTx ''0'' (AccountAdd (CAccount ''1'')) None) (demo_wsv_env, demo_wsv) = (Inr (), (e', w'))" by blast
  have cmd: "tx_command (fb_transaction cell_fb (CTx ''0'' (AccountAdd (CAccount ''1'')) None))
      = AccountAdd (CAccount ''1'')" by (simp add: cell_fb_def)
  have fits: "cmd_fits cell_fb (tx_command (fb_transaction cell_fb
      (CTx ''0'' (AccountAdd (CAccount ''1'')) None))) (wsv_abs cell_fb demo_wsv_env demo_wsv)"
    unfolding cmd by (simp add: cmd_fits_def key_size_ok_def MAXKEYSIZE_def) (simp add: cell_fb_def)
  show ?thesis using wsv_create_overwrites [OF mem_ok cell_fb_ok demo_wsv_ok fits r] r
    unfolding cmd by (auto simp: cell_tx)
qed

text \<open>
  C38: what is added to an empty record is lost.  FlatBuffers does not store a scalar that is 0,
  and \<^verbatim>\<open>mutate_amount\<close> cannot store it later: when the record of the account was stored with
  amount 0, an \<^verbatim>\<open>AssetAdd\<close> of any amount reports success and leaves the balance 0.
\<close>

theorem wsv_add_to_empty_lost:
  assumes "lmdb_ok (fb_size F) L" and "fb_ok F" and "wsv_ok F e w"
    and "tx_command (fb_transaction F blob) = AssetAdd acc asset"
    and "fb_asset F asset = CurrencyAsset cy" and "held (wsv_abs F e w) acc (asset_id F asset) = Some old"
    and "fb_asset F old = CurrencyAsset cy0" and "cy_amount cy0 = None"
    and "fb_size F old = fb_size F asset" and "read_precision cy0 \<le> 18" and "read_precision cy \<le> 18"
    and "key_size_ok (fb_size F) (IStr acc)"
    and "wsv_update F L blob (e, w) = (res, (e', w'))"
  shows "res = Inl (InternalError FATAL)
    \<or> res = Inr () \<and> balance F (wsv_abs F e' w') acc (asset_id F asset) = 0"
proof -
  have cur: "is_currency F asset" using assms(5) by (simp add: is_currency_def)
  have fits: "cmd_fits F (tx_command (fb_transaction F blob)) (wsv_abs F e w)"
    using assms(4,6,12) by (simp add: cmd_fits_def asset_fits_def)
  obtain c d where c: "mk_currency (read_amount cy0) (read_precision cy0) = Inr c"
    "mk_currency (read_amount cy) (read_precision cy) = Inr d"
    using mk_currency_total assms(10,11) by blast
  obtain x where x: "currency_add c d = Inr x"
    using currency_add_total [OF mk_currency_ok [OF c(1)]] by blast
  have "spec_combine F currency_add old asset = Inr (store_amount F old x)"
    using assms(5,7,9) c x by (simp add: spec_combine_def)
  then have sp: "spec_update F (AssetAdd acc asset) (wsv_abs F e w)
      = (Inr (), set_asset acc (asset_id F asset) (store_amount F old x) (wsv_abs F e w))"
    using assms(6) cur by (simp add: spec_update_def spec_add_def)
  have "amount_of F (store_amount F old x) = 0"
    using store_amount_asset [OF assms(2,7)] assms(8) by (simp add: amount_of_def read_amount_def)
  then show ?thesis using update_follows [OF assms(1-3) fits] assms(4,13) sp
    by (auto simp: wsv_follows_def balance_set_asset)
qed

text \<open>The example ledger with a record of amount 0.\<close>

definition empty_trees :: "(string \<times> bool \<times> cell tree) list" where
  "empty_trees =
     [(''wsv_pubkey_assets'', True, [(IStr ''1'', IBlob (dollar None None))]),
      (''wsv_pubkey_account'', False, []),
      (''wsv_assetid_asset'', False, [(IStr ''lud'', IBlob (dollar None None))]),
      (''wsv_ip_peer'', False, [])]"

definition empty_env :: "cell mem" where
  "empty_env = demo_env empty_trees demo_cmp"

definition empty_wsv :: "cell wsv" where
  "empty_wsv = demo_wsv\<lparr>w_trees := demo_trees empty_trees\<rparr>"

lemma empty_wtree:
  "wtree empty_env empty_wsv n = (case map_of empty_trees n of None \<Rightarrow> [] | Some (d, t) \<Rightarrow> t)"
  by (simp add: wtree_def empty_env_def empty_wsv_def demo_wsv_def demo_store_tree)

lemma empty_wsv_ok: "wsv_ok cell_fb empty_env empty_wsv"
proof -
  have "store_ok wsv_names (demo_trees empty_trees) 0 empty_env"
    using demo_store_ok [of empty_trees demo_cmp]
    by (simp add: empty_env_def empty_trees_def wsv_names_def)
  moreover have "assets_ok cell_fb (wtree empty_env empty_wsv ''wsv_pubkey_assets'')"
    by (simp add: assets_ok_def empty_wtree empty_trees_def key_size_ok_def MAXKEYSIZE_def)
  ultimately show ?thesis
    by (auto simp: wsv_ok_def empty_wtree empty_trees_def nodup_def tmap_def)
       (auto simp: empty_wsv_def demo_wsv_def empty_trees_def empty_env_def demo_env_def demo_cmp_def split: if_splits)
qed

theorem wsv_add_to_empty_lost_witness:
  "\<exists>e' w'. wsv_update cell_fb (mem_lmdb (fb_size cell_fb))
      (CTx ''0'' (AssetAdd ''1'' (dollar (Some 7) None)) None) (empty_env, empty_wsv) = (Inr (), (e', w'))
    \<and> balance cell_fb (wsv_abs cell_fb e' w') ''1'' ''lud'' = 0"
proof -
  let ?b = "dollar (Some 7) None"
  have "\<exists>e' w'. wsv_update cell_fb (mem_lmdb (fb_size cell_fb))
      (CTx ''0'' (AssetAdd ''1'' ?b) None) (empty_env, empty_wsv) = (Inr (), (e', w'))"
    by (simp add: wsv_calls mem_calls dollar_calls demo_state empty_env_def empty_wsv_def empty_trees_def)
  then obtain e' w' where r: "wsv_update cell_fb (mem_lmdb (fb_size cell_fb))
      (CTx ''0'' (AssetAdd ''1'' ?b) None) (empty_env, empty_wsv) = (Inr (), (e', w'))" by blast
  have cmd: "tx_command (fb_transaction cell_fb (CTx ''0'' (AssetAdd ''1'' ?b) None)) = AssetAdd ''1'' ?b"
    by (simp add: cell_fb_def)
  have held: "held (wsv_abs cell_fb empty_env empty_wsv) ''1'' (asset_id cell_fb ?b) = Some (dollar None None)"
    by (simp add: held_def wsv_abs_def empty_wtree empty_trees_def hold_def)
       (simp add: empty_wsv_def demo_wsv_def)
  have key: "key_size_ok (fb_size cell_fb) (IStr ''1'')" by (simp add: key_size_ok_def MAXKEYSIZE_def)
  show ?thesis
    using wsv_add_to_empty_lost [OF mem_ok cell_fb_ok empty_wsv_ok cmd dollar_fb(1) held dollar_fb(1)
        _ _ _ _ key r] r
    by (auto simp: read_precision_def)
qed

text \<open>
  Two different assets can share an identifier, because the names of ledger, domain and
  asset are joined without a separator.  Creating the second one takes over the identifier of
  the first, and the comparator takes their records for the same.
\<close>

theorem wsv_asset_collision:
  assumes "lmdb_ok (fb_size F) L" and "fb_ok F" and "wsv_ok F e w"
    and "tx_command (fb_transaction F blob) = AssetCreate ''x'' ''c'' ''ab''"
    and "wsv_update F L blob (e, w) = (res, (e', w'))"
  shows "cmp_assets F (IBlob (fb_create_currency F ''x'' ''c'' ''ab''))
      (IBlob (fb_create_currency F ''x'' ''bc'' ''a'')) = 0
    \<and> (res = Inl (InternalError FATAL) \<or> res = Inr ()
       \<and> lg_created (wsv_abs F e' w') (asset_pk ''a'' ''bc'' ''x'') = Some (fb_create_currency F ''x'' ''c'' ''ab''))"
proof -
  have fits: "cmd_fits F (tx_command (fb_transaction F blob)) (wsv_abs F e w)"
    unfolding assms(4) by (simp add: cmd_fits_def asset_pk_def c_str_def key_size_ok_def MAXKEYSIZE_def)
  have pk: "item_pk F (IBlob (fb_create_currency F an dn ln)) = Some (asset_pk ln dn an)" for an dn ln
    using assms(2) by (simp add: fb_ok_def item_pk_def currency_pk_def)
  have "res = Inl (InternalError FATAL)
      \<or> (res, wsv_abs F e' w') = spec_update F (AssetCreate ''x'' ''c'' ''ab'') (wsv_abs F e w)"
    using update_follows [OF assms(1-3) fits] assms(4,5) by (auto simp: wsv_follows_def)
  then show ?thesis by (auto simp: spec_update_def cmp_assets_def pk) (simp_all add: asset_pk_def c_str_def)
qed

theorem wsv_asset_collision_witness:
  "\<exists>e' w'. wsv_update cell_fb (mem_lmdb (fb_size cell_fb)) (CTx ''0'' (AssetCreate ''x'' ''c'' ''ab'') None)
      (demo_wsv_env, demo_wsv) = (Inr (), (e', w'))
    \<and> lg_created (wsv_abs cell_fb e' w') (asset_pk ''a'' ''bc'' ''x'') =
        Some (fb_create_currency cell_fb ''x'' ''c'' ''ab'')"
proof -
  have "\<exists>e' w'. wsv_update cell_fb (mem_lmdb (fb_size cell_fb))
      (CTx ''0'' (AssetCreate ''x'' ''c'' ''ab'') None) (demo_wsv_env, demo_wsv) = (Inr (), (e', w'))"
    by (simp add: wsv_calls mem_calls dollar_calls demo_state)
  then obtain e' w' where r: "wsv_update cell_fb (mem_lmdb (fb_size cell_fb))
      (CTx ''0'' (AssetCreate ''x'' ''c'' ''ab'') None) (demo_wsv_env, demo_wsv) = (Inr (), (e', w'))" by blast
  have cmd: "tx_command (fb_transaction cell_fb (CTx ''0'' (AssetCreate ''x'' ''c'' ''ab'') None))
      = AssetCreate ''x'' ''c'' ''ab''" by (simp add: cell_fb_def)
  show ?thesis using wsv_asset_collision [OF mem_ok cell_fb_ok demo_wsv_ok cmd r] r by auto
qed

end
