(* ===== verification/Tx_Store.thy ===== *)
theory Tx_Store
  imports Wsv
begin

text \<open>
  The class \<^verbatim>\<open>TxStore\<close> (\<^verbatim>\<open>include/ametsuchi/tx_store.h\<close>, \<^verbatim>\<open>src/ametsuchi/tx_store.cc\<close>): the
  transactions in the order they came, indices from public keys into them, and the Merkle tree
  of their hashes, whose last block is written out at a commit.
\<close>

section \<open>State\<close>

record txstore =
  ts_total :: nat
  ts_trees :: trees
  ts_merkle :: merkle_tree
  ts_append_tx :: nat
  ts_trees_total :: nat

type_synonym ('b, 'x, 'a) txs_op = "('b, 'x, txstore, 'a) store_op"

text \<open>The constructor; \<^verbatim>\<open>MerkleTree\<close> keeps one block by default.\<close>

definition txs_new :: "nat \<Rightarrow> error + txstore" where
  "txs_new merkle_leaves =
     bindR (mt_new merkle_leaves 1) (\<lambda>m.
     Inr \<lparr>ts_total = 0, ts_trees = [], ts_merkle = m, ts_append_tx = 0, ts_trees_total = 0\<rparr>)"

definition txs_tree :: "string \<Rightarrow> ('b, 'x, nat \<times> nat) txs_op" where
  "txs_tree n = bindS getS (\<lambda>(e, s). trees_at (ts_trees s) n)"

definition modify_txs :: "(txstore \<Rightarrow> txstore) \<Rightarrow> ('b, 'x, unit) txs_op" where
  "modify_txs f = modifyS (\<lambda>(e, s). (e, f s))"

definition txs_get_trees_total :: "('b, 'x, nat) txs_op" where
  "txs_get_trees_total = bindS (modify_txs (\<lambda>s. s\<lparr>ts_trees_total := 18\<rparr>)) (\<lambda>_. returnS 18)"

section \<open>Opening and closing\<close>

definition index_names :: "string list" where
  "index_names =
     [''index_asset_create'', ''index_asset_add'',
      ''index_asset_remove'', ''index_asset_transfer'',
      ''index_transfer_sender'', ''index_transfer_receiver'',
      ''index_account_add'', ''index_account_add_sign'',
      ''index_account_remove'', ''index_account_remove_sign'',
      ''index_account_set_use_keys'', ''index_peer_add'',
      ''index_peer_change_trust'', ''index_peer_remove'',
      ''index_peer_set_active'', ''index_peer_set_trust'']"

definition create_new_tree :: "('b, 'x) lmdb \<Rightarrow> nat \<Rightarrow> string \<Rightarrow> db_flag list \<Rightarrow> ('b, 'x, unit) txs_op" where
  "create_new_tree L append_tx name flags =
     bindS (init_btree L append_tx name flags None) (\<lambda>h.
     modify_txs (\<lambda>s. s\<lparr>ts_trees := AList.update name h (ts_trees s)\<rparr>))"

fun create_index_trees :: "('b, 'x) lmdb \<Rightarrow> nat \<Rightarrow> string list \<Rightarrow> ('b, 'x, unit) txs_op" where
  "create_index_trees L append_tx [] = returnS ()"
| "create_index_trees L append_tx (name # names) =
     bindS (create_new_tree L append_tx name [MDB_DUPSORT, MDB_DUPFIXED, MDB_CREATE])
       (\<lambda>_. create_index_trees L append_tx names)"

definition set_tx_total :: "('b, 'x) lmdb \<Rightarrow> ('b, 'x, unit) txs_op" where
  "set_tx_total L =
     bindS (txs_tree ''tx_store'') (\<lambda>(dbi, cursor).
     bindS (cursor_get L cursor MDB_LAST (IStr []) (IStr [])) (\<lambda>(res, k, v).
     if res \<noteq> MDB_SUCCESS then
       bindS (whenS (res = MDB_NOTFOUND) (modify_txs (\<lambda>s. s\<lparr>ts_total := 0\<rparr>))) (\<lambda>_.
       critical res [EINVAL])
     else (case k of
         INum n \<Rightarrow> modify_txs (\<lambda>s. s\<lparr>ts_total := n\<rparr>)
       | _ \<Rightarrow> throwS Undefined)))"

definition txs_init :: "('b, 'x) lmdb \<Rightarrow> nat \<Rightarrow> ('b, 'x, unit) txs_op" where
  "txs_init L append_tx =
     bindS (modify_txs (\<lambda>s. s\<lparr>ts_append_tx := append_tx\<rparr>)) (\<lambda>_.
     bindS (create_new_tree L append_tx ''tx_store'' [MDB_CREATE, MDB_INTEGERKEY]) (\<lambda>_.
     bindS (create_new_tree L append_tx ''merkle_tree'' [MDB_CREATE, MDB_INTEGERKEY]) (\<lambda>_.
     bindS (create_index_trees L append_tx index_names) (\<lambda>_.
     bindS (set_tx_total L) (\<lambda>_.
     bindS txs_get_trees_total (\<lambda>n.
     bindS getS (\<lambda>(e, s). assertS (n = length (ts_trees s)))))))))"

definition txs_close_cursors :: "('b, 'x) lmdb \<Rightarrow> ('b, 'x, unit) txs_op" where
  "txs_close_cursors L = bindS getS (\<lambda>(e, s). envS (close_all L (ts_trees s)))"

definition txs_close_dbi :: "('b, 'x) lmdb \<Rightarrow> ('b, 'x, unit) txs_op" where
  "txs_close_dbi L = bindS getS (\<lambda>(e, s). envS (close_dbis L (ts_trees s)))"

section \<open>Appending\<close>

definition put_tx_into_tree_by_key :: "('b, 'x) lmdb \<Rightarrow> nat \<Rightarrow> string \<Rightarrow> nat \<Rightarrow> ('b, 'x, unit) txs_op" where
  "put_tx_into_tree_by_key L cursor acc_pub_key tx_total =
     bindS (cursor_put L cursor (IStr acc_pub_key) (INum tx_total) [])
       (\<lambda>res. critical res [MDB_MAP_FULL, MDB_TXN_FULL, EACCES, EINVAL])"

text \<open>
  The trees that the \<^verbatim>\<open>switch\<close> over the command writes to, in order.  The cases \<^verbatim>\<open>AssetAdd\<close> and
  \<^verbatim>\<open>AssetRemove\<close> have no \<^verbatim>\<open>break\<close>.
\<close>

definition index_trees :: "'b command \<Rightarrow> string list option" where
  "index_trees cmd = (case cmd of
       AssetCreate _ _ _ \<Rightarrow> Some [''index_asset_create'']
     | AssetAdd _ _ \<Rightarrow> Some [''index_asset_add'', ''index_asset_remove'', ''index_asset_transfer'']
     | AssetRemove _ _ \<Rightarrow> Some [''index_asset_remove'', ''index_asset_transfer'']
     | AssetTransfer _ _ _ \<Rightarrow> Some [''index_asset_transfer'']
     | AccountAdd _ \<Rightarrow> Some [''index_account_add'']
     | AccountAddSignatory \<Rightarrow> Some [''index_account_add_sign'']
     | AccountRemove _ \<Rightarrow> Some [''index_account_remove'']
     | AccountRemoveSignatory \<Rightarrow> Some [''index_account_remove_sign'']
     | AccountSetUseKeys \<Rightarrow> Some [''index_account_set_use_keys'']
     | PeerAdd _ \<Rightarrow> Some [''index_peer_add'']
     | PeerChangeTrust \<Rightarrow> Some [''index_peer_change_trust'']
     | PeerRemove _ \<Rightarrow> Some [''index_peer_remove'']
     | PeerSetActive \<Rightarrow> Some [''index_peer_set_active'']
     | PeerSetTrust \<Rightarrow> Some [''index_peer_set_trust'']
     | _ \<Rightarrow> None)"

fun put_indices :: "('b, 'x) lmdb \<Rightarrow> string list \<Rightarrow> string \<Rightarrow> nat \<Rightarrow> ('b, 'x, unit) txs_op" where
  "put_indices L [] creator tx_total = returnS ()"
| "put_indices L (n # ns) creator tx_total =
     bindS (txs_tree n) (\<lambda>(dbi, cursor).
     bindS (put_tx_into_tree_by_key L cursor creator tx_total) (\<lambda>_.
     put_indices L ns creator tx_total))"

text \<open>A put into one of the two indices of transfers: its value is still the whole transaction.\<close>

definition put_transfer :: "('b, 'x) lmdb \<Rightarrow> string \<Rightarrow> string \<Rightarrow> 'b \<Rightarrow> ('b, 'x, unit) txs_op" where
  "put_transfer L name key blob =
     bindS (txs_tree name) (\<lambda>(dbi, cursor).
     bindS (cursor_put L cursor (IStr key) (IBlob blob) [])
       (\<lambda>res. critical res [MDB_MAP_FULL, MDB_TXN_FULL, EACCES, EINVAL]))"

definition put_transfers :: "('b, 'x) lmdb \<Rightarrow> 'b command \<Rightarrow> 'b \<Rightarrow> ('b, 'x, unit) txs_op" where
  "put_transfers L cmd blob = (case cmd of
       AssetTransfer asset sender receiver \<Rightarrow>
         bindS (put_transfer L ''index_transfer_sender'' sender blob)
           (\<lambda>_. put_transfer L ''index_transfer_receiver'' receiver blob)
     | _ \<Rightarrow> returnS ())"

definition txs_merkle_root :: "('b, 'x, hash_t) txs_op" where
  "txs_merkle_root = bindS getS (\<lambda>(e, s). liftR (mt_root (ts_merkle s)))"

definition merkle_push :: "(byte list \<Rightarrow> hash_t) \<Rightarrow> hash_t \<Rightarrow> ('b, 'x, unit) txs_op" where
  "merkle_push sha3 h =
     bindS getS (\<lambda>(e, s).
     bindS (liftR (mt_push sha3 h (ts_merkle s))) (\<lambda>m.
     modify_txs (\<lambda>s. s\<lparr>ts_merkle := m\<rparr>)))"

definition txs_append :: "(byte list \<Rightarrow> hash_t) \<Rightarrow> 'b fb \<Rightarrow> ('b, 'x) lmdb \<Rightarrow> 'b \<Rightarrow> ('b, 'x, hash_t) txs_op" where
  "txs_append sha3 F L blob =
     (let tx = fb_transaction F blob in
      bindS (modify_txs (\<lambda>s. s\<lparr>ts_total := sz_add (ts_total s) 1\<rparr>)) (\<lambda>_.
      bindS getS (\<lambda>(e, s).
      bindS (txs_tree ''tx_store'') (\<lambda>(dbi, cursor).
      bindS (cursor_put L cursor (INum (ts_total s)) (IBlob blob) [MDB_NOOVERWRITE, MDB_APPEND]) (\<lambda>res.
      bindS (critical res [MDB_KEYEXIST, MDB_MAP_FULL, MDB_TXN_FULL, EACCES, EINVAL]) (\<lambda>_.
      bindS (case index_trees (tx_command tx) of
               Some names \<Rightarrow> put_indices L names (tx_creatorPubKey tx) (ts_total s)
             | None \<Rightarrow> throwS (InvalidTransaction WRONG_COMMAND)) (\<lambda>_.
      bindS (put_transfers L (tx_command tx) blob) (\<lambda>_.
      case tx_hash tx of
        None \<Rightarrow> throwS Undefined
      | Some hash \<Rightarrow>
          bindS (assertS (length hash = HASH_LEN)) (\<lambda>_.
          bindS (merkle_push sha3 hash) (\<lambda>_.
          txs_merkle_root))))))))))"

section \<open>Commit and reload of the Merkle tree\<close>

text \<open>\<^verbatim>\<open>std::vector::at\<close> throws \<^verbatim>\<open>out_of_range\<close>.\<close>

definition vec_at :: "'a list \<Rightarrow> nat \<Rightarrow> error + 'a" where
  "vec_at xs i = (if i < length xs then Inr (xs ! i) else Inl Out_Of_Range)"

fun commit_loop :: "('b, 'x) lmdb \<Rightarrow> hash_t list \<Rightarrow> nat list \<Rightarrow> ('b, 'x, unit) txs_op" where
  "commit_loop L last_block [] = returnS ()"
| "commit_loop L last_block (i # is) =
     bindS (liftR (vec_at last_block i)) (\<lambda>h.
     bindS (txs_tree ''merkle_tree'') (\<lambda>(dbi, cursor).
     bindS (cursor_put L cursor (INum i) (IHash h) [MDB_APPEND]) (\<lambda>res.
     bindS (critical res [MDB_MAP_FULL, MDB_TXN_FULL, EACCES, EINVAL]) (\<lambda>_.
     commit_loop L last_block is))))"

definition txs_commit :: "('b, 'x) lmdb \<Rightarrow> ('b, 'x, unit) txs_op" where
  "txs_commit L =
     bindS (txs_tree ''merkle_tree'') (\<lambda>(dbi, cursor) (e, s).
     case mdb_drop L (ts_append_tx s) dbi e of (res, e') \<Rightarrow>
       bindS (critical res [EINVAL]) (\<lambda>_.
       bindS (liftR (mt_last_block (ts_merkle s))) (\<lambda>last_block.
       commit_loop L last_block
         [mt_last_block_begin (ts_merkle s)..<mt_last_block_end (ts_merkle s)])) (e', s))"

fun reload_loop :: "(byte list \<Rightarrow> hash_t) \<Rightarrow> ('b item \<times> 'b item) list \<Rightarrow> ('b, 'x, unit) txs_op" where
  "reload_loop sha3 [] = returnS ()"
| "reload_loop sha3 ((k, v) # rs) = (case (k, v) of
       (INum n, IHash h) \<Rightarrow>
         bindS (assertS (length h = HASH_LEN)) (\<lambda>_.
         bindS (merkle_push sha3 h) (\<lambda>_.
         bindS getS (\<lambda>(e, s).
         bindS (assertS (sz_sub (mt_last_block_end (ts_merkle s)) 1 = n)) (\<lambda>_.
         reload_loop sha3 rs))))
     | _ \<Rightarrow> throwS Undefined)"

definition init_merkle_tree :: "(byte list \<Rightarrow> hash_t) \<Rightarrow> ('b, 'x) lmdb \<Rightarrow> ('b, 'x, unit) txs_op" where
  "init_merkle_tree sha3 L =
     bindS (txs_tree ''merkle_tree'') (\<lambda>(dbi, cursor).
     bindS (read_all_records L cursor) (\<lambda>records.
     reload_loop sha3 records))"

section \<open>Queries\<close>

text \<open>
  The loop of \<^verbatim>\<open>getTxByKey\<close>: for every value of the key in the index, a read of the
  transactions with \<^verbatim>\<open>MDB_FIRST\<close>.
\<close>

partial_function (option) tx_loop :: "('b, 'x) lmdb \<Rightarrow> nat \<Rightarrow> nat \<Rightarrow> 'b item \<Rightarrow> 'b item \<Rightarrow>
    'b item list \<Rightarrow> ('b, 'x) env \<Rightarrow> ((error + 'b item list) \<times> ('b, 'x) env) option" where
  "tx_loop L c tc k v ret e =
     (case mdb_cursor_get L tc MDB_FIRST v v e of (res, tx_key, tx_val, e1) \<Rightarrow>
        if res = MDB_NOTFOUND \<or> res = EINVAL then Some (Inl (InternalError FATAL), e1)
        else
          (case mdb_cursor_get L c MDB_NEXT_DUP k v e1 of (res, k', v', e2) \<Rightarrow>
             if res = MDB_NOTFOUND then Some (Inr (ret @ [tx_val]), e2)
             else if res = EINVAL then Some (Inl (InternalError FATAL), e2)
             else if res = MDB_SUCCESS then tx_loop L c tc k' v' (ret @ [tx_val]) e2
             else Some (Inr (ret @ [tx_val]), e2)))"

definition getTxByKey :: "('b, 'x) lmdb \<Rightarrow> string \<Rightarrow> string \<Rightarrow> bool \<Rightarrow> bool \<Rightarrow> ('b, 'x, 'b item list) txs_op" where
  "getTxByKey L tree_name pubKey uncommitted has_env =
     bindS (txs_tree tree_name) (\<lambda>h.
     bindS (query_cursor L uncommitted has_env h) (\<lambda>(cursor, tx).
     bindS (cursor_get L cursor MDB_SET (IStr pubKey) (IStr [])) (\<lambda>(res, k, v).
     if res = MDB_NOTFOUND then returnS []
     else
       bindS (critical res [EINVAL]) (\<lambda>_.
       bindS (txs_tree ''tx_store'') (\<lambda>th.
       bindS (if uncommitted then returnS (snd th)
              else (\<lambda>(e, s). case mdb_cursor_open L tx (fst th) e of (res, tc, e1) \<Rightarrow>
                     bindS (critical res [EINVAL]) (\<lambda>_. returnS tc) (e1, s))) (\<lambda>tx_cursor.
       bindS (loopS (tx_loop L cursor tx_cursor k v [])) (\<lambda>ret.
       bindS (whenS (\<not> uncommitted) (envS (\<lambda>e. mdb_txn_abort L tx
                (mdb_cursor_close L tx_cursor (mdb_cursor_close L cursor e))))) (\<lambda>_.
       returnS ret))))))))"

definition getAssetTransferBySender :: "('b, 'x) lmdb \<Rightarrow> string \<Rightarrow> bool \<Rightarrow> bool \<Rightarrow> ('b, 'x, 'b item list) txs_op" where
  "getAssetTransferBySender L = getTxByKey L ''index_transfer_sender''"

definition getAssetTransferByReceiver :: "('b, 'x) lmdb \<Rightarrow> string \<Rightarrow> bool \<Rightarrow> bool \<Rightarrow> ('b, 'x, 'b item list) txs_op" where
  "getAssetTransferByReceiver L = getTxByKey L ''index_transfer_receiver''"

definition getAssetCreateByKey :: "('b, 'x) lmdb \<Rightarrow> string \<Rightarrow> bool \<Rightarrow> bool \<Rightarrow> ('b, 'x, 'b item list) txs_op" where
  "getAssetCreateByKey L = getTxByKey L ''index_asset_create''"

definition getAssetAddByKey :: "('b, 'x) lmdb \<Rightarrow> string \<Rightarrow> bool \<Rightarrow> bool \<Rightarrow> ('b, 'x, 'b item list) txs_op" where
  "getAssetAddByKey L = getTxByKey L ''index_asset_add''"

definition getAssetRemoveByKey :: "('b, 'x) lmdb \<Rightarrow> string \<Rightarrow> bool \<Rightarrow> bool \<Rightarrow> ('b, 'x, 'b item list) txs_op" where
  "getAssetRemoveByKey L = getTxByKey L ''index_asset_remove''"

definition getAssetTransferByKey :: "('b, 'x) lmdb \<Rightarrow> string \<Rightarrow> bool \<Rightarrow> bool \<Rightarrow> ('b, 'x, 'b item list) txs_op" where
  "getAssetTransferByKey L = getTxByKey L ''index_asset_transfer''"

definition getAccountAddByKey :: "('b, 'x) lmdb \<Rightarrow> string \<Rightarrow> bool \<Rightarrow> bool \<Rightarrow> ('b, 'x, 'b item list) txs_op" where
  "getAccountAddByKey L = getTxByKey L ''index_account_add''"

definition getAccountAddSignByKey :: "('b, 'x) lmdb \<Rightarrow> string \<Rightarrow> bool \<Rightarrow> bool \<Rightarrow> ('b, 'x, 'b item list) txs_op" where
  "getAccountAddSignByKey L = getTxByKey L ''index_account_add_sign''"

definition getAccountRemoveByKey :: "('b, 'x) lmdb \<Rightarrow> string \<Rightarrow> bool \<Rightarrow> bool \<Rightarrow> ('b, 'x, 'b item list) txs_op" where
  "getAccountRemoveByKey L = getTxByKey L ''index_account_remove''"

definition getAccountRemoveSignByKey :: "('b, 'x) lmdb \<Rightarrow> string \<Rightarrow> bool \<Rightarrow> bool \<Rightarrow> ('b, 'x, 'b item list) txs_op" where
  "getAccountRemoveSignByKey L = getTxByKey L ''index_account_remove_sign''"

definition getAccountSetUseKeysByKey :: "('b, 'x) lmdb \<Rightarrow> string \<Rightarrow> bool \<Rightarrow> bool \<Rightarrow> ('b, 'x, 'b item list) txs_op" where
  "getAccountSetUseKeysByKey L = getTxByKey L ''index_account_set_use_keys''"

definition getPeerAddByKey :: "('b, 'x) lmdb \<Rightarrow> string \<Rightarrow> bool \<Rightarrow> bool \<Rightarrow> ('b, 'x, 'b item list) txs_op" where
  "getPeerAddByKey L = getTxByKey L ''index_peer_add''"

definition getPeerChangeTrustByKey :: "('b, 'x) lmdb \<Rightarrow> string \<Rightarrow> bool \<Rightarrow> bool \<Rightarrow> ('b, 'x, 'b item list) txs_op" where
  "getPeerChangeTrustByKey L = getTxByKey L ''index_peer_change_trust''"

definition getPeerRemoveByKey :: "('b, 'x) lmdb \<Rightarrow> string \<Rightarrow> bool \<Rightarrow> bool \<Rightarrow> ('b, 'x, 'b item list) txs_op" where
  "getPeerRemoveByKey L = getTxByKey L ''index_peer_remove''"

definition getPeerSetActiveByKey :: "('b, 'x) lmdb \<Rightarrow> string \<Rightarrow> bool \<Rightarrow> bool \<Rightarrow> ('b, 'x, 'b item list) txs_op" where
  "getPeerSetActiveByKey L = getTxByKey L ''index_peer_set_active''"

definition getPeerSetTrustByKey :: "('b, 'x) lmdb \<Rightarrow> string \<Rightarrow> bool \<Rightarrow> bool \<Rightarrow> ('b, 'x, 'b item list) txs_op" where
  "getPeerSetTrustByKey L = getTxByKey L ''index_peer_set_trust''"

end
