(* ===== verification/Tx_Store_Refinement.thy ===== *)
theory Tx_Store_Refinement
  imports Tx_Store Store Merkle_Refinement
begin

text \<open>
  What the transaction store keeps true, and what an append, a commit and a reload do to its
  trees and to the Merkle tree.
\<close>

section \<open>The invariant\<close>

definition txs_names :: "(string \<times> bool) list" where
  "txs_names = (''tx_store'', False) # (''merkle_tree'', False) # map (\<lambda>n. (n, True)) index_names"

abbreviation txs_set :: "string set" where
  "txs_set \<equiv> fst ` set txs_names"

definition ttree :: "('b, 'x) env \<Rightarrow> txstore \<Rightarrow> string \<Rightarrow> 'b tree" where
  "ttree e s n = store_tree e (ts_append_tx s) n"

text \<open>The transactions are numbered from 1, and the counter is the last number.\<close>

definition txs_ok :: "('b, 'x) env \<Rightarrow> txstore \<Rightarrow> bool" where
  "txs_ok e s \<longleftrightarrow>
     store_ok txs_names (ts_trees s) (ts_append_tx s) e
     \<and> map fst (ttree e s ''tx_store'') = map INum [1..<Suc (ts_total s)]"

lemma txs_okD:
  assumes "txs_ok e s"
  shows "store_ok txs_names (ts_trees s) (ts_append_tx s) e"
    "map fst (ttree e s ''tx_store'') = map INum [1..<Suc (ts_total s)]"
  using assms by (simp_all add: txs_ok_def)

lemma txs_names_mem:
  "(''tx_store'', False) \<in> set txs_names" "(''merkle_tree'', False) \<in> set txs_names"
  "n \<in> set index_names \<Longrightarrow> (n, True) \<in> set txs_names"
  by (simp_all add: txs_names_def)

lemma txs_tree_at: "map_of (ts_trees s) n = Some h \<Longrightarrow> txs_tree n (e, s) = (Inr h, (e, s))"
  by (simp add: txs_tree_def trees_at_def bindS_def result_simps split: prod.split)

lemma txs_handle:
  assumes "store_ok txs_names (ts_trees s) (ts_append_tx s) e" and "(n, dup) \<in> set txs_names"
  obtains d c where "map_of (ts_trees s) n = Some (d, c)" "txs_tree n (e, s) = (Inr (d, c), (e, s))"
  using store_okD [OF assms] that txs_tree_at by blast

section \<open>Puts into the indices\<close>

text \<open>
  Whatever LMDB makes of a put into an index, it touches that index only; a code that the
  program does not look at is ignored.
\<close>

lemma store_put_frame:
  assumes ok: "lmdb_ok bsize L" and st: "store_ok names ts tx e" "(n, dup) \<in> set names"
    and c: "map_of ts n = Some (d, c)" and g: "mdb_cursor_put L c k v fl e = (rc, e')"
  shows "step_on tx {n} e e'"
proof -
  obtain cu db where o: "env_cursors e c = Some cu" "cu_txn cu = tx" "cu_db cu = n"
    "txn_db e tx n = Some db" using store_cursor [OF st c] by blast
  have "put_spec bsize L" using ok by (simp add: lmdb_ok_def)
  from this [unfolded put_spec_def, rule_format, of e c cu db k v fl rc e'] o g
  obtain t' where "frame e e'" "env_txns e' = upd_tree tx n t' (env_txns e)"
    unfolding Let_def by blast
  then show ?thesis by (rule upd_tree_step)
qed

lemma critical_cases: "critical rc errs s = (Inr (), s) \<or> critical rc errs s = (Inl (InternalError FATAL), s)"
  by (simp add: critical_def result_simps)

lemma put_effect_set:
  assumes "put_effect True cmp k v t t'" and cmp: "\<And>a b. cmp a b = 0 \<longleftrightarrow> a = b"
  shows "set t' = insert (k, v) (set t)"
proof (cases "(k, v) \<in> set t")
  case True
  then have "\<exists>v0 \<in> set (tget t k). cmp v v0 = 0" by (auto simp: set_tget cmp)
  then have "t' = t \<or> (\<exists>i < length t. fst (t ! i) = k \<and> cmp v (snd (t ! i)) = 0 \<and> t' = t[i := (k, v)])"
    using assms(1) by (simp add: put_effect_def)
  then have "t' = t" by (auto simp: cmp)
  then show ?thesis using True by auto
next
  case False
  then have "\<not> (\<exists>v0 \<in> set (tget t k). cmp v v0 = 0)" by (auto simp: set_tget cmp)
  then have "\<exists>i \<le> length t. t' = ins_nth i (k, v) t" using assms(1) by (simp add: put_effect_def)
  then show ?thesis by auto
qed

lemma put_index:
  assumes L: "lmdb_ok bsize L" and st: "store_ok txs_names (ts_trees s) (ts_append_tx s) e"
    and n: "n \<in> set index_names"
    and m: "m = bindS (txs_tree n) (\<lambda>(dbi, cursor). bindS (cursor_put L cursor k v [])
       (\<lambda>res. critical res [MDB_MAP_FULL, MDB_TXN_FULL, EACCES, EINVAL]))"
  shows "\<exists>r e'. m (e, s) = (r, (e', s)) \<and> step_on (ts_append_tx s) {n} e e'
    \<and> (r = Inl (InternalError FATAL) \<or> r = Inr ()
         \<and> (put_size_ok bsize True (ttree e s n) k v \<longrightarrow>
              put_effect True (env_cmp e n) k v (ttree e s n) (ttree e' s n)))"
proof -
  note mem = txs_names_mem(3) [OF n]
  obtain d c where h: "map_of (ts_trees s) n = Some (d, c)" "txs_tree n (e, s) = (Inr (d, c), (e, s))"
    using txs_handle [OF st mem] by blast
  obtain rc e' where p: "mdb_cursor_put L c k v [] e = (rc, e')" by (metis prod.exhaust)
  have r: "m (e, s) = critical rc [MDB_MAP_FULL, MDB_TXN_FULL, EACCES, EINVAL] (e', s)"
    by (simp add: m bindS_def h(2) cursor_put_def p)
  show ?thesis
  proof (cases "rc \<in> set [MDB_MAP_FULL, MDB_TXN_FULL, EACCES, EINVAL]")
    case True
    then show ?thesis using r store_put_frame [OF L st mem h(1) p]
      by (auto simp: critical_def result_simps)
  next
    case False
    then have "m (e, s) = (Inr (), (e', s))" using r by (simp add: critical_def result_simps)
    moreover have "put_size_ok bsize True (ttree e s n) k v \<longrightarrow>
        put_effect True (env_cmp e n) k v (ttree e s n) (ttree e' s n)"
      using store_put [OF L st mem h(1) p] False by (auto simp: ttree_def put_codes_def)
    ultimately show ?thesis using store_put_frame [OF L st mem h(1) p] by blast
  qed
qed

text \<open>An index that holds transaction numbers only, in the order of numbers.\<close>

definition num_index :: "('b, 'x) env \<Rightarrow> txstore \<Rightarrow> string \<Rightarrow> bool" where
  "num_index e s n \<longleftrightarrow> (\<forall>a b. env_cmp e n a b = 0 \<longleftrightarrow> a = b)
     \<and> (\<forall>(k, v) \<in> set (ttree e s n). \<exists>i. v = INum i)"

lemma num_index_put:
  assumes "num_index e s n" and "key_size_ok bsize k"
    and "put_size_ok bsize True (ttree e s n) k (INum i) \<longrightarrow>
          put_effect True (env_cmp e n) k (INum i) (ttree e s n) (ttree e' s n)"
  shows "set (ttree e' s n) = insert (k, INum i) (set (ttree e s n))"
proof (rule put_effect_set)
  have "put_size_ok bsize True (ttree e s n) k (INum i)"
    using assms(1,2) by (fastforce simp: put_size_ok_def num_index_def set_tget key_size_ok_def MAXKEYSIZE_def)
  then show "put_effect True (env_cmp e n) k (INum i) (ttree e s n) (ttree e' s n)" using assms(3) by blast
qed (use assms(1) in \<open>simp add: num_index_def\<close>)

lemma num_index_step:
  "num_index e s n \<Longrightarrow> step_on (ts_append_tx s) ns e e' \<Longrightarrow> n \<notin> ns \<Longrightarrow> num_index e' s n"
  using step_on_tree by (fastforce simp: num_index_def step_on_cmp ttree_def)

lemma put_indices_ok:
  assumes L: "lmdb_ok bsize L"
  shows "store_ok txs_names (ts_trees s) (ts_append_tx s) e \<Longrightarrow> set ns \<subseteq> set index_names \<Longrightarrow> distinct ns \<Longrightarrow>
    \<exists>r e'. put_indices L ns creator i (e, s) = (r, (e', s)) \<and> step_on (ts_append_tx s) (set ns) e e'
      \<and> (r = Inl (InternalError FATAL) \<or> r = Inr ()
         \<and> (\<forall>n \<in> set ns. num_index e s n \<and> key_size_ok bsize (IStr creator) \<longrightarrow>
              set (ttree e' s n) = insert (IStr creator, INum i) (set (ttree e s n))))"
proof (induction ns arbitrary: e)
  case (Cons m ns)
  let ?f = "bindS (txs_tree m) (\<lambda>(dbi, cursor). bindS (cursor_put L cursor (IStr creator) (INum i) [])
       (\<lambda>res. critical res [MDB_MAP_FULL, MDB_TXN_FULL, EACCES, EINVAL]))"
  have m: "m \<in> set index_names" using Cons.prems(2) by simp
  obtain r e' where r: "?f (e, s) = (r, (e', s))" "step_on (ts_append_tx s) {m} e e'"
    "r = Inl (InternalError FATAL) \<or> r = Inr ()
       \<and> (put_size_ok bsize True (ttree e s m) (IStr creator) (INum i) \<longrightarrow>
          put_effect True (env_cmp e m) (IStr creator) (INum i) (ttree e s m) (ttree e' s m))"
    using put_index [OF L Cons.prems(1) m refl] by blast
  have f: "put_indices L (m # ns) creator i (e, s) = bindS ?f (\<lambda>_. put_indices L ns creator i) (e, s)"
    by (simp add: put_tx_into_tree_by_key_def bindS_def split: prod.splits sum.splits)
  have s1: "step_on (ts_append_tx s) (set (m # ns)) e e'" by (rule step_on_mono [OF r(2)]) simp
  show ?case
  proof (cases "r = Inr ()")
    case False
    then show ?thesis using f r s1 by (auto simp: bindS_def)
  next
    case True
    obtain r2 e2 where r2: "put_indices L ns creator i (e', s) = (r2, (e2, s))"
      "step_on (ts_append_tx s) (set ns) e' e2" "r2 = Inl (InternalError FATAL) \<or> r2 = Inr ()
         \<and> (\<forall>n \<in> set ns. num_index e' s n \<and> key_size_ok bsize (IStr creator) \<longrightarrow>
              set (ttree e2 s n) = insert (IStr creator, INum i) (set (ttree e' s n)))"
      using Cons.IH [OF store_ok_step [OF Cons.prems(1) r(2)]] Cons.prems(2,3) by auto
    have s2: "step_on (ts_append_tx s) (set (m # ns)) e e2"
      by (rule step_on_trans [OF s1 step_on_mono [OF r2(2)]]) auto
    have m2: "ttree e2 s m = ttree e' s m"
      using step_on_tree [OF r2(2)] Cons.prems(3) by (simp add: ttree_def)
    have n2: "ttree e' s n = ttree e s n" "num_index e s n \<Longrightarrow> num_index e' s n" if "n \<in> set ns" for n
      using step_on_tree [OF r(2), of n] num_index_step [OF _ r(2), of n] that Cons.prems(3)
      by (auto simp: ttree_def)
    have "set (ttree e2 s n) = insert (IStr creator, INum i) (set (ttree e s n))"
      if r2ok: "r2 = Inr ()" and n: "n \<in> set (m # ns)" "num_index e s n" and k: "key_size_ok bsize (IStr creator)" for n
    proof (cases "n = m")
      case True
      then show ?thesis using num_index_put [OF _ k, of e s m i e'] n(2) r(3) m2 \<open>r = Inr ()\<close> by auto
    next
      case False
      then show ?thesis using n r2(3) r2ok k n2 [of n] by auto
    qed
    then show ?thesis using f r(1) True r2 s2 by (auto simp: bindS_def)
  qed
qed (simp add: result_simps)

lemma index_trees_ok: "index_trees cmd = Some ns \<Longrightarrow> set ns \<subseteq> set index_names \<and> distinct ns
    \<and> ''index_transfer_sender'' \<notin> set ns \<and> ''index_transfer_receiver'' \<notin> set ns"
  by (auto simp: index_trees_def index_names_def split: command.splits)

abbreviation transfer_indices :: "string set" where
  "transfer_indices \<equiv> {''index_transfer_sender'', ''index_transfer_receiver''}"

lemma put_transfer_frame:
  assumes L: "lmdb_ok bsize L" and st: "store_ok txs_names (ts_trees s) (ts_append_tx s) e"
    and n: "n \<in> transfer_indices"
  shows "\<exists>r e'. put_transfer L n key blob (e, s) = (r, (e', s))
    \<and> step_on (ts_append_tx s) transfer_indices e e' \<and> (r = Inl (InternalError FATAL) \<or> r = Inr ())"
proof -
  have "n \<in> set index_names" using n by (auto simp: index_names_def)
  from put_index [OF L st this put_transfer_def] obtain r e'
    where "put_transfer L n key blob (e, s) = (r, (e', s))" "step_on (ts_append_tx s) {n} e e'"
      "r = Inl (InternalError FATAL) \<or> r = Inr ()" by blast
  then show ?thesis using step_on_mono [of "ts_append_tx s" "{n}" e e' transfer_indices] n by blast
qed

lemma put_transfers_frame:
  assumes L: "lmdb_ok bsize L" and st: "store_ok txs_names (ts_trees s) (ts_append_tx s) e"
  shows "\<exists>r e'. put_transfers L cmd blob (e, s) = (r, (e', s))
    \<and> step_on (ts_append_tx s) transfer_indices e e' \<and> (r = Inl (InternalError FATAL) \<or> r = Inr ())"
proof (cases "\<exists>a sd rc. cmd = AssetTransfer a sd rc")
  case False
  then have "put_transfers L cmd blob (e, s) = (Inr (), (e, s))"
    by (simp add: put_transfers_def result_simps split: command.splits)
  then show ?thesis by simp
next
  case True
  then obtain a sd rc where cmd: "cmd = AssetTransfer a sd rc" by blast
  obtain r e1 where 1: "put_transfer L ''index_transfer_sender'' sd blob (e, s) = (r, (e1, s))"
    "step_on (ts_append_tx s) transfer_indices e e1" "r = Inl (InternalError FATAL) \<or> r = Inr ()"
    using put_transfer_frame [OF L st] by blast
  obtain r2 e2 where 2: "put_transfer L ''index_transfer_receiver'' rc blob (e1, s) = (r2, (e2, s))"
    "step_on (ts_append_tx s) transfer_indices e1 e2" "r2 = Inl (InternalError FATAL) \<or> r2 = Inr ()"
    using put_transfer_frame [OF L store_ok_step [OF st 1(2)]] by blast
  have "put_transfers L cmd blob (e, s) = (case r of Inl err \<Rightarrow> (Inl err, (e1, s)) | Inr _ \<Rightarrow> (r2, (e2, s)))"
    by (simp add: put_transfers_def cmd bindS_def 1(1) 2(1) split: sum.splits)
  then show ?thesis using 1 2 step_on_trans [OF 1(2) 2(2)] by auto
qed

section \<open>The indices as functions of the log\<close>

text \<open>A transaction belongs in an index, under a key.\<close>

definition indexed :: "'b fb \<Rightarrow> 'b \<Rightarrow> string \<Rightarrow> string \<Rightarrow> bool" where
  "indexed F b n c \<longleftrightarrow> tx_creatorPubKey (fb_transaction F b) = c
     \<and> (\<exists>ns. index_trees (tx_command (fb_transaction F b)) = Some ns \<and> n \<in> set ns)"

definition index_of :: "'b fb \<Rightarrow> 'b tree \<Rightarrow> string \<Rightarrow> ('b item \<times> 'b item) set" where
  "index_of F txs n = {(IStr c, INum i) | c i. \<exists>b. (INum i, IBlob b) \<in> set txs \<and> indexed F b n c}"

definition indices_ok :: "'b fb \<Rightarrow> ('b, 'x) env \<Rightarrow> txstore \<Rightarrow> bool" where
  "indices_ok F e s \<longleftrightarrow> (\<forall>n \<in> set index_names - transfer_indices.
     (\<forall>a b. env_cmp e n a b = 0 \<longleftrightarrow> a = b)
     \<and> set (ttree e s n) = index_of F (ttree e s ''tx_store'') n)"

lemma indices_num: "indices_ok F e s \<Longrightarrow> n \<in> set index_names - transfer_indices \<Longrightarrow> num_index e s n"
  by (auto simp: indices_ok_def num_index_def index_of_def)

lemma index_of_append:
  "index_of F (t @ [(INum i, IBlob b)]) n =
     (if \<exists>ns. index_trees (tx_command (fb_transaction F b)) = Some ns \<and> n \<in> set ns
      then insert (IStr (tx_creatorPubKey (fb_transaction F b)), INum i) (index_of F t n)
      else index_of F t n)"
  by (auto simp: index_of_def indexed_def)

section \<open>Append\<close>

text \<open>The last two steps of an append: the hash of the transaction goes to the Merkle tree.\<close>

definition append_hash :: "(byte list \<Rightarrow> hash_t) \<Rightarrow> hash_t option \<Rightarrow> ('b, 'x, hash_t) txs_op" where
  "append_hash sha3 ho = (case ho of
       None \<Rightarrow> throwS Undefined
     | Some hash \<Rightarrow>
         bindS (assertS (length hash = HASH_LEN)) (\<lambda>_.
         bindS (merkle_push sha3 hash) (\<lambda>_. txs_merkle_root)))"

lemma merkle_root_push:
  assumes k: "1 \<le> k" "k \<le> 31" and m: "mt_run sha3 (2 ^ k) 1 hs = Inr m"
  shows "\<exists>m'. mt_push sha3 h m = Inr m' \<and> mt_run sha3 (2 ^ k) 1 (hs @ [h]) = Inr m'
    \<and> mt_root m' = Inr (merkle_root_of (hash_pair sha3) (last (blk_of (hash_pair sha3) (2 ^ k) (hs @ [h]))))"
proof -
  have small: "(1 + 2) * 2 ^ k < SIZE_MOD"
  proof -
    have "(2 :: nat) ^ k \<le> 2 ^ 31" using k(2) by (intro power_increasing) auto
    then show ?thesis by (simp add: SIZE_MOD_def)
  qed
  obtain m' where m': "mt_run sha3 (2 ^ k) 1 (hs @ [h]) = Inr m'"
    "mt_root m' = Inr (merkle_root_of (hash_pair sha3) (last (blk_of (hash_pair sha3) (2 ^ k) (hs @ [h]))))"
    using mt_run_rel [OF k zero_less_one small, of sha3 "hs @ [h]"] hist_rel_root by fastforce
  have "mt_run sha3 (2 ^ k) 1 (hs @ [h]) = bindR (mt_run sha3 (2 ^ k) 1 hs) (mt_push sha3 h)"
  proof -
    have "foldR (mt_push sha3) [h] t = mt_push sha3 h t" for t by (cases "mt_push sha3 h t") simp_all
    then have "foldR (mt_push sha3) [h] = mt_push sha3 h" by (rule ext)
    then show ?thesis by (cases "mt_new (2 ^ k) 1") (simp_all add: mt_run_def foldR_append)
  qed
  then show ?thesis using m m' by simp
qed

lemma append_hash_ok:
  assumes k: "1 \<le> k" "k \<le> 31" and m: "mt_run sha3 (2 ^ k) 1 hs = Inr (ts_merkle s)"
  shows "append_hash sha3 ho (e, s) = (case ho of
       None \<Rightarrow> (Inl Undefined, (e, s))
     | Some h \<Rightarrow> (if length h \<noteq> HASH_LEN then (Inl Assert_Failed, (e, s))
         else (Inr (merkle_root_of (hash_pair sha3) (last (blk_of (hash_pair sha3) (2 ^ k) (hs @ [h])))),
               (e, s\<lparr>ts_merkle := projr (mt_run sha3 (2 ^ k) 1 (hs @ [h]))\<rparr>))))"
proof (cases ho)
  case (Some h)
  obtain m' where "mt_push sha3 h (ts_merkle s) = Inr m'" "mt_run sha3 (2 ^ k) 1 (hs @ [h]) = Inr m'"
    "mt_root m' = Inr (merkle_root_of (hash_pair sha3) (last (blk_of (hash_pair sha3) (2 ^ k) (hs @ [h]))))"
    using merkle_root_push [OF k m, of h] by blast
  then show ?thesis using Some
    by (simp add: append_hash_def bindS_def result_simps merkle_push_def liftR_def modify_txs_def
      txs_merkle_root_def)
qed (simp add: append_hash_def result_simps)

text \<open>
  One append: what it leaves, unless the database fails.  The transaction is appended to the
  log and counted on every branch, the ones that throw included.
\<close>

definition append_result :: "(byte list \<Rightarrow> hash_t) \<Rightarrow> nat \<Rightarrow> hash_t list \<Rightarrow> 'b transaction \<Rightarrow>
    (error + hash_t) \<times> hash_t list" where
  "append_result sha3 k hs tx =
     (if index_trees (tx_command tx) = None then (Inl (InvalidTransaction WRONG_COMMAND), hs)
      else case tx_hash tx of
        None \<Rightarrow> (Inl Undefined, hs)
      | Some h \<Rightarrow>
          if length h \<noteq> HASH_LEN then (Inl Assert_Failed, hs)
          else (Inr (merkle_root_of (hash_pair sha3) (last (blk_of (hash_pair sha3) (2 ^ k) (hs @ [h])))),
                hs @ [h]))"

definition txs_log :: "('b, 'x) env \<Rightarrow> txstore \<Rightarrow> 'b item list" where
  "txs_log e s = map snd (ttree e s ''tx_store'')"

lemma txs_put:
  assumes L: "lmdb_ok bsize L" and ok: "txs_ok e s" and small: "Suc (ts_total s) < SIZE_MOD"
    and h: "map_of (ts_trees s) ''tx_store'' = Some (d, c)"
    and g: "mdb_cursor_put L c (INum (Suc (ts_total s))) v [MDB_NOOVERWRITE, MDB_APPEND] e = (rc, e')"
  shows "step_on (ts_append_tx s) {''tx_store''} e e'
    \<and> (rc \<in> set [MDB_KEYEXIST, MDB_MAP_FULL, MDB_TXN_FULL, EACCES, EINVAL]
       \<or> ttree e' s ''tx_store'' = ttree e s ''tx_store'' @ [(INum (Suc (ts_total s)), v)])"
  using store_append [OF L txs_okD(1) [OF ok] txs_names_mem(1) h g]
  by (auto simp: key_size_ok_def MAXKEYSIZE_def put_codes_def ttree_def)

definition append_rest :: "(byte list \<Rightarrow> hash_t) \<Rightarrow> ('b, 'x) lmdb \<Rightarrow> 'b transaction \<Rightarrow> 'b \<Rightarrow> nat \<Rightarrow>
    ('b, 'x, hash_t) txs_op" where
  "append_rest sha3 L tx blob i =
     bindS (case index_trees (tx_command tx) of
              Some names \<Rightarrow> put_indices L names (tx_creatorPubKey tx) i
            | None \<Rightarrow> throwS (InvalidTransaction WRONG_COMMAND)) (\<lambda>_.
     bindS (put_transfers L (tx_command tx) blob) (\<lambda>_. append_hash sha3 (tx_hash tx)))"

lemma append_hash_result:
  assumes k: "1 \<le> k" "k \<le> 31" and m: "mt_run sha3 (2 ^ k) 1 hs = Inr (ts_merkle s)"
    and ix: "index_trees (tx_command tx) = Some ns"
  shows "\<exists>r hs' m'. append_hash sha3 (tx_hash tx) (e, s) = (r, (e, s\<lparr>ts_merkle := m'\<rparr>))
    \<and> append_result sha3 k hs tx = (r, hs') \<and> mt_run sha3 (2 ^ k) 1 hs' = Inr m'"
proof (cases "\<exists>h. tx_hash tx = Some h \<and> length h = HASH_LEN")
  case True
  then obtain h where h: "tx_hash tx = Some h" "length h = HASH_LEN" by blast
  obtain m' where "mt_run sha3 (2 ^ k) 1 (hs @ [h]) = Inr m'" using merkle_root_push [OF k m] by blast
  then show ?thesis using h ix append_hash_ok [OF k m, of "tx_hash tx" e]
    by (simp add: append_result_def)
next
  case False
  have same: "s\<lparr>ts_merkle := ts_merkle s\<rparr> = s" by simp
  show ?thesis
    using same False ix m append_hash_ok [OF k m, of "tx_hash tx" e]
    by (intro exI [of _ "fst (append_result sha3 k hs tx)"] exI [of _ hs] exI [of _ "ts_merkle s"])
      (auto simp: append_result_def split: option.splits)
qed

text \<open>The records of all indices, and then those of a transfer.\<close>

lemma append_puts_ok:
  assumes L: "lmdb_ok bsize L" and st: "store_ok txs_names (ts_trees s) (ts_append_tx s) e"
    and num: "\<And>n. n \<in> set index_names - transfer_indices \<Longrightarrow> num_index e s n"
    and key: "key_size_ok bsize (IStr creator)" and ns: "index_trees cmd = Some ns"
  shows "\<exists>r e'. bindS (put_indices L ns creator i) (\<lambda>_. put_transfers L cmd blob) (e, s) = (r, (e', s))
    \<and> step_on (ts_append_tx s) (set index_names) e e'
    \<and> (r = Inl (InternalError FATAL) \<or> r = Inr () \<and> (\<forall>n \<in> set index_names - transfer_indices.
         set (ttree e' s n) = (if n \<in> set ns then insert (IStr creator, INum i) (set (ttree e s n)) else set (ttree e s n))))"
proof -
  note ix = index_trees_ok [OF ns]
  obtain r1 e1 where 1: "put_indices L ns creator i (e, s) = (r1, (e1, s))"
    "step_on (ts_append_tx s) (set ns) e e1" "r1 = Inl (InternalError FATAL) \<or> r1 = Inr ()
         \<and> (\<forall>n \<in> set ns. num_index e s n \<and> key_size_ok bsize (IStr creator) \<longrightarrow>
              set (ttree e1 s n) = insert (IStr creator, INum i) (set (ttree e s n)))"
    using put_indices_ok [OF L st] ix by blast
  obtain r2 e2 where 2: "put_transfers L cmd blob (e1, s) = (r2, (e2, s))"
    "step_on (ts_append_tx s) transfer_indices e1 e2" "r2 = Inl (InternalError FATAL) \<or> r2 = Inr ()"
    using put_transfers_frame [OF L store_ok_step [OF st 1(2)]] by blast
  have tr: "transfer_indices \<subseteq> set index_names" by (simp add: index_names_def)
  have s1: "step_on (ts_append_tx s) (set index_names) e e1" using step_on_mono [OF 1(2)] ix by simp
  have s2: "step_on (ts_append_tx s) (set index_names) e e2"
    by (rule step_on_trans [OF s1 step_on_mono [OF 2(2) tr]])
  have run: "bindS (put_indices L ns creator i) (\<lambda>_. put_transfers L cmd blob) (e, s) =
      (case r1 of Inl err \<Rightarrow> (Inl err, (e1, s)) | Inr _ \<Rightarrow> (r2, (e2, s)))"
    by (simp add: bindS_def 1(1) 2(1) split: sum.splits)
  have "set (ttree e2 s n) = (if n \<in> set ns then insert (IStr creator, INum i) (set (ttree e s n)) else set (ttree e s n))"
    if "r1 = Inr ()" and n: "n \<in> set index_names - transfer_indices" for n
  proof -
    have "ttree e2 s n = ttree e1 s n" using step_on_tree [OF 2(2)] n by (simp add: ttree_def)
    moreover have "n \<notin> set ns \<Longrightarrow> ttree e1 s n = ttree e s n"
      using step_on_tree [OF 1(2)] by (simp add: ttree_def)
    ultimately show ?thesis using 1(3) that(1) num [OF n] key by auto
  qed
  then show ?thesis using run s1 s2 1(3) 2(3) by auto
qed

lemma append_rest_ok:
  assumes L: "lmdb_ok bsize L" and st: "store_ok txs_names (ts_trees s) (ts_append_tx s) e"
    and num: "\<And>n. n \<in> set index_names - transfer_indices \<Longrightarrow> num_index e s n"
    and key: "key_size_ok bsize (IStr (tx_creatorPubKey tx))"
    and k: "1 \<le> k" "k \<le> 31" and m: "mt_run sha3 (2 ^ k) 1 hs = Inr (ts_merkle s)"
  shows "\<exists>r e' m'. append_rest sha3 L tx blob i (e, s) = (r, (e', s\<lparr>ts_merkle := m'\<rparr>))
    \<and> step_on (ts_append_tx s) (set index_names) e e'
    \<and> (r = Inl (InternalError FATAL)
       \<or> (\<exists>hs'. append_result sha3 k hs tx = (r, hs') \<and> mt_run sha3 (2 ^ k) 1 hs' = Inr m')
         \<and> (\<forall>n \<in> set index_names - transfer_indices. set (ttree e' s n) =
              (if \<exists>ns. index_trees (tx_command tx) = Some ns \<and> n \<in> set ns
               then insert (IStr (tx_creatorPubKey tx), INum i) (set (ttree e s n))
               else set (ttree e s n))))"
proof (cases "index_trees (tx_command tx)")
  case None
  then have "append_rest sha3 L tx blob i (e, s) = (Inl (InvalidTransaction WRONG_COMMAND), (e, s))"
    by (simp add: append_rest_def bindS_def result_simps)
  then show ?thesis using None m
    by (intro exI [of _ "Inl (InvalidTransaction WRONG_COMMAND)"] exI [of _ e] exI [of _ "ts_merkle s"])
       (simp add: append_result_def)
next
  case (Some ns)
  obtain r e1 where p: "bindS (put_indices L ns (tx_creatorPubKey tx) i) (\<lambda>_. put_transfers L (tx_command tx) blob) (e, s)
      = (r, (e1, s))" "step_on (ts_append_tx s) (set index_names) e e1"
    "r = Inl (InternalError FATAL) \<or> r = Inr () \<and> (\<forall>n \<in> set index_names - transfer_indices. set (ttree e1 s n) =
       (if n \<in> set ns then insert (IStr (tx_creatorPubKey tx), INum i) (set (ttree e s n)) else set (ttree e s n)))"
    using append_puts_ok [OF L st num key Some, of i blob] by blast
  have run: "append_rest sha3 L tx blob i (e, s) = (case r of Inl err \<Rightarrow> (Inl err, (e1, s))
      | Inr _ \<Rightarrow> append_hash sha3 (tx_hash tx) (e1, s))"
    using p(1) by (auto simp: append_rest_def Some bindS_def split: sum.splits prod.splits)
  show ?thesis
  proof (cases "r = Inr ()")
    case False
    then have "append_rest sha3 L tx blob i (e, s) = (Inl (InternalError FATAL), (e1, s\<lparr>ts_merkle := ts_merkle s\<rparr>))"
      using run p(3) by auto
    then show ?thesis using p(2) by blast
  next
    case True
    obtain r' hs' m' where "append_hash sha3 (tx_hash tx) (e1, s) = (r', (e1, s\<lparr>ts_merkle := m'\<rparr>))"
      "append_result sha3 k hs tx = (r', hs')" "mt_run sha3 (2 ^ k) 1 hs' = Inr m'"
      using append_hash_result [OF k m Some] by blast
    then show ?thesis using run True p(2,3) Some by auto
  qed
qed

text \<open>The indices after the log has got a transaction more and they have got their records of it.\<close>

lemma indices_ok_append:
  assumes ix: "indices_ok F e s" and s: "step_on tx ns e e'"
    and log: "ttree e' s ''tx_store'' = ttree e s ''tx_store'' @ [(INum i, IBlob blob)]"
    and upd: "\<forall>n \<in> set index_names - transfer_indices. set (ttree e' s n) =
       (if \<exists>ns. index_trees (tx_command (fb_transaction F blob)) = Some ns \<and> n \<in> set ns
        then insert (IStr (tx_creatorPubKey (fb_transaction F blob)), INum i) (set (ttree e s n))
        else set (ttree e s n))"
  shows "indices_ok F e' s"
  unfolding indices_ok_def
proof (intro ballI conjI)
  fix n assume n: "n \<in> set index_names - transfer_indices"
  have old: "\<forall>a b. env_cmp e n a b = 0 \<longleftrightarrow> a = b" "set (ttree e s n) = index_of F (ttree e s ''tx_store'') n"
    using ix n by (auto simp: indices_ok_def)
  show "\<forall>a b. env_cmp e' n a b = 0 \<longleftrightarrow> a = b" using old(1) step_on_cmp [OF s] by simp
  show "set (ttree e' s n) = index_of F (ttree e' s ''tx_store'') n"
    unfolding log index_of_append old(2) [symmetric] using upd n by blast
qed

text \<open>The first put: the transaction goes to the end of the log.\<close>

lemma append_first:
  assumes L: "lmdb_ok bsize L" and ok: "txs_ok e s" and small: "Suc (ts_total s) < SIZE_MOD"
  defines "s1 \<equiv> s\<lparr>ts_total := Suc (ts_total s)\<rparr>"
  shows "\<exists>e1. step_on (ts_append_tx s) {''tx_store''} e e1
    \<and> (txs_append sha3 F L blob (e, s) = (Inl (InternalError FATAL), (e1, s1))
      \<or> txs_append sha3 F L blob (e, s) = append_rest sha3 L (fb_transaction F blob) blob (Suc (ts_total s)) (e1, s1)
        \<and> ttree e1 s ''tx_store'' = ttree e s ''tx_store'' @ [(INum (Suc (ts_total s)), IBlob blob)])"
proof -
  let ?tx = "fb_transaction F blob" and ?i = "Suc (ts_total s)" and ?n = "''tx_store''"
  let ?errs = "[MDB_KEYEXIST, MDB_MAP_FULL, MDB_TXN_FULL, EACCES, EINVAL]"
  obtain d c where h: "map_of (ts_trees s) ?n = Some (d, c)"
    using txs_handle [OF txs_okD(1) [OF ok] txs_names_mem(1)] by blast
  obtain rc e1 where g: "mdb_cursor_put L c (INum ?i) (IBlob blob) [MDB_NOOVERWRITE, MDB_APPEND] e = (rc, e1)"
    by (metis prod.exhaust)
  note put = txs_put [OF L ok small h g]
  have "txs_append sha3 F L blob (e, s) = bindS (critical rc ?errs) (\<lambda>_. append_rest sha3 L ?tx blob ?i) (e1, s1)"
    using h small
    by (simp add: txs_append_def Let_def bindS_def result_simps modify_txs_def sz_add_eq txs_tree_def
        trees_at_def cursor_put_def g s1_def append_rest_def append_hash_def
        cong del: option.case_cong_weak sum.case_cong_weak prod.case_cong_weak)
  then have "txs_append sha3 F L blob (e, s) = (if rc \<in> set ?errs then (Inl (InternalError FATAL), (e1, s1))
      else append_rest sha3 L ?tx blob ?i (e1, s1))"
    by (simp add: bindS_def critical_def result_simps)
  then show ?thesis using put by (intro exI [of _ e1]) auto
qed

lemma append_ok:
  assumes L: "lmdb_ok bsize L" and ok: "txs_ok e s" and ix: "indices_ok F e s"
    and small: "Suc (ts_total s) < SIZE_MOD"
    and key: "key_size_ok bsize (IStr (tx_creatorPubKey (fb_transaction F blob)))"
    and k: "1 \<le> k" "k \<le> 31" and m: "mt_run sha3 (2 ^ k) 1 hs = Inr (ts_merkle s)"
  shows "\<exists>r e' s'. txs_append sha3 F L blob (e, s) = (r, (e', s'))
    \<and> step_on (ts_append_tx s) (insert ''tx_store'' (set index_names)) e e'
    \<and> ts_append_tx s' = ts_append_tx s \<and> ts_trees s' = ts_trees s
    \<and> (r = Inl (InternalError FATAL)
       \<or> txs_ok e' s' \<and> indices_ok F e' s' \<and> txs_log e' s' = txs_log e s @ [IBlob blob]
         \<and> (\<exists>hs'. append_result sha3 k hs (fb_transaction F blob) = (r, hs')
              \<and> mt_run sha3 (2 ^ k) 1 hs' = Inr (ts_merkle s')))"
proof -
  let ?tx = "fb_transaction F blob" and ?i = "Suc (ts_total s)" and ?n = "''tx_store''"
  define s1 where "s1 = s\<lparr>ts_total := ?i\<rparr>"
  have same: "ts_append_tx s1 = ts_append_tx s" "ts_trees s1 = ts_trees s" "ttree e1 s1 = ttree e1 s" for e1 :: "('a, 'b) env"
    by (simp_all add: s1_def ttree_def fun_eq_iff)
  have no: "?n \<notin> set index_names" by (simp add: index_names_def)
  obtain e1 where e1: "step_on (ts_append_tx s) {?n} e e1"
    "txs_append sha3 F L blob (e, s) = (Inl (InternalError FATAL), (e1, s1))
      \<or> txs_append sha3 F L blob (e, s) = append_rest sha3 L ?tx blob ?i (e1, s1)
        \<and> ttree e1 s ?n = ttree e s ?n @ [(INum ?i, IBlob blob)]"
    using append_first [OF L ok small] unfolding s1_def by blast
  have sub: "step_on (ts_append_tx s) (insert ?n (set index_names)) e e1" using step_on_mono [OF e1(1)] by simp
  from e1(2) show ?thesis
  proof
    assume "txs_append sha3 F L blob (e, s) = (Inl (InternalError FATAL), (e1, s1))"
    then show ?thesis using sub same by blast
  next
    assume run: "txs_append sha3 F L blob (e, s) = append_rest sha3 L ?tx blob ?i (e1, s1)
        \<and> ttree e1 s ?n = ttree e s ?n @ [(INum ?i, IBlob blob)]"
    have st1: "store_ok txs_names (ts_trees s1) (ts_append_tx s1) e1"
      using store_ok_step [OF txs_okD(1) [OF ok] e1(1)] by (simp add: same)
    have num: "num_index e1 s1 n" if n: "n \<in> set index_names - transfer_indices" for n
      using num_index_step [OF indices_num [OF ix n] e1(1)] n no by (fastforce simp: num_index_def same)
    have m1: "mt_run sha3 (2 ^ k) 1 hs = Inr (ts_merkle s1)" using m by (simp add: s1_def)
    obtain r e2 m' where r: "append_rest sha3 L ?tx blob ?i (e1, s1) = (r, (e2, s1\<lparr>ts_merkle := m'\<rparr>))"
      "step_on (ts_append_tx s) (set index_names) e1 e2" "r = Inl (InternalError FATAL)
       \<or> (\<exists>hs'. append_result sha3 k hs ?tx = (r, hs') \<and> mt_run sha3 (2 ^ k) 1 hs' = Inr m')
         \<and> (\<forall>n \<in> set index_names - transfer_indices. set (ttree e2 s n) =
              (if \<exists>ns. index_trees (tx_command ?tx) = Some ns \<and> n \<in> set ns
               then insert (IStr (tx_creatorPubKey ?tx), INum ?i) (set (ttree e1 s n)) else set (ttree e1 s n)))"
      using append_rest_ok [OF L st1 num key k m1, of blob ?i, unfolded same] by blast
    let ?s2 = "s1\<lparr>ts_merkle := m'\<rparr>"
    have s2: "step_on (ts_append_tx s) (insert ?n (set index_names)) e e2"
      by (rule step_on_trans [OF sub step_on_mono [OF r(2)]]) auto
    have same2: "ts_append_tx ?s2 = ts_append_tx s" "ts_trees ?s2 = ts_trees s" "ttree e2 ?s2 = ttree e2 s" "ts_total ?s2 = ?i"
      by (simp_all add: s1_def ttree_def fun_eq_iff)
    have log: "ttree e2 s ?n = ttree e s ?n @ [(INum ?i, IBlob blob)]"
      using step_on_tree [OF r(2) no] run by (simp add: ttree_def)
    have "txs_ok e2 ?s2"
      using store_ok_step [OF txs_okD(1) [OF ok] s2] txs_okD(2) [OF ok]
      unfolding txs_ok_def same2 log by simp
    moreover have "indices_ok F e2 ?s2" if "r \<noteq> Inl (InternalError FATAL)"
    proof -
      have "ttree e1 s n = ttree e s n" if "n \<in> set index_names" for n
        using step_on_tree [OF e1(1), of n] that no by (auto simp: ttree_def)
      then have "indices_ok F e2 s" using r(3) that by (intro indices_ok_append [OF ix s2 log]) auto
      then show ?thesis unfolding indices_ok_def same2 .
    qed
    moreover have "txs_log e2 ?s2 = txs_log e s @ [IBlob blob]" by (simp add: txs_log_def same2 log)
    moreover have "r = Inl (InternalError FATAL) \<or> (\<exists>hs'. append_result sha3 k hs ?tx = (r, hs')
        \<and> mt_run sha3 (2 ^ k) 1 hs' = Inr (ts_merkle ?s2))" using r(3) by (elim disjE) simp_all
    moreover have "txs_append sha3 F L blob (e, s) = (r, (e2, ?s2))" using run r(1) by simp
    ultimately show ?thesis using s2 same2(1,2)
      by (intro exI [of _ r] exI [of _ e2] exI [of _ ?s2] conjI) (assumption | argo)+
  qed
qed

text \<open>To the other users of the transaction the store is the trees \<open>txs_names\<close>.\<close>

interpretation log_part: store_part txs_set "\<lambda>e s. txs_ok e s \<and> indices_ok F e s" txs_log ts_append_tx
  for F
proof
  show "(txs_ok e' s \<and> indices_ok F e' s) \<and> txs_log e' s = txs_log e s"
    if ok: "txs_ok e s \<and> indices_ok F e s" and s: "step_on (ts_append_tx s) ns e e'"
      and d: "txs_set \<inter> ns = {}" for e s ns and e' :: "('a, 'b) env"
  proof -
    have m: "''tx_store'' \<notin> ns" "n \<in> set index_names \<Longrightarrow> n \<notin> ns" for n
      using d txs_names_mem by (force simp: txs_names_def)+
    note t = step_on_tree [OF s m(1)] step_on_tree [OF s m(2)]
    show ?thesis
      using ok t step_on_cmp [OF s] store_ok_step [OF _ s]
      by (simp add: txs_ok_def indices_ok_def txs_log_def ttree_def)
  qed
qed

section \<open>Commit\<close>

lemma commit_loop_ok:
  assumes L: "lmdb_ok bsize L"
  shows "store_ok txs_names (ts_trees s) (ts_append_tx s) e \<Longrightarrow> a \<le> z \<Longrightarrow> z \<le> length b \<Longrightarrow>
    \<forall>k \<in> tkeys (ttree e s ''merkle_tree''). num_less k (INum a) \<Longrightarrow>
    \<exists>r e'. commit_loop L b [a..<z] (e, s) = (r, (e', s)) \<and> step_on (ts_append_tx s) {''merkle_tree''} e e'
      \<and> (r = Inl (InternalError FATAL) \<or> r = Inr ()
         \<and> ttree e' s ''merkle_tree'' = ttree e s ''merkle_tree'' @ map (\<lambda>i. (INum i, IHash (b ! i))) [a..<z])"
proof (induction "z - a" arbitrary: a e)
  case 0
  then show ?case by (simp add: result_simps)
next
  case (Suc m)
  let ?n = "''merkle_tree''" and ?errs = "[MDB_MAP_FULL, MDB_TXN_FULL, EACCES, EINVAL]"
  have a: "a < z" "m = z - Suc a" using Suc.hyps(2) by simp_all
  obtain d c where h: "map_of (ts_trees s) ?n = Some (d, c)" "txs_tree ?n (e, s) = (Inr (d, c), (e, s))"
    using txs_handle [OF Suc.prems(1) txs_names_mem(2)] by blast
  obtain rc e1 where g: "mdb_cursor_put L c (INum a) (IHash (b ! a)) [MDB_APPEND] e = (rc, e1)"
    by (metis prod.exhaust)
  have put: "step_on (ts_append_tx s) {?n} e e1" "rc \<in> set ?errs
      \<or> rc = MDB_SUCCESS \<and> ttree e1 s ?n = ttree e s ?n @ [(INum a, IHash (b ! a))]"
    using store_append [OF L Suc.prems(1) txs_names_mem(2) h(1) g] Suc.prems(4)
    by (auto simp: key_size_ok_def MAXKEYSIZE_def put_codes_def ttree_def)
  have run: "commit_loop L b [a..<z] (e, s) =
      (if rc \<in> set ?errs then (Inl (InternalError FATAL), (e1, s)) else commit_loop L b [Suc a..<z] (e1, s))"
    using a Suc.prems(3)
    by (simp add: upt_conv_Cons bindS_def h(2) cursor_put_def g critical_def result_simps liftR_def vec_at_def)
  show ?case
  proof (cases "rc \<in> set ?errs")
    case True
    then show ?thesis using run put(1) by auto
  next
    case False
    have t1: "ttree e1 s ?n = ttree e s ?n @ [(INum a, IHash (b ! a))]" using put(2) False by blast
    have "\<forall>k \<in> tkeys (ttree e s ?n). num_less k (INum (Suc a))"
    proof
      fix k assume "k \<in> tkeys (ttree e s ?n)"
      then have "num_less k (INum a)" using Suc.prems(4) by blast
      then show "num_less k (INum (Suc a))" by (cases k) simp_all
    qed
    then have "\<forall>k \<in> tkeys (ttree e1 s ?n). num_less k (INum (Suc a))"
      by (auto simp: t1 tkeys_def)
    from Suc.hyps(1) [OF a(2) store_ok_step [OF Suc.prems(1) put(1)] _ Suc.prems(3) this] a(1)
    obtain r e2 where "commit_loop L b [Suc a..<z] (e1, s) = (r, (e2, s))"
      "step_on (ts_append_tx s) {?n} e1 e2" "r = Inl (InternalError FATAL) \<or> r = Inr ()
         \<and> ttree e2 s ?n = ttree e1 s ?n @ map (\<lambda>i. (INum i, IHash (b ! i))) [Suc a..<z]" by auto
    then show ?thesis using run False t1 a(1) step_on_trans [OF put(1)] by (auto simp: upt_conv_Cons)
  qed
qed

text \<open>The records of a block: its leaves, under their positions in the array of the tree.\<close>

definition block_records :: "nat \<Rightarrow> hash_t list \<Rightarrow> 'b tree" where
  "block_records a b = zip (map INum [a..<a + length b]) (map IHash b)"

lemma block_records_Cons: "block_records a (h # b) = (INum a, IHash h) # block_records (Suc a) b"
  by (simp add: block_records_def upt_conv_Cons del: upt_Suc)

lemma mt_run_hist:
  assumes k: "1 \<le> k" "k \<le> 31" and m: "mt_run sha3 (2 ^ k) 1 hs = Inr m"
  shows "hist_rel sha3 k m hs"
proof -
  have "(2 :: nat) ^ k \<le> 2 ^ 31" using k(2) by (intro power_increasing) auto
  then have "(1 + 2) * 2 ^ k < SIZE_MOD" by (simp add: SIZE_MOD_def)
  then show ?thesis using mt_run_rel [OF k zero_less_one, of sha3 hs] m by auto
qed

lemma commit_ok:
  assumes L: "lmdb_ok bsize L" and st: "store_ok txs_names (ts_trees s) (ts_append_tx s) e"
    and k: "1 \<le> k" "k \<le> 31" and m: "mt_run sha3 (2 ^ k) 1 hs = Inr (ts_merkle s)"
  shows "\<exists>r e'. txs_commit L (e, s) = (r, (e', s)) \<and> step_on (ts_append_tx s) {''merkle_tree''} e e'
    \<and> (r = Inl (InternalError FATAL) \<or> r = Inr ()
       \<and> ttree e' s ''merkle_tree'' = block_records (2 ^ k - 1) (last (blk_of (hash_pair sha3) (2 ^ k) hs)))"
proof -
  let ?n = "''merkle_tree''" and ?b = "last (blk_of (hash_pair sha3) (2 ^ k) hs)" and ?m = "ts_merkle s"
  obtain d c where h: "map_of (ts_trees s) ?n = Some (d, c)" "txs_tree ?n (e, s) = (Inr (d, c), (e, s))"
    using txs_handle [OF st txs_names_mem(2)] by blast
  obtain rc e1 where g: "mdb_drop L (ts_append_tx s) d e = (rc, e1)" by (metis prod.exhaust)
  have drop: "step_on (ts_append_tx s) {?n} e e1" "rc = EINVAL \<or> rc = MDB_SUCCESS \<and> ttree e1 s ?n = []"
    using store_drop [OF L st txs_names_mem(2) h(1) g] by (auto simp: ttree_def)
  obtain tree where tree: "mt_last_block ?m = Inr tree" "mt_last_block_end ?m \<le> length tree"
    "mt_last_block_begin ?m = 2 ^ k - 1"
    "map (\<lambda>i. tree ! i) [mt_last_block_begin ?m ..< mt_last_block_end ?m] = ?b"
    using merkle_leaves [OF mt_run_hist [OF k m]] by blast
  let ?ix = "[mt_last_block_begin ?m ..< mt_last_block_end ?m]"
  have run: "txs_commit L (e, s) = (if rc = EINVAL then (Inl (InternalError FATAL), (e1, s))
      else commit_loop L tree ?ix (e1, s))"
    by (simp add: txs_commit_def bindS_def h(2) g critical_def result_simps liftR_def tree(1))
  show ?thesis
  proof (cases "rc = EINVAL")
    case True
    then show ?thesis using run drop(1) by auto
  next
    case False
    have t1: "ttree e1 s ?n = []" using drop(2) False by blast
    have recs: "map (\<lambda>i. (INum i, IHash (tree ! i))) ?ix = block_records (2 ^ k - 1) ?b"
    proof -
      have "length ?b = mt_last_block_end ?m - mt_last_block_begin ?m" by (simp flip: tree(4))
      then have "?ix = [2 ^ k - 1..<2 ^ k - 1 + length ?b]"
        by (cases "mt_last_block_begin ?m \<le> mt_last_block_end ?m") (simp_all add: tree(3))
      moreover have "map (\<lambda>i. (INum i, IHash (tree ! i))) xs
          = zip (map INum xs) (map IHash (map (\<lambda>i. tree ! i) xs))" for xs
        by (induction xs) simp_all
      ultimately show ?thesis unfolding block_records_def using tree(4) by metis
    qed
    show ?thesis
    proof (cases "mt_last_block_begin ?m \<le> mt_last_block_end ?m")
      case True
      then obtain r e2 where "commit_loop L tree ?ix (e1, s) = (r, (e2, s))"
        "step_on (ts_append_tx s) {?n} e1 e2" "r = Inl (InternalError FATAL) \<or> r = Inr ()
           \<and> ttree e2 s ?n = ttree e1 s ?n @ map (\<lambda>i. (INum i, IHash (tree ! i))) ?ix"
        using commit_loop_ok [OF L store_ok_step [OF st drop(1)] True tree(2)] t1 by (auto simp: tkeys_def)
      then show ?thesis using run False t1 recs step_on_trans [OF drop(1)] by auto
    next
      case le: False
      then have ix: "?ix = []" by simp
      have "length ?b = 0" using arg_cong [OF recs, of length] unfolding ix by (simp add: block_records_def)
      moreover have "commit_loop L tree ?ix (e1, s) = (Inr (), (e1, s))" unfolding ix by (simp add: result_simps)
      ultimately show ?thesis using run False t1 drop(1) by (auto simp: block_records_def)
    qed
  qed
qed

section \<open>Reload\<close>

lemma pair_up_all:
  "(\<forall>a b. P a \<longrightarrow> P b \<longrightarrow> P (h a b)) \<Longrightarrow> \<forall>x \<in> set xs. P x \<Longrightarrow> \<forall>x \<in> set (pair_up h xs). P x"
  by (induction h xs rule: pair_up.induct) auto

lemma merkle_root_all:
  "(\<forall>a b. P a \<longrightarrow> P b \<longrightarrow> P (h a b)) \<Longrightarrow> xs \<noteq> [] \<Longrightarrow> \<forall>x \<in> set xs. P x \<Longrightarrow> P (merkle_root_of h xs)"
proof (induction h xs rule: merkle_root_of.induct)
  case (1 h xs)
  show ?case
  proof (cases "length xs \<le> 1")
    case True
    then show ?thesis using 1(3,4) by (simp add: merkle_root_of.simps)
  next
    case False
    then have "length (pair_up h xs) \<noteq> 0" unfolding length_pair_up by simp
    then have "pair_up h xs \<noteq> []" by fastforce
    then show ?thesis using 1(1) [OF False 1(2)] pair_up_all [OF 1(2,4)] False
      by (simp add: merkle_root_of.simps [of h xs])
  qed
qed

lemma blk_of_all:
  assumes h: "\<forall>a b. P a \<longrightarrow> P b \<longrightarrow> P (h a b)" and l: "2 \<le> l"
  shows "\<forall>x \<in> set xs. P x \<Longrightarrow> \<forall>x \<in> set (last (blk_of h l xs)). P x"
proof (induction xs rule: rev_induct)
  case (snoc x xs)
  then have "\<forall>y \<in> set (last (blk_of h l xs) @ [x]). P y" by auto
  then show ?case using merkle_root_all [OF h, of "last (blk_of h l xs) @ [x]"]
    by (auto simp: blk_of_snoc blk_push_def Let_def)
qed simp

lemma reload_loop_ok:
  assumes k: "1 \<le> k" "k \<le> 31"
  shows "length (hs @ b) < 2 ^ k \<Longrightarrow> \<forall>h \<in> set b. length h = HASH_LEN \<Longrightarrow>
    mt_run sha3 (2 ^ k) 1 hs = Inr (ts_merkle s) \<Longrightarrow>
    \<exists>m. reload_loop sha3 (block_records (2 ^ k - 1 + length hs) b) (e, s) = (Inr (), (e, s\<lparr>ts_merkle := m\<rparr>))
      \<and> mt_run sha3 (2 ^ k) 1 (hs @ b) = Inr m"
proof (induction b arbitrary: hs s)
  case (Cons h b)
  obtain m where m: "mt_push sha3 h (ts_merkle s) = Inr m" "mt_run sha3 (2 ^ k) 1 (hs @ [h]) = Inr m"
    using merkle_root_push [OF k Cons.prems(3)] by blast
  let ?s = "s\<lparr>ts_merkle := m\<rparr>"
  have "blk_of (hash_pair sha3) (2 ^ k) (hs @ [h]) = [hs @ [h]]"
    using Cons.prems(1) by (intro blk_short) simp
  then obtain tree where t: "mt_last_block_begin m = 2 ^ k - 1"
    "map (\<lambda>i. tree ! i) [mt_last_block_begin m ..< mt_last_block_end m] = hs @ [h]"
    using merkle_leaves [OF mt_run_hist [OF k m(2)]] by auto
  from arg_cong [OF t(2), of length] have "mt_last_block_end m = 2 ^ k - 1 + Suc (length hs)"
    using t(1) by simp
  moreover have "2 ^ k - 1 + Suc (length hs) < SIZE_MOD"
  proof -
    have "(2 :: nat) ^ k \<le> 2 ^ 31" using k(2) by (intro power_increasing) auto
    then show ?thesis using Cons.prems(1) by (simp add: SIZE_MOD_def)
  qed
  ultimately have last: "sz_sub (mt_last_block_end m) 1 = 2 ^ k - 1 + length hs"
    using sz_sub_eq [of 1 "2 ^ k - 1 + Suc (length hs)"] by (simp add: Suc_le_eq)
  obtain m' where m': "reload_loop sha3 (block_records (2 ^ k - 1 + length (hs @ [h])) b) (e, ?s)
      = (Inr (), (e, ?s\<lparr>ts_merkle := m'\<rparr>))" "mt_run sha3 (2 ^ k) 1 ((hs @ [h]) @ b) = Inr m'"
    using Cons.IH [of "hs @ [h]" ?s] Cons.prems m(2) by auto
  have "reload_loop sha3 ((INum (2 ^ k - 1 + length hs), IHash h) # rs) (e, s) = reload_loop sha3 rs (e, ?s)" for rs
    using Cons.prems(2) m(1) last
    by (simp add: bindS_def result_simps merkle_push_def liftR_def modify_txs_def)
  then show ?case using m' unfolding block_records_Cons by simp
qed (simp add: block_records_def result_simps)

lemma init_merkle_tree_ok:
  assumes L: "lmdb_ok bsize L" and st: "store_ok txs_names (ts_trees s) (ts_append_tx s) e"
    and k: "1 \<le> k" "k \<le> 31" and m: "mt_new (2 ^ k) 1 = Inr (ts_merkle s)"
    and t: "ttree e s ''merkle_tree'' = block_records (2 ^ k - 1) b"
    and b: "length b < 2 ^ k" "\<forall>h \<in> set b. length h = HASH_LEN"
  shows "\<exists>r e' s'. init_merkle_tree sha3 L (e, s) = (r, (e', s')) \<and> step_on (ts_append_tx s) {} e e'
    \<and> (r = Inl (InternalError FATAL) \<and> s' = s
       \<or> r = Inr () \<and> s' = s\<lparr>ts_merkle := ts_merkle s'\<rparr> \<and> mt_run sha3 (2 ^ k) 1 b = Inr (ts_merkle s'))"
proof -
  let ?n = "''merkle_tree''"
  obtain d c where h: "map_of (ts_trees s) ?n = Some (d, c)" "txs_tree ?n (e, s) = (Inr (d, c), (e, s))"
    using txs_handle [OF st txs_names_mem(2)] by blast
  obtain r e1 where r: "read_all_records L c (e, s) = (r, (e1, s))" "step_on (ts_append_tx s) {} e e1"
    "r = Inl (InternalError FATAL) \<or> r = Inr (ttree e s ?n)"
    using read_all_ok [OF L store_reads [OF st txs_names_mem(2) h(1)], of s] unfolding ttree_def by blast
  have m0: "mt_run sha3 (2 ^ k) 1 [] = Inr (ts_merkle s)" using m by (simp add: mt_run_def)
  obtain m' where m': "reload_loop sha3 (block_records (2 ^ k - 1) b) (e1, s) = (Inr (), (e1, s\<lparr>ts_merkle := m'\<rparr>))"
    "mt_run sha3 (2 ^ k) 1 b = Inr m'"
    using reload_loop_ok [OF k, of "[]" b sha3 s e1] b m0 by auto
  have run: "init_merkle_tree sha3 L (e, s) = (case r of Inl err \<Rightarrow> (Inl err, (e1, s))
      | Inr recs \<Rightarrow> reload_loop sha3 recs (e1, s))"
    by (simp add: init_merkle_tree_def bindS_def h(2) r(1) split: sum.splits)
  from r(3) show ?thesis
  proof
    assume "r = Inl (InternalError FATAL)"
    then show ?thesis using run r(2) by auto
  next
    assume "r = Inr (ttree e s ?n)"
    then have "init_merkle_tree sha3 L (e, s) = (Inr (), (e1, s\<lparr>ts_merkle := m'\<rparr>))"
      using run m'(1) t by simp
    then show ?thesis using r(2) m'(2) by (intro exI conjI) (assumption | simp)+
  qed
qed

text \<open>A tree rebuilt from the last block goes on like the tree it was saved from.\<close>

lemma last_block_resume:
  assumes k: "1 \<le> k" "k \<le> 31"
    and p: "mt_run sha3 (2 ^ k) 1 (last (blk_of (hash_pair sha3) (2 ^ k) hs)) = Inr p"
    and q: "mt_run sha3 (2 ^ k) 1 hs = Inr q"
  shows "\<exists>p' q'. foldR (mt_push sha3) zs p = Inr p' \<and> foldR (mt_push sha3) zs q = Inr q'
    \<and> (hs @ zs \<noteq> [] \<longrightarrow> mt_root p' = mt_root q')"
proof -
  let ?h = "hash_pair sha3" and ?b = "last (blk_of (hash_pair sha3) (2 ^ k) hs)"
  have l: "2 \<le> (2 :: nat) ^ k" using k(1) by (cases k) auto
  obtain p' where p': "foldR (mt_push sha3) zs p = Inr p'" "hist_rel sha3 k p' (?b @ zs)"
    using hist_rel_push_all [OF mt_run_hist [OF k p]] by blast
  obtain q' where q': "foldR (mt_push sha3) zs q = Inr q'" "hist_rel sha3 k q' (hs @ zs)"
    using hist_rel_push_all [OF mt_run_hist [OF k q]] by blast
  have "mt_root p' = mt_root q'" if ne: "hs @ zs \<noteq> []"
  proof -
    have "?b \<noteq> []" if "hs \<noteq> []" using blk_last [OF l, of ?h hs] that by auto
    then have b: "?b @ zs \<noteq> []" using ne by (cases "hs = []") simp_all
    have "last (blk_of ?h (2 ^ k) (hs @ zs)) = last (blk_of ?h (2 ^ k) (?b @ zs))"
      unfolding blk_resume [OF l, of ?h hs zs] by simp
    then show ?thesis using hist_rel_root [OF p'(2) b] hist_rel_root [OF q'(2) ne] by simp
  qed
  then show ?thesis using p'(1) q'(1) by blast
qed

end
