(* ===== verification/Tx_Store_Queries.thy ===== *)
theory Tx_Store_Queries
  imports Tx_Store_Refinement Query_Sessions
begin

text \<open>
  The queries of the transaction store: they end, and what they return.
\<close>

section \<open>The loop over the transactions of a key\<close>

text \<open>Each round reads the first transaction of the log, through a cursor of its own.\<close>

lemma read_first_tx:
  assumes L: "lmdb_ok bsize L" and rd: "reads e tx ''tx_store'' tc"
    and g: "mdb_cursor_get L tc MDB_FIRST k v e = (rc, k', v', e')"
  shows "step_on tx {} e e'" and "c \<noteq> tc \<Longrightarrow> env_cursors e' c = env_cursors e c"
    and "rc \<in> {EINVAL, MDB_NOTFOUND, MDB_SUCCESS}"
    and "rc = MDB_SUCCESS \<Longrightarrow> store_tree e tx ''tx_store'' \<noteq> []
      \<Longrightarrow> v' = snd (hd (store_tree e tx ''tx_store''))"
  using cursor_seek [OF L rd g]
  by (auto simp: get_target_def hd_conv_nth split: if_splits) (metis snd_conv)

text \<open>
  One round, at record \<open>i\<close> of the index: the first transaction of the log is added to the result,
  and the loop fails, ends because the key has no more records, or goes on with the next one.
\<close>

lemma tx_loop_round:
  assumes L: "lmdb_ok bsize L" and n: "n \<noteq> ''tx_store''"
    and rd: "reads e tx n c" "reads e tx ''tx_store'' tc" and ne: "store_tree e tx ''tx_store'' \<noteq> []"
    and i: "at_record e tx n c i" "(k, v) = store_tree e tx n ! i"
  defines "t \<equiv> store_tree e tx n" and "x \<equiv> snd (hd (store_tree e tx ''tx_store''))"
  shows "\<exists>e'. step_on tx {} e e'
    \<and> (tx_loop L c tc k v ret e = Some (Inl (InternalError FATAL), e')
       \<or> tx_loop L c tc k v ret e = Some (Inr (ret @ [x]), e')
         \<and> \<not> (Suc i < length t \<and> fst (t ! Suc i) = k)
       \<or> (\<exists>v'. tx_loop L c tc k v ret e = tx_loop L c tc k v' (ret @ [x]) e'
            \<and> (k, v') = t ! Suc i \<and> at_record e' tx n c (Suc i)))"
proof -
  let ?x = "store_tree e tx ''tx_store''"
  obtain rc0 xk xv e0 where g0: "mdb_cursor_get L tc MDB_FIRST v v e = (rc0, xk, xv, e0)"
    by (metis prod_cases4)
  note s0 = read_first_tx [OF L rd(2) g0, folded x_def]
  have t0: "store_tree e0 tx n = t"
    using step_on_tree [OF s0(1)] by (simp add: t_def)
  have "c \<noteq> tc" using rd n by (auto simp: reads_def)
  then have at0: "at_record e0 tx n c i"
    using i(1) s0(2) t0 by (simp add: at_record_def t_def)
  obtain rc k' v' e1 where g: "mdb_cursor_get L c MDB_NEXT_DUP k v e0 = (rc, k', v', e1)"
    by (metis prod_cases4)
  have ki: "fst (t ! i) = k" using i(2) by (metis fst_conv t_def)
  have sn: "step_on tx {} e0 e1"
    "rc = EINVAL \<or> rc = MDB_NOTFOUND \<and> \<not> (Suc i < length t \<and> fst (t ! Suc i) = k)
      \<or> rc = MDB_SUCCESS \<and> fst (t ! Suc i) = k \<and> (k', v') = t ! Suc i \<and> at_record e1 tx n c (Suc i)"
    using cursor_next [OF L reads_step [OF rd(1) s0(1)] g _ at0] t0 ki
    by auto
  have s1: "step_on tx {} e e1" by (rule step_on_trans [OF s0(1) sn(1)])
  consider "rc0 \<noteq> MDB_SUCCESS" | "rc0 = MDB_SUCCESS" "rc = EINVAL"
    | "rc0 = MDB_SUCCESS" "rc = MDB_NOTFOUND" "\<not> (Suc i < length t \<and> fst (t ! Suc i) = k)"
    | "rc0 = MDB_SUCCESS" "rc = MDB_SUCCESS" "k' = k" "(k', v') = t ! Suc i" "at_record e1 tx n c (Suc i)"
    using sn(2) by (metis fst_conv)
  then show ?thesis
  proof cases
    case 1
    then have "tx_loop L c tc k v ret e = Some (Inl (InternalError FATAL), e0)"
      using s0(3) by (subst tx_loop.simps) (auto simp: g0)
    then show ?thesis using s0(1) by blast
  next
    case 2
    then have "tx_loop L c tc k v ret e = Some (Inl (InternalError FATAL), e1)"
      by (subst tx_loop.simps) (simp add: g0 g)
    then show ?thesis using s1 by blast
  next
    case 3
    then have "tx_loop L c tc k v ret e = Some (Inr (ret @ [x]), e1)"
      by (subst tx_loop.simps) (simp add: g0 g s0(4) [OF _ ne])
    then show ?thesis using s1 3(3) by blast
  next
    case 4
    then have "tx_loop L c tc k v ret e = tx_loop L c tc k v' (ret @ [x]) e1"
      by (subst tx_loop.simps) (simp add: g0 g s0(4) [OF _ ne])
    then show ?thesis using s1 4(3-5) by blast
  qed
qed

lemma tx_loop_ok:
  assumes L: "lmdb_ok bsize L" and n: "n \<noteq> ''tx_store''"
  shows "reads e tx n c \<Longrightarrow> reads e tx ''tx_store'' tc \<Longrightarrow> store_tree e tx ''tx_store'' \<noteq> [] \<Longrightarrow>
    at_record e tx n c i \<Longrightarrow> (k, v) = store_tree e tx n ! i \<Longrightarrow>
    \<exists>r e'. tx_loop L c tc k v ret e = Some (r, e') \<and> step_on tx {} e e'
      \<and> (r = Inl (InternalError FATAL)
        \<or> r = Inr (ret @ replicate (length (takeWhile (\<lambda>r. fst r = k) (drop i (store_tree e tx n))))
                           (snd (hd (store_tree e tx ''tx_store'')))))"
proof (induction "length (store_tree e tx n) - i" arbitrary: i e k v ret)
  case 0
  then show ?case by (simp add: at_record_def)
next
  case (Suc m)
  let ?t = "store_tree e tx n" and ?x = "snd (hd (store_tree e tx ''tx_store''))"
  have il: "i < length ?t" using Suc.prems(4) by (simp add: at_record_def)
  then have dr: "drop i ?t = (k, v) # drop (Suc i) ?t"
    using Suc.prems(5) by (simp add: Cons_nth_drop_Suc)
  obtain e' where s: "step_on tx {} e e'" and round: "tx_loop L c tc k v ret e = Some (Inl (InternalError FATAL), e')
       \<or> tx_loop L c tc k v ret e = Some (Inr (ret @ [?x]), e')
         \<and> \<not> (Suc i < length ?t \<and> fst (?t ! Suc i) = k)
       \<or> (\<exists>v'. tx_loop L c tc k v ret e = tx_loop L c tc k v' (ret @ [?x]) e'
            \<and> (k, v') = ?t ! Suc i \<and> at_record e' tx n c (Suc i))"
    using tx_loop_round [OF L n Suc.prems] by blast
  have t: "store_tree e' tx n = ?t" "store_tree e' tx ''tx_store'' = store_tree e tx ''tx_store''"
    using step_on_tree [OF s] by simp_all
  from round show ?case
  proof (elim disjE exE conjE)
    assume "tx_loop L c tc k v ret e = Some (Inl (InternalError FATAL), e')"
    then show ?thesis using s by blast
  next
    assume r: "tx_loop L c tc k v ret e = Some (Inr (ret @ [?x]), e')"
      and last: "\<not> (Suc i < length ?t \<and> fst (?t ! Suc i) = k)"
    have "takeWhile (\<lambda>r. fst r = k) (drop (Suc i) ?t) = []"
      using last by (cases "Suc i < length ?t") (simp_all add: Cons_nth_drop_Suc [symmetric])
    then show ?thesis using r s by (simp add: dr)
  next
    fix v'
    assume r: "tx_loop L c tc k v ret e = tx_loop L c tc k v' (ret @ [?x]) e'"
      and nxt: "(k, v') = ?t ! Suc i" "at_record e' tx n c (Suc i)"
    have m: "m = length (store_tree e' tx n) - Suc i" using Suc.hyps(2) t by simp
    obtain q e2 where q: "tx_loop L c tc k v' (ret @ [?x]) e' = Some (q, e2)" "step_on tx {} e' e2"
      "q = Inl (InternalError FATAL) \<or> q = Inr ((ret @ [?x]) @
         replicate (length (takeWhile (\<lambda>r. fst r = k) (drop (Suc i) ?t))) ?x)"
      using Suc.hyps(1) [OF m reads_step [OF Suc.prems(1) s] reads_step [OF Suc.prems(2) s], of k v' "ret @ [?x]"]
        nxt t Suc.prems(3)
      by auto
    then show ?thesis using r step_on_trans [OF s q(2)] by (simp add: dr)
  qed
qed

section \<open>The query\<close>

text \<open>A session that has a second cursor, on the transactions.\<close>

definition session2 :: "nat \<Rightarrow> bool \<Rightarrow> ('b, 'x) env \<Rightarrow> ('b, 'x) env \<Rightarrow> string \<Rightarrow> nat \<Rightarrow> nat \<Rightarrow> nat \<Rightarrow> bool" where
  "session2 tx0 u e e' n c tx tc \<longleftrightarrow>
     env_committed e' = env_committed e \<and> env_dbis e' = env_dbis e \<and> env_cmp e' = env_cmp e
     \<and> (if u then unchanged e e' \<and> reads e tx0 n c \<and> reads e tx0 ''tx_store'' tc
        else env_txns e tx = None \<and> cursor_home e c = None \<and> cursor_home e tc = None \<and> c \<noteq> tc
          \<and> env_committed e n \<noteq> None \<and> env_committed e ''tx_store'' \<noteq> None
          \<and> env_txns e' = (env_txns e)(tx \<mapsto> \<lparr>txn_rdonly = True, txn_dbs = env_committed e\<rparr>)
          \<and> cursor_home e' = (cursor_home e)(c \<mapsto> (tx, n), tc \<mapsto> (tx, ''tx_store'')))"

lemma session2_reads:
  assumes "session2 tx0 u e e' n c tx tc"
  shows "reads e' (session_txn tx0 u tx) n c" "reads e' (session_txn tx0 u tx) ''tx_store'' tc"
    "store_tree e' (session_txn tx0 u tx) m = query_tree e tx0 u m"
  using assms reads_step [of e tx0 _ _ "{}" e'] unchanged_step [of e e' tx0] step_on_tree [of tx0 "{}" e e' m]
  by (auto simp: session2_def reads_def txn_db_def query_tree_def store_tree_def dbs_tree_def
      split: if_splits option.splits)

lemma session2_step:
  assumes "session2 tx0 u e e' n c tx tc" and "step_on tx' {} e' e2"
  shows "session2 tx0 u e e2 n c tx tc" "extends e e2" "u \<Longrightarrow> unchanged e e2"
  using assms(1) step_unchanged [OF assms(2)]
  by (auto simp: session2_def unchanged_def frame_def extends_def split: if_splits)

text \<open>The second cursor, and the end of the session.\<close>

definition open_second :: "('b, 'x) lmdb \<Rightarrow> bool \<Rightarrow> nat \<Rightarrow> nat \<times> nat \<Rightarrow> ('b, 'x, 's, nat) store_op" where
  "open_second L u tx th = (if u then returnS (snd th)
     else (\<lambda>(e, s). case mdb_cursor_open L tx (fst th) e of (res, tc, e1) \<Rightarrow>
            bindS (critical res [EINVAL]) (\<lambda>_. returnS tc) (e1, s)))"

lemma open_second_session:
  assumes L: "lmdb_ok bsize L" and s1: "session tx0 u e e1 n c tx" and th: "openable e tx0 u ''tx_store'' th"
    and o: "open_second L u tx th (e1, s) = (q, (e2, s'))"
  shows "s' = s \<and> (q = Inl (InternalError FATAL) \<and> extends e e2 \<and> \<not> u
    \<or> (\<exists>tc. q = Inr tc \<and> session2 tx0 u e e2 n c tx tc
         \<and> (\<forall>c'. c' \<noteq> tc \<longrightarrow> env_cursors e2 c' = env_cursors e1 c')))"
proof (cases u)
  case True
  then show ?thesis using o s1 th
    by (auto simp: open_second_def result_simps session2_def session_def openable_def)
next
  case False
  obtain rc tc e3 where co: "mdb_cursor_open L tx (fst th) e1 = (rc, tc, e3)" by (metis prod_cases3)
  obtain d where d: "env_dbis e1 (fst th) = Some ''tx_store''" "txn_db e1 tx ''tx_store'' = Some d"
    using s1 th False by (auto simp: session_def openable_def txn_db_def)
  have "cursor_open_spec L" using L by (simp add: lmdb_ok_def)
  from this [unfolded cursor_open_spec_def, rule_format, of e1 "fst th" "''tx_store''" tx d rc tc e3]
  have os: "env_committed e3 = env_committed e1 \<and> env_dbis e3 = env_dbis e1 \<and> env_cmp e3 = env_cmp e1
      \<and> env_txns e3 = env_txns e1 \<and> rc \<in> {MDB_SUCCESS, EINVAL}
      \<and> (if rc = MDB_SUCCESS then env_cursors e1 tc = None
           \<and> env_cursors e3 = (env_cursors e1)(tc \<mapsto> \<lparr>cu_txn = tx, cu_db = ''tx_store'', cu_pos = None\<rparr>)
         else env_cursors e3 = env_cursors e1)" using d co by blast
  have run: "(q, (e2, s')) = (if rc = MDB_SUCCESS then (Inr tc, (e3, s)) else (Inl (InternalError FATAL), (e3, s)))"
    using o False os by (auto simp: open_second_def co bindS_def critical_def result_simps)
  show ?thesis
  proof (cases "rc = MDB_SUCCESS")
    case True
    then have n: "cursor_home e1 tc = None"
      "cursor_home e3 = (cursor_home e1)(tc \<mapsto> (tx, ''tx_store''))"
      using os by (auto simp: cursor_home_def)
    then have "c \<noteq> tc" "cursor_home e tc = None"
      using s1 False by (auto simp: session_def split: if_splits)
    then have "session2 tx0 u e e3 n c tx tc"
      using s1 False os n th by (auto simp: session_def session2_def openable_def)
    then show ?thesis using run True os by auto
  next
    case no: False
    have "cursor_home e3 = cursor_home e1" using os no by (auto simp: cursor_home_def)
    then have "extends e e3" using session_extends [OF s1] os by (simp add: extends_def)
    then show ?thesis using run no False by auto
  qed
qed

lemma session2_end:
  assumes L: "lmdb_ok bsize L" and s: "session2 tx0 False e e' n c tx tc"
  shows "unchanged e (mdb_txn_abort L tx (mdb_cursor_close L tc (mdb_cursor_close L c e')))"
  using s by (intro abort_reader [OF L]) (auto simp: session2_def cursor_close_data [OF L] fun_eq_iff)

text \<open>What follows once the key was found.\<close>

definition tx_scan :: "('b, 'x) lmdb \<Rightarrow> bool \<Rightarrow> nat \<Rightarrow> nat \<Rightarrow> nat \<times> nat \<Rightarrow> 'b item \<Rightarrow> 'b item \<Rightarrow>
    ('b, 'x, 's, 'b item list) store_op" where
  "tx_scan L u c tx th k v =
     bindS (open_second L u tx th) (\<lambda>tc.
     bindS (loopS (tx_loop L c tc k v [])) (\<lambda>ret.
     bindS (whenS (\<not> u) (envS (\<lambda>e. mdb_txn_abort L tx (mdb_cursor_close L tc (mdb_cursor_close L c e)))))
       (\<lambda>_. returnS ret)))"

lemma getTxByKey_eq:
  "getTxByKey L n pk u has_env =
     bindS (txs_tree n) (\<lambda>h. bindS (query_cursor L u has_env h) (\<lambda>(c, tx).
     bindS (cursor_get L c MDB_SET (IStr pk) (IStr [])) (\<lambda>(res, k, v).
     if res = MDB_NOTFOUND then returnS []
     else bindS (critical res [EINVAL]) (\<lambda>_. bindS (txs_tree ''tx_store'') (\<lambda>th.
          tx_scan L u c tx th k v)))))"
  unfolding getTxByKey_def tx_scan_def open_second_def by (rule refl)

lemma tx_scan_ok:
  assumes L: "lmdb_ok bsize L" and s: "session tx0 u e e1 n c tx" and th: "openable e tx0 u ''tx_store'' th"
    and n: "n \<noteq> ''tx_store''" and ne: "query_tree e tx0 u ''tx_store'' \<noteq> []"
    and i: "at_record e1 (session_txn tx0 u tx) n c i" "(k, v) = query_tree e tx0 u n ! i"
    and r: "tx_scan L u c tx th k v (e1, s) = (r, (e', s'))"
  defines "t \<equiv> query_tree e tx0 u n" and "x \<equiv> snd (hd (query_tree e tx0 u ''tx_store''))"
  shows "s' = s \<and> (r = Inl (InternalError FATAL) \<and> extends e e' \<and> (u \<longrightarrow> unchanged e e')
    \<or> r = Inr (replicate (length (takeWhile (\<lambda>r. fst r = k) (drop i t))) x) \<and> unchanged e e')"
proof -
  let ?tx = "session_txn tx0 u tx"
  obtain p e2 s2 where p: "open_second L u tx th (e1, s) = (p, (e2, s2))" by (metis prod.exhaust)
  from open_second_session [OF L s th p]
  consider "p = Inl (InternalError FATAL)" "s2 = s" "extends e e2" "\<not> u"
    | tc where "p = Inr tc" "s2 = s" "session2 tx0 u e e2 n c tx tc"
        "\<forall>c'. c' \<noteq> tc \<longrightarrow> env_cursors e2 c' = env_cursors e1 c'" by blast
  then show ?thesis
  proof cases
    case 1
    have "(r, (e', s')) = (Inl (InternalError FATAL), (e2, s))"
      using r by (simp add: tx_scan_def bindS_def p 1(1,2))
    then show ?thesis using 1(3,4) by simp
  next
    case 2
    note rd = session2_reads [OF 2(3)]
    have "c \<noteq> tc" using rd(1,2) n by (auto simp: reads_def)
    then have at: "at_record e2 ?tx n c i"
      using i(1) 2(4) rd(3) [of n] session_reads(2) [OF s] by (simp add: at_record_def)
    obtain r' e3 where l: "tx_loop L c tc k v [] e2 = Some (r', e3)" "step_on ?tx {} e2 e3"
      "r' = Inl (InternalError FATAL) \<or> r' = Inr (replicate (length (takeWhile (\<lambda>r. fst r = k) (drop i t))) x)"
      using tx_loop_ok [OF L n rd(1,2) _ at, of k v "[]"] i(2) ne
      unfolding rd(3) t_def [symmetric] x_def [symmetric] by auto
    note s3 = session2_step [OF 2(3) l(2)]
    show ?thesis
    proof (cases r')
      case (Inl err)
      then show ?thesis using r 2(1,2) l(1,3) s3(2,3) by (auto simp: tx_scan_def p bindS_def loopS_def)
    next
      case (Inr ret)
      show ?thesis
      proof (cases u)
        case True
        then show ?thesis using r 2(1,2) l(1,3) s3(3) Inr p
          by (auto simp: tx_scan_def bindS_def loopS_def whenS_def result_simps)
      next
        case False
        then show ?thesis using r 2(1,2) l(1,3) Inr p session2_end [OF L, of tx0 e e3 n c tx tc] s3(1)
          by (auto simp: tx_scan_def bindS_def loopS_def whenS_def envS_def result_simps)
      qed
    qed
  qed
qed

lemma get_tx_session:
  assumes L: "lmdb_ok bsize L" and h: "openable e tx0 u n h" "openable e tx0 u ''tx_store'' th"
    and env: "u \<or> has_env" and n: "n \<noteq> ''tx_store''"
    and tr: "map_of (ts_trees s) n = Some h" "map_of (ts_trees s) ''tx_store'' = Some th"
    and ne: "query_tree e tx0 u ''tx_store'' \<noteq> []" and gr: "grouped (query_tree e tx0 u n)"
    and key: "key_size_ok bsize (IStr pk)"
    and r: "getTxByKey L n pk u has_env (e, s) = (r, (e', s'))"
  defines "t \<equiv> query_tree e tx0 u n" and "x \<equiv> snd (hd (query_tree e tx0 u ''tx_store''))"
  shows "s' = s \<and> (r = Inl (InternalError FATAL) \<and> extends e e' \<and> (u \<longrightarrow> unchanged e e')
    \<or> r = Inr (replicate (length (tget t (IStr pk))) x)
      \<and> (if tget t (IStr pk) = [] then \<exists>c tx. session tx0 u e e' n c tx else unchanged e e'))"
proof -
  obtain q e1 s1 where q: "query_cursor L u has_env h (e, s) = (q, (e1, s1))" by (metis prod.exhaust)
  from query_cursor_session [OF L h(1) env q]
  consider "q = Inl (InternalError FATAL)" "s1 = s" "extends e e1" "\<not> u"
    | c tx where "q = Inr (c, tx)" "s1 = s" "session tx0 u e e1 n c tx" by blast
  then show ?thesis
  proof cases
    case 1
    have "(r, (e', s')) = (Inl (InternalError FATAL), (e1, s))"
      using r by (simp add: getTxByKey_eq bindS_def result_simps txs_tree_at [OF tr(1)] q 1(1,2))
    then show ?thesis using 1(3,4) by simp
  next
    case s1: 2
    obtain rc k v e2 where g: "mdb_cursor_get L c MDB_SET (IStr pk) (IStr []) e1 = (rc, k, v, e2)"
      by (metis prod_cases4)
    have run: "(r, (e', s')) = (if rc = MDB_NOTFOUND then (Inr [], (e2, s))
        else if rc = EINVAL then (Inl (InternalError FATAL), (e2, s)) else tx_scan L u c tx th k v (e2, s))"
      using r by (cases "rc = MDB_NOTFOUND"; cases "rc = EINVAL")
        (simp_all add: getTxByKey_eq bindS_def result_simps txs_tree_at [OF tr(1)] txs_tree_at [OF tr(2)]
          q s1(1,2) cursor_get_def g critical_def)
    show ?thesis
    proof (cases rule: session_seek_key [OF L s1(3) g key, folded t_def])
      case 1
      then show ?thesis using run by auto
    next
      case 2
      then show ?thesis using run by auto
    next
      case (3 i)
      have len: "length (tget t (IStr pk)) = length (takeWhile (\<lambda>r. fst r = k) (drop i t))"
        using grouped_tget [OF gr [folded t_def] 3(4)] 3(3) by simp
      have kv: "(k, v) = query_tree e tx0 u n ! i" using 3(3,6) by (simp add: t_def)
      have "tx_scan L u c tx th k v (e2, s) = (r, (e', s'))" using run 3(2) by simp
      from tx_scan_ok [OF L 3(1) h(2) n ne 3(7) kv this, folded t_def x_def]
      show ?thesis using 3(5) by (auto simp: len)
    qed
  qed
qed

text \<open>In the append transaction.\<close>

lemma get_tx_by_key:
  assumes L: "lmdb_ok bsize L" and ok: "txs_ok e s" and ne: "ttree e s ''tx_store'' \<noteq> []"
    and n: "n \<in> set index_names" and gr: "grouped (ttree e s n)" and key: "key_size_ok bsize (IStr pk)"
  shows "\<exists>r e'. getTxByKey L n pk True has_env (e, s) = (r, (e', s)) \<and> step_on (ts_append_tx s) {} e e'
    \<and> (r = Inl (InternalError FATAL)
      \<or> r = Inr (replicate (length (tget (ttree e s n) (IStr pk))) (snd (hd (ttree e s ''tx_store'')))))"
proof -
  note st = txs_okD(1) [OF ok]
  obtain d c where h: "map_of (ts_trees s) n = Some (d, c)"
    using txs_handle [OF st txs_names_mem(3) [OF n]] by blast
  obtain td tc where th: "map_of (ts_trees s) ''tx_store'' = Some (td, tc)"
    using store_okD [OF st txs_names_mem(1)] by blast
  have o: "openable e (ts_append_tx s) True n (d, c)" "openable e (ts_append_tx s) True ''tx_store'' (td, tc)"
    using store_reads [OF st txs_names_mem(3) [OF n] h] store_reads [OF st txs_names_mem(1) th]
    by (simp_all add: openable_def)
  have t: "query_tree e (ts_append_tx s) True m = ttree e s m" for m by (simp add: query_tree_def ttree_def)
  obtain r e' s' where r: "getTxByKey L n pk True has_env (e, s) = (r, (e', s'))" by (metis prod.exhaust)
  have "n \<noteq> ''tx_store''" using n by (auto simp: index_names_def)
  from get_tx_session [OF L o _ this h th _ _ key r] ne gr r show ?thesis
    unfolding t by (fastforce intro: unchanged_step session_unchanged split: if_splits)
qed

end
