(* ===== verification/Tx_Store_Properties.thy ===== *)
theory Tx_Store_Properties
  imports Tx_Store_Queries Example_State
begin

text \<open>
  The properties of the transaction store, each with a witness on an example log.
\<close>

section \<open>An example log\<close>

definition demo_txs_trees :: "cell tree \<Rightarrow> (string \<Rightarrow> cell tree) \<Rightarrow> (string \<times> bool \<times> cell tree) list" where
  "demo_txs_trees log idx =
     (''tx_store'', False, log) # (''merkle_tree'', False, []) # map (\<lambda>n. (n, True, idx n)) index_names"

definition demo_txs_env :: "cell tree \<Rightarrow> (string \<Rightarrow> cell tree) \<Rightarrow> cell mem" where
  "demo_txs_env log idx = demo_env (demo_txs_trees log idx) (\<lambda>_. eq_cmp)"

definition demo_merkle :: "hash_t list \<Rightarrow> merkle_tree" where
  "demo_merkle hs = projr (mt_run (\<lambda>_. zero_hash) (2 ^ 2) 1 hs)"

definition demo_txs :: "nat \<Rightarrow> hash_t list \<Rightarrow> txstore" where
  "demo_txs n hs = \<lparr>ts_total = n, ts_trees = demo_trees (demo_txs_trees [] (\<lambda>_. [])),
     ts_merkle = demo_merkle hs, ts_append_tx = 0, ts_trees_total = 18\<rparr>"

lemma demo_trees_names:
  assumes "map fst l = map fst l'"
  shows "demo_trees l = demo_trees l'"
proof -
  have "length l = length l'" using map_eq_imp_length_eq [OF assms] .
  moreover have "fst (l ! i) = fst (l' ! i)" if "i < length l" for i
    using arg_cong [OF assms, of "\<lambda>xs. xs ! i"] that calculation by simp
  ultimately show ?thesis by (simp add: demo_trees_def)
qed

lemma distinct_txs_names: "distinct (map fst (demo_txs_trees log idx))"
  by (simp add: demo_txs_trees_def index_names_def)

lemma demo_txs_store_ok:
  "store_ok txs_names (ts_trees (demo_txs n hs)) (ts_append_tx (demo_txs n hs)) (demo_txs_env log idx)"
proof -
  have "demo_trees (demo_txs_trees log idx) = demo_trees (demo_txs_trees [] (\<lambda>_. []))"
    by (rule demo_trees_names) (simp add: demo_txs_trees_def)
  moreover have "map (\<lambda>(n, dup, t). (n, dup)) (demo_txs_trees log idx) = txs_names"
    by (simp add: demo_txs_trees_def txs_names_def)
  ultimately show ?thesis
    using demo_store_ok [OF distinct_txs_names, of log idx "\<lambda>_. eq_cmp"]
    by (simp add: demo_txs_def demo_txs_env_def)
qed

lemma demo_ttree:
  "ttree (demo_txs_env log idx) (demo_txs i hs) ''tx_store'' = log"
  "ttree (demo_txs_env log idx) (demo_txs i hs) ''merkle_tree'' = []"
  "n \<in> set index_names \<Longrightarrow> ttree (demo_txs_env log idx) (demo_txs i hs) n = idx n"
  by (auto simp: ttree_def demo_txs_env_def demo_txs_def demo_store_tree demo_txs_trees_def index_names_def)

lemma demo_txs_ok:
  "map fst log = map INum [1..<Suc n] \<Longrightarrow> txs_ok (demo_txs_env log idx) (demo_txs n hs)"
  by (simp add: txs_ok_def demo_txs_store_ok demo_ttree) (simp add: demo_txs_def)

lemma demo_run: "mt_run (\<lambda>_. zero_hash) (2 ^ 2) 1 hs = Inr (ts_merkle (demo_txs n hs))"
  using mt_run_rel [of 2 1 "\<lambda>_. zero_hash" hs] by (auto simp: demo_txs_def demo_merkle_def SIZE_MOD_def)

text \<open>A log of one transaction, indexed; and a transaction to append.\<close>

definition demo_tx :: "cell command \<Rightarrow> cell" where
  "demo_tx cmd = CTx ''a'' cmd (Some (replicate 32 7))"

definition demo_log :: "cell tree" where
  "demo_log = [(INum 1, IBlob (demo_tx (AccountAdd (CAccount ''1''))))]"

definition demo_ix :: "string \<Rightarrow> cell tree" where
  "demo_ix n = (if n = ''index_account_add'' then [(IStr ''a'', INum 1)] else [])"

lemma demo_tx_simps [simp]:
  "tx_command (fb_transaction cell_fb (demo_tx cmd)) = cmd"
  "tx_creatorPubKey (fb_transaction cell_fb (demo_tx cmd)) = ''a''"
  "tx_hash (fb_transaction cell_fb (demo_tx cmd)) = Some (replicate 32 7)"
  by (simp_all add: demo_tx_def cell_fb_def)

lemma demo_log_ok: "txs_ok (demo_txs_env demo_log idx) (demo_txs 1 hs)"
  by (rule demo_txs_ok) (simp add: demo_log_def)

lemma demo_indices_ok: "indices_ok cell_fb (demo_txs_env demo_log demo_ix) (demo_txs 1 hs)"
proof -
  have "set (demo_ix n) = index_of cell_fb demo_log n" for n
    by (auto simp: index_of_def demo_log_def indexed_def demo_ix_def index_trees_def)
  moreover have "env_cmp (demo_txs_env demo_log demo_ix) n a b = 0 \<longleftrightarrow> a = b" for n a b
    by (simp add: demo_txs_env_def demo_env_def eq_cmp_def)
  ultimately show ?thesis by (simp add: indices_ok_def demo_ttree)
qed

lemma demo_key: "key_size_ok (fb_size cell_fb) (IStr ''a'')"
  by (simp add: key_size_ok_def MAXKEYSIZE_def)

section \<open>Running it\<close>

lemmas txs_calls = op_calls cell_tx txs_append_def txs_tree_def modify_txs_def index_trees_def
  put_tx_into_tree_by_key_def put_transfers_def put_transfer_def merkle_push_def txs_merkle_root_def
  HASH_LEN_def sz_add_def SIZE_MOD_def

lemma demo_txs_at:
  "map_of (ts_trees (demo_txs n hs)) ''tx_store'' = Some (0, 0)"
  "map_of (ts_trees (demo_txs n hs)) ''merkle_tree'' = Some (1, 1)"
  "map_of (ts_trees (demo_txs n hs)) ''index_asset_add'' = Some (3, 3)"
  "map_of (ts_trees (demo_txs n hs)) ''index_asset_remove'' = Some (4, 4)"
  "map_of (ts_trees (demo_txs n hs)) ''index_asset_transfer'' = Some (5, 5)"
  "map_of (ts_trees (demo_txs n hs)) ''index_account_add'' = Some (8, 8)"
  "map_of (ts_trees (demo_txs n hs)) ''index_account_remove'' = Some (10, 10)"
proof -
  have "map_of (ts_trees (demo_txs n hs)) (fst (demo_txs_trees [] (\<lambda>_. []) ! i)) = Some (i, i)" if "i < 18" for i
    using demo_trees_at [OF distinct_txs_names, of i "[]" "\<lambda>_. []"] that
    by (simp add: demo_txs_def demo_txs_trees_def index_names_def)
  from this [of 0] this [of 1] this [of 3] this [of 4] this [of 5] this [of 8] this [of 10]
  show "map_of (ts_trees (demo_txs n hs)) ''tx_store'' = Some (0, 0)"
    "map_of (ts_trees (demo_txs n hs)) ''merkle_tree'' = Some (1, 1)"
    "map_of (ts_trees (demo_txs n hs)) ''index_asset_add'' = Some (3, 3)"
    "map_of (ts_trees (demo_txs n hs)) ''index_asset_remove'' = Some (4, 4)"
    "map_of (ts_trees (demo_txs n hs)) ''index_asset_transfer'' = Some (5, 5)"
    "map_of (ts_trees (demo_txs n hs)) ''index_account_add'' = Some (8, 8)"
    "map_of (ts_trees (demo_txs n hs)) ''index_account_remove'' = Some (10, 10)"
    by (simp_all add: demo_txs_trees_def index_names_def)
qed

lemma demo_cursors:
  assumes "i < 18"
  shows "env_cursors (demo_txs_env log idx) i =
    Some \<lparr>cu_txn = 0, cu_db = fst (demo_txs_trees log idx ! i), cu_pos = None\<rparr>"
  using assms by (simp add: demo_txs_env_def demo_env_def demo_txs_trees_def index_names_def)

lemma demo_txn:
  obtains y where "env_txns (demo_txs_env log idx) 0 = Some y" "\<not> txn_rdonly y"
    "txn_dbs y = (\<lambda>n. map_option (\<lambda>(dup, t). \<lparr>db_dup = dup, db_tree = t\<rparr>) (map_of (demo_txs_trees log idx) n))"
proof -
  show ?thesis
    by (rule that [of "\<lparr>txn_rdonly = False, txn_dbs = (\<lambda>n. map_option (\<lambda>(dup, t). \<lparr>db_dup = dup, db_tree = t\<rparr>)
      (map_of (demo_txs_trees log idx) n))\<rparr>"]) (simp_all add: demo_txs_env_def demo_env_def)
qed

lemma demo_append_runs:
  "\<exists>root e' s'. txs_append (\<lambda>_. zero_hash) cell_fb (mem_lmdb (fb_size cell_fb))
     (demo_tx (AccountRemove None)) (demo_txs_env demo_log demo_ix, demo_txs 1 []) = (Inr root, (e', s'))"
  "\<exists>root e' s'. txs_append (\<lambda>_. zero_hash) cell_fb (mem_lmdb (fb_size cell_fb))
     (demo_tx (AssetAdd ''1'' (dollar None None))) (demo_txs_env demo_log demo_ix, demo_txs 1 []) = (Inr root, (e', s'))"
proof -
  obtain m x where m: "mt_push (\<lambda>_. zero_hash) (replicate 32 7) (ts_merkle (demo_txs 1 [])) = Inr m" "mt_root m = Inr x"
    using merkle_root_push [OF _ _ demo_run [where hs = "[]" and n = 1], of "replicate 32 7"] by auto
  note defs = demo_txs_trees_def index_names_def
  obtain y where y: "env_txns (demo_txs_env demo_log demo_ix) 0 = Some y" "\<not> txn_rdonly y"
    "txn_dbs y = (\<lambda>n. map_option (\<lambda>(dup, t). \<lparr>db_dup = dup, db_tree = t\<rparr>) (map_of (demo_txs_trees demo_log demo_ix) n))"
    by (rule demo_txn)
  have dbs: "txn_dbs y ''tx_store'' = Some \<lparr>db_dup = False, db_tree = [(INum 1, IBlob (demo_tx (AccountAdd (CAccount ''1''))))]\<rparr>"
    "txn_dbs y ''index_asset_add'' = Some \<lparr>db_dup = True, db_tree = []\<rparr>"
    "txn_dbs y ''index_asset_remove'' = Some \<lparr>db_dup = True, db_tree = []\<rparr>"
    "txn_dbs y ''index_asset_transfer'' = Some \<lparr>db_dup = True, db_tree = []\<rparr>"
    "txn_dbs y ''index_account_remove'' = Some \<lparr>db_dup = True, db_tree = []\<rparr>"
    by (simp_all add: y(3) defs demo_log_def demo_ix_def)
  have cur: "env_cursors (demo_txs_env demo_log demo_ix) 0 = Some \<lparr>cu_txn = 0, cu_db = ''tx_store'', cu_pos = None\<rparr>"
    "env_cursors (demo_txs_env demo_log demo_ix) 3 = Some \<lparr>cu_txn = 0, cu_db = ''index_asset_add'', cu_pos = None\<rparr>"
    "env_cursors (demo_txs_env demo_log demo_ix) 4 = Some \<lparr>cu_txn = 0, cu_db = ''index_asset_remove'', cu_pos = None\<rparr>"
    "env_cursors (demo_txs_env demo_log demo_ix) 5 = Some \<lparr>cu_txn = 0, cu_db = ''index_asset_transfer'', cu_pos = None\<rparr>"
    "env_cursors (demo_txs_env demo_log demo_ix) 10 = Some \<lparr>cu_txn = 0, cu_db = ''index_account_remove'', cu_pos = None\<rparr>"
    by (simp_all add: demo_cursors defs)
  note run = txs_calls mem_calls m y(1,2) dbs cur demo_txs_at
  have s: "ts_total (demo_txs 1 []) = 1" "ts_append_tx (demo_txs 1 []) = 0" by (simp_all add: demo_txs_def)
  show "\<exists>root e' s'. txs_append (\<lambda>_. zero_hash) cell_fb (mem_lmdb (fb_size cell_fb))
     (demo_tx (AccountRemove None)) (demo_txs_env demo_log demo_ix, demo_txs 1 []) = (Inr root, (e', s'))"
    by (simp add: run s del: One_nat_def)
  show "\<exists>root e' s'. txs_append (\<lambda>_. zero_hash) cell_fb (mem_lmdb (fb_size cell_fb))
     (demo_tx (AssetAdd ''1'' (dollar None None))) (demo_txs_env demo_log demo_ix, demo_txs 1 []) = (Inr root, (e', s'))"
    by (simp add: run s del: One_nat_def)
qed

section \<open>Properties\<close>

text \<open>
  C13: one append.  Unless the database fails, the transaction is at the end of the log, whatever
  happens to it afterwards.  It is rejected with \<^verbatim>\<open>WRONG_COMMAND\<close> if no index exists for its
  command, has no meaning if it carries no hash, and fails the assertion if the hash is not 32
  bytes long; otherwise its hash is pushed to the Merkle tree and the result is the root over
  the leaves of the last block.  No tree outside the store changes.
\<close>

theorem txs_append_spec:
  assumes "lmdb_ok bsize L" and "txs_ok e s" and "indices_ok F e s" and "Suc (ts_total s) < SIZE_MOD"
    and "key_size_ok bsize (IStr (tx_creatorPubKey (fb_transaction F blob)))"
    and "1 \<le> k" and "k \<le> 31" and "mt_run sha3 (2 ^ k) 1 hs = Inr (ts_merkle s)"
    and "txs_append sha3 F L blob (e, s) = (r, (e', s'))"
  shows "(r = Inl (InternalError FATAL)
      \<or> txs_log e' s' = txs_log e s @ [IBlob blob]
        \<and> (\<exists>hs'. append_result sha3 k hs (fb_transaction F blob) = (r, hs')
             \<and> mt_run sha3 (2 ^ k) 1 hs' = Inr (ts_merkle s')))
    \<and> (\<forall>n. n \<notin> fst ` set txs_names \<longrightarrow>
         store_tree e' (ts_append_tx s) n = store_tree e (ts_append_tx s) n)"
proof -
  have "n \<notin> insert ''tx_store'' (set index_names)" if "n \<notin> fst ` set txs_names" for n
    using that by (force simp: txs_names_def)
  then show ?thesis using append_ok [OF assms(1-8)] assms(9) by (auto dest: step_on_tree)
qed

theorem txs_append_spec_witness:
  "\<exists>e' s'. txs_append (\<lambda>_. zero_hash) cell_fb (mem_lmdb (fb_size cell_fb))
       (demo_tx (AccountRemove None)) (demo_txs_env demo_log demo_ix, demo_txs 1 [])
         = (Inr (replicate 32 7), (e', s'))
    \<and> txs_log e' s' = [IBlob (demo_tx (AccountAdd (CAccount ''1''))), IBlob (demo_tx (AccountRemove None))]"
proof -
  obtain root e' s' where r: "txs_append (\<lambda>_. zero_hash) cell_fb (mem_lmdb (fb_size cell_fb))
       (demo_tx (AccountRemove None)) (demo_txs_env demo_log demo_ix, demo_txs 1 []) = (Inr root, (e', s'))"
    using demo_append_runs(1) by blast
  have small: "Suc (ts_total (demo_txs 1 [])) < SIZE_MOD" by (simp add: demo_txs_def SIZE_MOD_def)
  have blk: "blk_of h 4 [x] = [[x]]" for h :: "hash_t \<Rightarrow> hash_t \<Rightarrow> hash_t" and x by (simp add: blk_short)
  have log: "txs_log (demo_txs_env demo_log demo_ix) (demo_txs 1 []) = [IBlob (demo_tx (AccountAdd (CAccount ''1'')))]"
    by (simp add: txs_log_def demo_ttree demo_log_def)
  show ?thesis
    using txs_append_spec [OF mem_ok demo_log_ok demo_indices_ok small _ _ _ demo_run r] r log demo_key
    by (auto simp: append_result_def index_trees_def HASH_LEN_def blk)
qed

text \<open>
  C12: the indices are a function of the log.  As long as the database does not fail, appends keep
  the transactions numbered 1, 2, ... in the log, and every index of creators holds exactly the
  pairs of a creator and a number that the commands of the log call for.
\<close>

theorem txs_indices_invariant:
  assumes "lmdb_ok bsize L" and "txs_ok e s" and "indices_ok F e s" and "Suc (ts_total s) < SIZE_MOD"
    and "key_size_ok bsize (IStr (tx_creatorPubKey (fb_transaction F blob)))"
    and "1 \<le> k" and "k \<le> 31" and "mt_run sha3 (2 ^ k) 1 hs = Inr (ts_merkle s)"
    and "txs_append sha3 F L blob (e, s) = (r, (e', s'))" and "r \<noteq> Inl (InternalError FATAL)"
  shows "map fst (ttree e' s' ''tx_store'') = map INum [1..<Suc (ts_total s')]
    \<and> ts_total s' = Suc (ts_total s)
    \<and> (\<forall>n \<in> set index_names - transfer_indices.
         set (ttree e' s' n) = {(IStr c, INum i) | c i.
           \<exists>b. (INum i, IBlob b) \<in> set (ttree e' s' ''tx_store'') \<and> indexed F b n c})
    \<and> txs_ok e' s' \<and> indices_ok F e' s'"
proof -
  have r: "txs_ok e' s'" "indices_ok F e' s'" "txs_log e' s' = txs_log e s @ [IBlob blob]"
    using append_ok [OF assms(1-8)] assms(9,10) by auto
  have "length (ttree e'' s'' ''tx_store'') = ts_total s''" if "txs_ok e'' s''" for e'' :: "('a, 'b) env" and s''
    using arg_cong [OF txs_okD(2) [OF that], of length] by simp
  then have "ts_total s' = Suc (ts_total s)"
    using arg_cong [OF r(3), of length] r(1) assms(2) by (simp add: txs_log_def)
  moreover have "\<forall>n \<in> set index_names - transfer_indices. set (ttree e' s' n) = {(IStr c, INum i) | c i.
           \<exists>b. (INum i, IBlob b) \<in> set (ttree e' s' ''tx_store'') \<and> indexed F b n c}"
    using r(2) by (simp add: indices_ok_def index_of_def)
  ultimately show ?thesis using r(1,2) txs_okD(2) by blast
qed

theorem txs_indices_invariant_witness:
  "\<exists>root e' s'. txs_append (\<lambda>_. zero_hash) cell_fb (mem_lmdb (fb_size cell_fb))
       (demo_tx (AccountRemove None)) (demo_txs_env demo_log demo_ix, demo_txs 1 []) = (Inr root, (e', s'))
    \<and> ts_total s' = 2 \<and> indices_ok cell_fb e' s'"
proof -
  obtain root e' s' where r: "txs_append (\<lambda>_. zero_hash) cell_fb (mem_lmdb (fb_size cell_fb))
       (demo_tx (AccountRemove None)) (demo_txs_env demo_log demo_ix, demo_txs 1 []) = (Inr root, (e', s'))"
    using demo_append_runs(1) by blast
  have small: "Suc (ts_total (demo_txs 1 [])) < SIZE_MOD" by (simp add: demo_txs_def SIZE_MOD_def)
  have n: "ts_total (demo_txs 1 []) = 1" by (simp add: demo_txs_def)
  show ?thesis
    using txs_indices_invariant [OF mem_ok demo_log_ok demo_indices_ok small _ _ _ demo_run r] r n demo_key
    by auto
qed

text \<open>
  C40: the \<^verbatim>\<open>switch\<close> of an append has no \<^verbatim>\<open>break\<close> after \<^verbatim>\<open>AssetAdd\<close> and \<^verbatim>\<open>AssetRemove\<close>.  An
  appended \<^verbatim>\<open>AssetAdd\<close> is listed under its creator as a removal and as a transfer too.
\<close>

theorem txs_asset_add_falls_through:
  assumes "lmdb_ok bsize L" and "txs_ok e s" and "indices_ok F e s" and "Suc (ts_total s) < SIZE_MOD"
    and "key_size_ok bsize (IStr (tx_creatorPubKey (fb_transaction F blob)))"
    and "1 \<le> k" and "k \<le> 31" and "mt_run sha3 (2 ^ k) 1 hs = Inr (ts_merkle s)"
    and "txs_append sha3 F L blob (e, s) = (r, (e', s'))" and "r \<noteq> Inl (InternalError FATAL)"
    and "tx_command (fb_transaction F blob) = AssetAdd acc asset"
  shows "\<forall>n \<in> {''index_asset_add'', ''index_asset_remove'', ''index_asset_transfer''}.
    INum (Suc (ts_total s)) \<in> set (tget (ttree e' s' n) (IStr (tx_creatorPubKey (fb_transaction F blob))))"
proof -
  have r: "txs_ok e' s'" "indices_ok F e' s'" "txs_log e' s' = txs_log e s @ [IBlob blob]"
    using append_ok [OF assms(1-8)] assms(9,10) by auto
  have len: "length (ttree e s ''tx_store'') = ts_total s" "length (ttree e' s' ''tx_store'') = ts_total s'"
    using arg_cong [OF txs_okD(2) [OF assms(2)], of length] arg_cong [OF txs_okD(2) [OF r(1)], of length]
    by simp_all
  let ?t = "ttree e' s' ''tx_store''" and ?i = "ts_total s"
  have i: "?i < length ?t" "ts_total s' = Suc ?i"
    using arg_cong [OF r(3), of length] len by (simp_all add: txs_log_def)
  have "snd (?t ! ?i) = (txs_log e s @ [IBlob blob]) ! ?i"
    unfolding r(3) [symmetric] using i(1) by (simp add: txs_log_def)
  then have "snd (?t ! ?i) = IBlob blob" using len(1) by (simp add: txs_log_def nth_append)
  moreover have "fst (?t ! ?i) = INum (Suc ?i)"
    using arg_cong [OF txs_okD(2) [OF r(1)], of "\<lambda>xs. xs ! ?i"] i by (simp del: upt_Suc)
  ultimately have "(INum (Suc ?i), IBlob blob) \<in> set ?t" using nth_mem [OF i(1)] by (metis prod.collapse)
  then have "(IStr (tx_creatorPubKey (fb_transaction F blob)), INum (Suc ?i)) \<in> set (ttree e' s' n)"
    if n: "n \<in> {''index_asset_add'', ''index_asset_remove'', ''index_asset_transfer''}" for n
  proof -
    have "n \<in> set index_names - transfer_indices" using n by (auto simp: index_names_def)
    then have "set (ttree e' s' n) = index_of F ?t n" using r(2) by (simp add: indices_ok_def)
    moreover have "indexed F blob n (tx_creatorPubKey (fb_transaction F blob))"
      using n by (auto simp: indexed_def assms(11) index_trees_def)
    ultimately show ?thesis using \<open>(INum (Suc ?i), IBlob blob) \<in> set ?t\<close> by (auto simp: index_of_def)
  qed
  then show ?thesis by (simp add: set_tget)
qed

theorem txs_asset_add_falls_through_witness:
  "\<exists>root e' s'. txs_append (\<lambda>_. zero_hash) cell_fb (mem_lmdb (fb_size cell_fb))
       (demo_tx (AssetAdd ''1'' (dollar None None))) (demo_txs_env demo_log demo_ix, demo_txs 1 []) = (Inr root, (e', s'))
    \<and> INum 2 \<in> set (tget (ttree e' s' ''index_asset_transfer'') (IStr ''a''))"
proof -
  let ?tx = "demo_tx (AssetAdd ''1'' (dollar None None))"
  obtain root e' s' where r: "txs_append (\<lambda>_. zero_hash) cell_fb (mem_lmdb (fb_size cell_fb))
       ?tx (demo_txs_env demo_log demo_ix, demo_txs 1 []) = (Inr root, (e', s'))"
    using demo_append_runs(2) by blast
  have small: "Suc (ts_total (demo_txs 1 [])) < SIZE_MOD" by (simp add: demo_txs_def SIZE_MOD_def)
  have n: "ts_total (demo_txs 1 []) = 1" by (simp add: demo_txs_def)
  show ?thesis
    using txs_asset_add_falls_through [OF mem_ok demo_log_ok demo_indices_ok small _ _ _ demo_run r _ demo_tx_simps(1)]
      r n demo_key by (auto simp: numeral_2_eq_2)
qed

text \<open>
  C16: a commit saves what the Merkle tree needs.  A commit that succeeds leaves in the tree
  \<^verbatim>\<open>merkle_tree\<close> exactly the leaves of the last block; a new store that reads them back
  passes the assertions, and from then on its roots are those of the tree that was saved, for
  any further transactions.  The only way to fail is a fatal error of the database.
\<close>

theorem txs_commit_reload:
  assumes "lmdb_ok bsize L" and "store_ok txs_names (ts_trees s) (ts_append_tx s) e"
    and "1 \<le> k" and "k \<le> 31" and "mt_run sha3 (2 ^ k) 1 hs = Inr (ts_merkle s)"
    and "\<And>d. length (sha3 d) = HASH_LEN" and "\<forall>h \<in> set hs. length h = HASH_LEN"
    and "txs_commit L (e, s) = (Inr (), (e1, s1))"
    and "store_ok txs_names (ts_trees s2) (ts_append_tx s2) e2" and "mt_new (2 ^ k) 1 = Inr (ts_merkle s2)"
    and "ttree e2 s2 ''merkle_tree'' = ttree e1 s1 ''merkle_tree''"
    and "init_merkle_tree sha3 L (e2, s2) = (r, (e3, s3))"
  shows "r = Inl (InternalError FATAL)
    \<or> r = Inr () \<and> (\<forall>zs. \<exists>p q. foldR (mt_push sha3) zs (ts_merkle s3) = Inr p
        \<and> foldR (mt_push sha3) zs (ts_merkle s) = Inr q \<and> (hs @ zs \<noteq> [] \<longrightarrow> mt_root p = mt_root q))"
proof -
  let ?b = "last (blk_of (hash_pair sha3) (2 ^ k) hs)"
  have l: "2 \<le> (2 :: nat) ^ k" using assms(3) by (cases k) auto
  have "s1 = s" "ttree e1 s ''merkle_tree'' = block_records (2 ^ k - 1) ?b"
    using commit_ok [OF assms(1-5)] assms(8) by auto
  then have t: "ttree e2 s2 ''merkle_tree'' = block_records (2 ^ k - 1) ?b" using assms(11) by simp
  have b: "length ?b < 2 ^ k" "\<forall>h \<in> set ?b. length h = HASH_LEN"
    using blk_last [OF l] blk_of_all [OF _ l assms(7), of "hash_pair sha3"] assms(6)
    by (auto simp: hash_pair_def)
  have r: "r = Inl (InternalError FATAL) \<or> r = Inr () \<and> mt_run sha3 (2 ^ k) 1 ?b = Inr (ts_merkle s3)"
    using init_merkle_tree_ok [OF assms(1,9,3,4,10) t b, of sha3] assms(12) by auto
  then show ?thesis using last_block_resume [OF assms(3,4) _ assms(5)] by blast
qed

lemma demo_commit:
  defines "m \<equiv> mem_lmdb (fb_size cell_fb)" and "s \<equiv> demo_txs 0 [zero_hash]" and "e \<equiv> demo_txs_env [] (\<lambda>_. [])"
  shows "\<exists>e1 e3 s3. txs_commit m (e, s) = (Inr (), (e1, s))
    \<and> init_merkle_tree (\<lambda>_. zero_hash) m (e1, demo_txs 0 []) = (Inr (), (e3, s3))"
proof -
  have mk: "ts_merkle s = \<lparr>mt_trees = [(replicate 7 zero_hash)[3 := zero_hash]], mt_max_blocks = 1, mt_size = 7, mt_leafs = 4,
      mt_i_current = 4, mt_i_root = 3\<rparr>"
    by (simp add: s_def demo_txs_def demo_merkle_def mt_run_def mt_eval)
  have at: "map_of (ts_trees s) ''merkle_tree'' = Some (1, 1)" by (simp only: s_def demo_txs_at)
  have e: "env_dbis e 1 = Some ''merkle_tree''"
    "env_cursors e 1 = Some \<lparr>cu_txn = 0, cu_db = ''merkle_tree'', cu_pos = None\<rparr>"
    "\<exists>x. env_txns e 0 = Some x \<and> txn_dbs x ''merkle_tree'' = Some \<lparr>db_dup = False, db_tree = []\<rparr>"
    by (simp_all add: e_def demo_txs_env_def demo_env_def demo_txs_trees_def)
  then obtain x where x: "env_txns e 0 = Some x" "txn_dbs x ''merkle_tree'' = Some \<lparr>db_dup = False, db_tree = []\<rparr>" by blast
  have blk: "mt_last_block (ts_merkle s) = Inr ((replicate 7 zero_hash)[3 := zero_hash])"
    "[mt_last_block_begin (ts_merkle s)..<mt_last_block_end (ts_merkle s)] = [3]"
    by (simp_all add: mk mt_last_block_def mt_last_block_begin_def mt_last_block_end_def sz_sub_eq SIZE_MOD_def
        upt_conv_Cons)
  have tx: "ts_append_tx s = 0" by (simp add: s_def demo_txs_def)
  have push: "mt_push (\<lambda>_. zero_hash) zero_hash (ts_merkle (demo_txs 0 [])) = Inr (ts_merkle s)"
    using demo_run [of "[]" 0] demo_run [of "[zero_hash]" 0] unfolding s_def
    by (auto simp: mt_run_def bindR_eq_Inr_iff)
  have last: "sz_sub (mt_last_block_end (ts_merkle s)) 1 = 3"
    by (simp add: mk mt_last_block_end_def sz_sub_eq SIZE_MOD_def)
  have at0: "map_of (ts_trees (demo_txs 0 [])) ''merkle_tree'' = Some (1, 1)" by (rule demo_txs_at)
  have len: "length zero_hash = HASH_LEN" by (simp add: zero_hash_def HASH_LEN_def)
  show ?thesis
    by (simp add: txs_calls mem_calls mem_drop_def txs_commit_def vec_at_def init_merkle_tree_def
      read_all_records_def loopS_def records_loop.simps push last at0 len at m_def e x blk tx del: One_nat_def)
qed

theorem txs_commit_reload_witness:
  "\<exists>e1 e3 s3. txs_commit (mem_lmdb (fb_size cell_fb)) (demo_txs_env [] (\<lambda>_. []), demo_txs 0 [zero_hash])
        = (Inr (), (e1, demo_txs 0 [zero_hash]))
    \<and> init_merkle_tree (\<lambda>_. zero_hash) (mem_lmdb (fb_size cell_fb)) (e1, demo_txs 0 []) = (Inr (), (e3, s3))
    \<and> (\<exists>p q. mt_push (\<lambda>_. zero_hash) zero_hash (ts_merkle s3) = Inr p
         \<and> mt_push (\<lambda>_. zero_hash) zero_hash (ts_merkle (demo_txs 0 [zero_hash])) = Inr q \<and> mt_root p = mt_root q)"
proof -
  let ?L = "mem_lmdb (fb_size cell_fb)" and ?s = "demo_txs 0 [zero_hash]" and ?s2 = "demo_txs 0 []"
  obtain e1 e3 s3 where e1: "txs_commit ?L (demo_txs_env [] (\<lambda>_. []), ?s) = (Inr (), (e1, ?s))"
    and i: "init_merkle_tree (\<lambda>_. zero_hash) ?L (e1, ?s2) = (Inr (), (e3, s3))" using demo_commit by blast
  have m: "mt_new (2 ^ 2) 1 = Inr (ts_merkle ?s2)" using demo_run [of "[]" 0]
    by (cases "mt_new (2 ^ 2) 1") (simp_all add: mt_run_def)
  have t: "ttree e1 ?s2 ''merkle_tree'' = ttree e1 ?s ''merkle_tree''" by (simp add: ttree_def demo_txs_def)
  have st: "store_ok txs_names (ts_trees ?s2) (ts_append_tx ?s2) e1"
    using store_ok_step [OF demo_txs_store_ok [of 0 "[zero_hash]" "[]" "\<lambda>_. []"]]
      commit_ok [OF mem_ok [of "fb_size cell_fb"] demo_txs_store_ok [of 0 "[zero_hash]" "[]" "\<lambda>_. []"] _ _ demo_run] e1
    by (auto simp: demo_txs_def)
  from txs_commit_reload [OF mem_ok demo_txs_store_ok _ _ demo_run _ _ e1 st m t i]
  have "\<forall>zs. \<exists>p q. foldR (mt_push (\<lambda>_. zero_hash)) zs (ts_merkle s3) = Inr p
        \<and> foldR (mt_push (\<lambda>_. zero_hash)) zs (ts_merkle ?s) = Inr q \<and> ([zero_hash] @ zs \<noteq> [] \<longrightarrow> mt_root p = mt_root q)"
    by (auto simp: zero_hash_def)
  then show ?thesis using e1 i by (auto dest: spec [of _ "[zero_hash]"] simp: bindR_eq_Inr_iff)
qed

text \<open>
  C39: what a query by key returns.  Over the uncommitted state \<^verbatim>\<open>getTxByKey\<close> ends and changes
  nothing but cursors; unless the database fails, its result has one entry for each transaction
  number the index holds for the key, but every entry is the first transaction of the log:
  the inner read asks for \<^verbatim>\<open>MDB_FIRST\<close> and not for the number.
\<close>

theorem txs_query_first:
  assumes "lmdb_ok bsize L" and "txs_ok e s" and "ttree e s ''tx_store'' \<noteq> []"
    and "n \<in> set index_names" and "grouped (ttree e s n)" and "key_size_ok bsize (IStr pk)"
  shows "\<exists>r e'. getTxByKey L n pk True has_env (e, s) = (r, (e', s)) \<and> r \<noteq> Inl Diverges
    \<and> (\<forall>m. ttree e' s m = ttree e s m)
    \<and> (r = Inl (InternalError FATAL)
      \<or> r = Inr (replicate (length (tget (ttree e s n) (IStr pk))) (hd (txs_log e s))))"
proof -
  have "hd (txs_log e s) = snd (hd (ttree e s ''tx_store''))"
    using assms(3) by (simp add: txs_log_def hd_map)
  then show ?thesis using get_tx_by_key [OF assms, of has_env] step_on_tree by (fastforce simp: ttree_def)
qed

text \<open>The creator \<open>a\<close> removed an account with transaction 2; the query returns transaction 1.\<close>

definition two_log :: "cell tree" where
  "two_log = [(INum 1, IBlob (demo_tx (AccountAdd (CAccount ''1'')))), (INum 2, IBlob (demo_tx (AccountRemove None)))]"

definition two_ix :: "string \<Rightarrow> cell tree" where
  "two_ix n = (if n = ''index_account_remove'' then [(IStr ''a'', INum 2)] else [])"

lemma two_query:
  "\<exists>e'. getTxByKey (mem_lmdb (fb_size cell_fb)) ''index_account_remove'' ''a'' True False
     (demo_txs_env two_log two_ix, demo_txs 2 []) = (Inr [IBlob (demo_tx (AccountAdd (CAccount ''1'')))], (e', demo_txs 2 []))"
proof -
  obtain y where y: "env_txns (demo_txs_env two_log two_ix) 0 = Some y" "\<not> txn_rdonly y"
    "txn_dbs y = (\<lambda>n. map_option (\<lambda>(dup, t). \<lparr>db_dup = dup, db_tree = t\<rparr>) (map_of (demo_txs_trees two_log two_ix) n))"
    by (rule demo_txn)
  have dbs: "txn_dbs y ''tx_store'' = Some \<lparr>db_dup = False, db_tree = two_log\<rparr>"
    "txn_dbs y ''index_account_remove'' = Some \<lparr>db_dup = True, db_tree = [(IStr ''a'', INum 2)]\<rparr>"
    by (simp_all add: y(3) demo_txs_trees_def index_names_def two_ix_def)
  have cur: "env_cursors (demo_txs_env two_log two_ix) 0 = Some \<lparr>cu_txn = 0, cu_db = ''tx_store'', cu_pos = None\<rparr>"
    "env_cursors (demo_txs_env two_log two_ix) 10 = Some \<lparr>cu_txn = 0, cu_db = ''index_account_remove'', cu_pos = None\<rparr>"
    by (simp_all add: demo_cursors demo_txs_trees_def index_names_def)
  have hd: "two_log \<noteq> []" "two_log ! 0 = (INum 1, IBlob (demo_tx (AccountAdd (CAccount ''1''))))" by (simp_all add: two_log_def)
  show ?thesis
    by (simp add: getTxByKey_def query_cursor_def txs_calls mem_calls y(1,2) dbs cur demo_txs_at loopS_def tx_loop.simps hd
        del: One_nat_def)
qed

theorem txs_query_first_witness:
  "\<exists>e'. getTxByKey (mem_lmdb (fb_size cell_fb)) ''index_account_remove'' ''a'' True False
     (demo_txs_env two_log two_ix, demo_txs 2 []) = (Inr [IBlob (demo_tx (AccountAdd (CAccount ''1'')))], (e', demo_txs 2 []))
    \<and> ttree e' (demo_txs 2 []) ''tx_store'' = two_log"
proof -
  let ?e = "demo_txs_env two_log two_ix" and ?n = "''index_account_remove''"
  have n: "?n \<in> set index_names" by (simp add: index_names_def)
  have g: "grouped (ttree ?e (demo_txs 2 []) ?n)"
    by (simp add: demo_ttree(3) [OF n]) (simp add: two_ix_def grouped_def)
  have ok: "txs_ok ?e (demo_txs 2 [])" by (rule demo_txs_ok) (simp add: two_log_def upt_rec)
  have ne: "ttree ?e (demo_txs 2 []) ''tx_store'' \<noteq> []" by (simp add: demo_ttree two_log_def)
  from txs_query_first [OF mem_ok ok ne n g demo_key, of False] two_query demo_ttree(1) [of two_log two_ix]
  show ?thesis by auto
qed

end
