(* ===== verification/Ametsuchi.thy ===== *)
theory Ametsuchi
  imports Tx_Store
begin

text \<open>
  The class \<^verbatim>\<open>Ametsuchi\<close> (\<^verbatim>\<open>include/ametsuchi/ametsuchi.h\<close>, \<^verbatim>\<open>src/ametsuchi/ametsuchi.cc\<close>): the
  database, made of the transaction store and the world state view in one LMDB environment,
  with one write transaction open all the time that \<^verbatim>\<open>commit\<close> and \<^verbatim>\<open>rollback\<close> replace.
\<close>

section \<open>State\<close>

text \<open>
  The member \<^verbatim>\<open>env\<close> is the environment itself, the first component of the state of every
  operation; \<^verbatim>\<open>mst\<close>, the statistics, is written and never read, and left out.  A null
  \<^verbatim>\<open>append_tx_\<close> is \<open>None\<close>.
\<close>

record 'b ametsuchi =
  am_path :: string
  am_append_tx :: "nat option"
  am_txs :: txstore
  am_wsv :: "'b wsv"
  am_trees_total :: nat

type_synonym ('b, 'x, 'a) am_op = "('b, 'x, 'b ametsuchi, 'a) store_op"

definition AMETSUCHI_MAX_DB_SIZE :: nat where
  "AMETSUCHI_MAX_DB_SIZE = 1024 * 1024 * 1024 * 1024"

definition AMETSUCHI_BLOCK_SIZE :: nat where
  "AMETSUCHI_BLOCK_SIZE = 1024"

text \<open>An operation of a member, run on the member.\<close>

definition on_txs :: "('b, 'x, 'a) txs_op \<Rightarrow> ('b, 'x, 'a) am_op" where
  "on_txs m = (\<lambda>(e, a). case m (e, am_txs a) of (r, (e', s)) \<Rightarrow> (r, (e', a\<lparr>am_txs := s\<rparr>)))"

definition on_wsv :: "('b, 'x, 'a) wsv_op \<Rightarrow> ('b, 'x, 'a) am_op" where
  "on_wsv m = (\<lambda>(e, a). case m (e, am_wsv a) of (r, (e', w)) \<Rightarrow> (r, (e', a\<lparr>am_wsv := w\<rparr>)))"

definition modify_am :: "('b ametsuchi \<Rightarrow> 'b ametsuchi) \<Rightarrow> ('b, 'x, unit) am_op" where
  "modify_am f = modifyS (\<lambda>(e, a). (e, f a))"

section \<open>Appending\<close>

definition am_append :: "(byte list \<Rightarrow> hash_t) \<Rightarrow> 'b fb \<Rightarrow> ('b, 'x) lmdb \<Rightarrow> 'b \<Rightarrow> ('b, 'x, hash_t) am_op" where
  "am_append sha3 F L blob =
     bindS (on_txs (txs_append sha3 F L blob)) (\<lambda>mt_root.
     bindS (on_wsv (wsv_update F L blob)) (\<lambda>_. returnS mt_root))"

fun append_loop :: "(byte list \<Rightarrow> hash_t) \<Rightarrow> 'b fb \<Rightarrow> ('b, 'x) lmdb \<Rightarrow> 'b list \<Rightarrow> ('b, 'x, unit) am_op" where
  "append_loop sha3 F L [] = returnS ()"
| "append_loop sha3 F L (t # batch) =
     bindS (am_append sha3 F L t) (\<lambda>_. append_loop sha3 F L batch)"

definition am_append_batch :: "(byte list \<Rightarrow> hash_t) \<Rightarrow> 'b fb \<Rightarrow> ('b, 'x) lmdb \<Rightarrow> 'b list \<Rightarrow>
    ('b, 'x, hash_t) am_op" where
  "am_append_batch sha3 F L batch =
     bindS (append_loop sha3 F L batch) (\<lambda>_. on_txs txs_merkle_root)"

section \<open>The append transaction\<close>

definition am_init_append_tx :: "'b fb \<Rightarrow> ('b, 'x) lmdb \<Rightarrow> ('b, 'x, unit) am_op" where
  "am_init_append_tx F L = (\<lambda>(e, a).
     case mdb_txn_begin L False e of (res, tx, e1) \<Rightarrow>
       bindS (critical res [MDB_PANIC, MDB_MAP_RESIZED, MDB_READERS_FULL, ENOMEM]) (\<lambda>_.
       bindS (modify_am (\<lambda>a. a\<lparr>am_append_tx := Some tx\<rparr>)) (\<lambda>_.
       bindS (on_txs (txs_init L tx)) (\<lambda>_.
       on_wsv (wsv_init F L tx)))) (e1, a))"

definition am_close_cursors :: "('b, 'x) lmdb \<Rightarrow> ('b, 'x, unit) am_op" where
  "am_close_cursors L = bindS (on_txs (txs_close_cursors L)) (\<lambda>_. on_wsv (wsv_close_cursors L))"

definition am_abort_append_tx :: "('b, 'x) lmdb \<Rightarrow> ('b, 'x, unit) am_op" where
  "am_abort_append_tx L =
     bindS (am_close_cursors L) (\<lambda>_.
     bindS getS (\<lambda>(e, a). case am_append_tx a of
         None \<Rightarrow> returnS ()
       | Some tx \<Rightarrow> envS (mdb_txn_abort L tx)))"

text \<open>The code of \<^verbatim>\<open>mdb_txn_commit\<close> is not looked at.\<close>

definition am_commit :: "'b fb \<Rightarrow> ('b, 'x) lmdb \<Rightarrow> ('b, 'x, unit) am_op" where
  "am_commit F L =
     bindS (on_txs (txs_commit L)) (\<lambda>_.
     bindS (am_close_cursors L) (\<lambda>_.
     bindS getS (\<lambda>(e, a). case am_append_tx a of
         None \<Rightarrow> throwS Undefined
       | Some tx \<Rightarrow>
           bindS (envS (\<lambda>e. snd (mdb_txn_commit L tx e))) (\<lambda>_. am_init_append_tx F L))))"

definition am_rollback :: "'b fb \<Rightarrow> ('b, 'x) lmdb \<Rightarrow> ('b, 'x, unit) am_op" where
  "am_rollback F L = bindS (am_abort_append_tx L) (\<lambda>_. am_init_append_tx F L)"

section \<open>Opening and closing the database\<close>

text \<open>
  The calls that are not on an open environment: \<^verbatim>\<open>mkdir\<close> of the operating system, and the
  functions of LMDB that create, set up, open and close an environment.
\<close>

record ('b, 'x) env_api =
  os_mkdir :: "string \<Rightarrow> int"
  mdb_env_create :: "rc \<times> ('b, 'x) env"
  mdb_env_set_mapsize :: "nat \<Rightarrow> ('b, 'x) env \<Rightarrow> rc \<times> ('b, 'x) env"
  mdb_env_set_maxdbs :: "nat \<Rightarrow> ('b, 'x) env \<Rightarrow> rc \<times> ('b, 'x) env"
  mdb_env_open :: "string \<Rightarrow> ('b, 'x) env \<Rightarrow> rc \<times> ('b, 'x) env"
  mdb_env_close :: "('b, 'x) env \<Rightarrow> ('b, 'x) env"

text \<open>
  \<^verbatim>\<open>EACCES\<close>, \<^verbatim>\<open>ELOOP\<close>, \<^verbatim>\<open>EMLINK\<close>, \<^verbatim>\<open>ENAMETOOLONG\<close>, \<^verbatim>\<open>ENOENT\<close>, \<^verbatim>\<open>ENOSPC\<close>, \<^verbatim>\<open>ENOTDIR\<close> and
  \<^verbatim>\<open>EROFS\<close>, with the values they have on Linux.
\<close>

definition MKDIR_ERRORS :: "int list" where
  "MKDIR_ERRORS = [13, 40, 31, 36, 2, 28, 20, 30]"

definition EEXIST :: int where
  "EEXIST = 17"

definition am_make_folder :: "('b, 'x) env_api \<Rightarrow> ('b, 'x, unit) am_op" where
  "am_make_folder A = bindS getS (\<lambda>(e, a).
     let res = os_mkdir A (am_path a)
     in if res \<noteq> 0 \<and> res \<noteq> EEXIST \<and> res \<in> set MKDIR_ERRORS then throwS (InternalError FATAL)
        else returnS ())"

text \<open>A call on the environment whose code is checked against the given ones.\<close>

definition env_call :: "(('b, 'x) env \<Rightarrow> rc \<times> ('b, 'x) env) \<Rightarrow> rc list \<Rightarrow> ('b, 'x, unit) am_op" where
  "env_call f errs = (\<lambda>(e, a). case f e of (res, e') \<Rightarrow> critical res errs (e', a))"

text \<open>
  \<^verbatim>\<open>mdb_env_create\<close> and \<^verbatim>\<open>mdb_env_open\<close>: their documentation names no complete list of codes.  If
  one fails with a code that is not checked, the code goes on with an environment that was never
  set, or that may only be closed, and the next call on it has no meaning.
\<close>

definition ENV_ERRORS :: "rc list" where
  "ENV_ERRORS = [MDB_VERSION_MISMATCH, MDB_INVALID, ENOENT, EACCES, EAGAIN]"

definition env_start :: "(('b, 'x) env \<Rightarrow> rc \<times> ('b, 'x) env) \<Rightarrow> ('b, 'x, unit) am_op" where
  "env_start f = (\<lambda>(e, a). case f e of (res, e') \<Rightarrow>
     bindS (critical res ENV_ERRORS) (\<lambda>_.
       if res = MDB_SUCCESS then returnS () else throwS Undefined) (e', a))"

definition am_init :: "(byte list \<Rightarrow> hash_t) \<Rightarrow> 'b fb \<Rightarrow> ('b, 'x) env_api \<Rightarrow> ('b, 'x) lmdb \<Rightarrow>
    ('b, 'x, unit) am_op" where
  "am_init sha3 F A L =
     bindS (am_make_folder A) (\<lambda>_.
     bindS (env_start (\<lambda>_. mdb_env_create A)) (\<lambda>_.
     bindS (env_call (mdb_env_set_mapsize A AMETSUCHI_MAX_DB_SIZE) [EINVAL]) (\<lambda>_.
     bindS (on_wsv wsv_get_trees_total) (\<lambda>n1.
     bindS (on_txs txs_get_trees_total) (\<lambda>n2.
     bindS (modify_am (\<lambda>a. a\<lparr>am_trees_total := n1 + n2\<rparr>)) (\<lambda>_.
     bindS (env_call (mdb_env_set_maxdbs A (n1 + n2)) [EINVAL]) (\<lambda>_.
     bindS getS (\<lambda>(e, a).
     bindS (env_start (mdb_env_open A (am_path a))) (\<lambda>_.
     bindS (am_init_append_tx F L) (\<lambda>_.
     on_txs (init_merkle_tree sha3 L)))))))))))"

text \<open>The constructor.  An exception in it ends the object: there is no state to go on with.\<close>

definition am_new :: "(byte list \<Rightarrow> hash_t) \<Rightarrow> 'b fb \<Rightarrow> ('b, 'x) env_api \<Rightarrow> ('b, 'x) lmdb \<Rightarrow> string \<Rightarrow>
    ('b, 'x) env \<Rightarrow> error + ('b, 'x) env \<times> 'b ametsuchi" where
  "am_new sha3 F A L db_folder e =
     bindR (txs_new AMETSUCHI_BLOCK_SIZE) (\<lambda>s.
     case am_init sha3 F A L (e, \<lparr>am_path = db_folder, am_append_tx = None, am_txs = s,
                                am_wsv = wsv_new, am_trees_total = 0\<rparr>) of
       (Inl err, _) \<Rightarrow> Inl err
     | (Inr _, st) \<Rightarrow> Inr st)"

definition am_delete :: "('b, 'x) env_api \<Rightarrow> ('b, 'x) lmdb \<Rightarrow> ('b, 'x, unit) am_op" where
  "am_delete A L =
     bindS (am_abort_append_tx L) (\<lambda>_.
     bindS (on_txs (txs_close_dbi L)) (\<lambda>_.
     bindS (on_wsv (wsv_close_dbi L)) (\<lambda>_. envS (mdb_env_close A))))"

section \<open>Queries\<close>

definition am_accountGetAllAssets :: "('b, 'x) lmdb \<Rightarrow> string \<Rightarrow> bool \<Rightarrow> ('b, 'x, 'b item list) am_op" where
  "am_accountGetAllAssets L pubKey uncommitted = on_wsv (accountGetAllAssets L pubKey uncommitted True)"

definition am_accountGetAsset :: "('b, 'x) lmdb \<Rightarrow> string \<Rightarrow> string \<Rightarrow> string \<Rightarrow> string \<Rightarrow> bool \<Rightarrow>
    ('b, 'x, 'b item) am_op" where
  "am_accountGetAsset L pubKey ln dn an uncommitted =
     on_wsv (accountGetAsset L pubKey ln dn an uncommitted True)"

text \<open>\<^verbatim>\<open>getAssetCreateByKey\<close> is the one that does not pass \<^verbatim>\<open>env\<close> on.\<close>

definition am_getAssetTransferBySender :: "('b, 'x) lmdb \<Rightarrow> string \<Rightarrow> bool \<Rightarrow> ('b, 'x, 'b item list) am_op" where
  "am_getAssetTransferBySender L pubKey uncommitted = on_txs (getAssetTransferBySender L pubKey uncommitted True)"

definition am_getAssetTransferByReceiver :: "('b, 'x) lmdb \<Rightarrow> string \<Rightarrow> bool \<Rightarrow> ('b, 'x, 'b item list) am_op" where
  "am_getAssetTransferByReceiver L pubKey uncommitted = on_txs (getAssetTransferByReceiver L pubKey uncommitted True)"

definition am_getAssetCreateByKey :: "('b, 'x) lmdb \<Rightarrow> string \<Rightarrow> bool \<Rightarrow> ('b, 'x, 'b item list) am_op" where
  "am_getAssetCreateByKey L pubKey uncommitted = on_txs (getAssetCreateByKey L pubKey uncommitted False)"

definition am_getAssetAddByKey :: "('b, 'x) lmdb \<Rightarrow> string \<Rightarrow> bool \<Rightarrow> ('b, 'x, 'b item list) am_op" where
  "am_getAssetAddByKey L pubKey uncommitted = on_txs (getAssetAddByKey L pubKey uncommitted True)"

definition am_getAssetRemoveByKey :: "('b, 'x) lmdb \<Rightarrow> string \<Rightarrow> bool \<Rightarrow> ('b, 'x, 'b item list) am_op" where
  "am_getAssetRemoveByKey L pubKey uncommitted = on_txs (getAssetRemoveByKey L pubKey uncommitted True)"

definition am_getAssetTransferByKey :: "('b, 'x) lmdb \<Rightarrow> string \<Rightarrow> bool \<Rightarrow> ('b, 'x, 'b item list) am_op" where
  "am_getAssetTransferByKey L pubKey uncommitted = on_txs (getAssetTransferByKey L pubKey uncommitted True)"

definition am_getAccountAddByKey :: "('b, 'x) lmdb \<Rightarrow> string \<Rightarrow> bool \<Rightarrow> ('b, 'x, 'b item list) am_op" where
  "am_getAccountAddByKey L pubKey uncommitted = on_txs (getAccountAddByKey L pubKey uncommitted True)"

definition am_getAccountAddSignByKey :: "('b, 'x) lmdb \<Rightarrow> string \<Rightarrow> bool \<Rightarrow> ('b, 'x, 'b item list) am_op" where
  "am_getAccountAddSignByKey L pubKey uncommitted = on_txs (getAccountAddSignByKey L pubKey uncommitted True)"

definition am_getAccountRemoveByKey :: "('b, 'x) lmdb \<Rightarrow> string \<Rightarrow> bool \<Rightarrow> ('b, 'x, 'b item list) am_op" where
  "am_getAccountRemoveByKey L pubKey uncommitted = on_txs (getAccountRemoveByKey L pubKey uncommitted True)"

definition am_getAccountRemoveSignByKey :: "('b, 'x) lmdb \<Rightarrow> string \<Rightarrow> bool \<Rightarrow> ('b, 'x, 'b item list) am_op" where
  "am_getAccountRemoveSignByKey L pubKey uncommitted = on_txs (getAccountRemoveSignByKey L pubKey uncommitted True)"

definition am_getAccountSetUseKeysByKey :: "('b, 'x) lmdb \<Rightarrow> string \<Rightarrow> bool \<Rightarrow> ('b, 'x, 'b item list) am_op" where
  "am_getAccountSetUseKeysByKey L pubKey uncommitted = on_txs (getAccountSetUseKeysByKey L pubKey uncommitted True)"

definition am_getPeerAddByKey :: "('b, 'x) lmdb \<Rightarrow> string \<Rightarrow> bool \<Rightarrow> ('b, 'x, 'b item list) am_op" where
  "am_getPeerAddByKey L pubKey uncommitted = on_txs (getPeerAddByKey L pubKey uncommitted True)"

definition am_getPeerChangeTrustByKey :: "('b, 'x) lmdb \<Rightarrow> string \<Rightarrow> bool \<Rightarrow> ('b, 'x, 'b item list) am_op" where
  "am_getPeerChangeTrustByKey L pubKey uncommitted = on_txs (getPeerChangeTrustByKey L pubKey uncommitted True)"

definition am_getPeerRemoveByKey :: "('b, 'x) lmdb \<Rightarrow> string \<Rightarrow> bool \<Rightarrow> ('b, 'x, 'b item list) am_op" where
  "am_getPeerRemoveByKey L pubKey uncommitted = on_txs (getPeerRemoveByKey L pubKey uncommitted True)"

definition am_getPeerSetActiveByKey :: "('b, 'x) lmdb \<Rightarrow> string \<Rightarrow> bool \<Rightarrow> ('b, 'x, 'b item list) am_op" where
  "am_getPeerSetActiveByKey L pubKey uncommitted = on_txs (getPeerSetActiveByKey L pubKey uncommitted True)"

definition am_getPeerSetTrustByKey :: "('b, 'x) lmdb \<Rightarrow> string \<Rightarrow> bool \<Rightarrow> ('b, 'x, 'b item list) am_op" where
  "am_getPeerSetTrustByKey L pubKey uncommitted = on_txs (getPeerSetTrustByKey L pubKey uncommitted True)"

end
