(* ===== verification/Store_Opening.thy ===== *)
theory Store_Opening
  imports Store "HOL-Library.AList"
begin

text \<open>
  What opening the trees of a store in a new write transaction gives: \<open>opens\<close> says that a call
  only adds handles and empty databases, \<open>opened\<close> that a tree is there.
\<close>

section \<open>Opening one tree\<close>

definition opens :: "nat \<Rightarrow> ('b, 'x) env \<Rightarrow> ('b, 'x) env \<Rightarrow> bool" where
  "opens tx e e' \<longleftrightarrow> env_committed e' = env_committed e
     \<and> (\<forall>h n. env_dbis e h = Some n \<longrightarrow> env_dbis e' h = Some n)
     \<and> (\<forall>c h. cursor_home e c = Some h \<longrightarrow> cursor_home e' c = Some h)
     \<and> (\<forall>tx'. tx' \<noteq> tx \<longrightarrow> env_txns e' tx' = env_txns e tx')
     \<and> map_option txn_rdonly (env_txns e' tx) = map_option txn_rdonly (env_txns e tx)
     \<and> (\<forall>n d. txn_db e tx n = Some d \<longrightarrow> txn_db e' tx n = Some d)
     \<and> (\<forall>n. store_tree e' tx n = store_tree e tx n)"

lemma opens_refl [simp]: "opens tx e e"
  by (simp add: opens_def)

lemma opens_trans: "opens tx e e' \<Longrightarrow> opens tx e' e'' \<Longrightarrow> opens tx e e''"
  by (simp add: opens_def)

lemma opens_committed: "opens tx e e' \<Longrightarrow> env_committed e' = env_committed e"
  by (simp add: opens_def)

lemma opens_tree: "opens tx e e' \<Longrightarrow> store_tree e' tx n = store_tree e tx n"
  by (simp add: opens_def)

definition opened :: "('b, 'x) env \<Rightarrow> nat \<Rightarrow> string \<Rightarrow> bool \<Rightarrow> nat \<Rightarrow> nat \<Rightarrow> bool" where
  "opened e tx n dup d c \<longleftrightarrow> env_dbis e d = Some n \<and> cursor_home e c = Some (tx, n)
     \<and> (\<exists>db. txn_db e tx n = Some db \<and> db_dup db = dup)"

lemma opened_mono: "opened e tx n dup d c \<Longrightarrow> opens tx e e' \<Longrightarrow> opened e' tx n dup d c"
  by (auto simp: opened_def opens_def)

text \<open>A transaction that can write, in which a database that exists has the flags of the program.\<close>

definition writable :: "('b, 'x) env \<Rightarrow> nat \<Rightarrow> bool" where
  "writable e tx \<longleftrightarrow> (\<exists>x. env_txns e tx = Some x \<and> \<not> txn_rdonly x)"

definition flag_ok :: "('b, 'x) env \<Rightarrow> nat \<Rightarrow> string \<Rightarrow> bool \<Rightarrow> bool" where
  "flag_ok e tx n dup \<longleftrightarrow> (\<forall>db. txn_db e tx n = Some db \<longrightarrow> db_dup db = dup)"

lemma opens_writable: "writable e tx \<Longrightarrow> opens tx e e' \<Longrightarrow> writable e' tx"
proof -
  assume "writable e tx" "opens tx e e'"
  then have "map_option txn_rdonly (env_txns e' tx) = Some False" by (auto simp: writable_def opens_def)
  then show ?thesis by (auto simp: writable_def)
qed

lemma store_ok_iff:
  "store_ok names ts tx e \<longleftrightarrow> writable e tx \<and>
     (\<forall>(n, dup) \<in> set names. \<exists>d c. map_of ts n = Some (d, c) \<and> opened e tx n dup d c)"
  unfolding store_ok_def writable_def opened_def by fast

lemma dbi_open_ok:
  assumes L: "lmdb_ok bsize L" and w: "writable e tx" and create: "MDB_CREATE \<in> set fl"
    and flag: "flag_ok e tx n (MDB_DUPSORT \<in> set fl)"
    and g: "mdb_dbi_open L tx n fl e = (rc, h, e')"
  shows "rc = MDB_DBS_FULL \<and> opens tx e e' \<and> env_cmp e' = env_cmp e
      \<and> (\<forall>m. m \<noteq> n \<longrightarrow> txn_db e' tx m = txn_db e tx m)
    \<or> rc = MDB_SUCCESS \<and> opens tx e e' \<and> env_cmp e' = env_cmp e \<and> env_dbis e' h = Some n
      \<and> (\<exists>db. txn_db e' tx n = Some db \<and> db_dup db = (MDB_DUPSORT \<in> set fl))
      \<and> (\<forall>m. m \<noteq> n \<longrightarrow> txn_db e' tx m = txn_db e tx m)"
proof -
  obtain x where x: "env_txns e tx = Some x" "\<not> txn_rdonly x" using w by (auto simp: writable_def)
  have "dbi_open_spec L" using L by (simp add: lmdb_ok_def)
  from this [unfolded dbi_open_spec_def, rule_format, of e tx x n fl rc h e'] x g create
  have s: "env_committed e' = env_committed e" "env_cmp e' = env_cmp e" "env_cursors e' = env_cursors e"
    "rc \<in> {MDB_SUCCESS, MDB_DBS_FULL}"
    "if rc = MDB_SUCCESS
        then (env_dbis e h = None \<or> env_dbis e h = Some n) \<and> env_dbis e' = (env_dbis e)(h \<mapsto> n)
          \<and> (if txn_dbs x n = None
             then MDB_CREATE \<in> set fl \<and> env_txns e' = (env_txns e)(tx \<mapsto> x\<lparr>txn_dbs := (txn_dbs x)
                    (n \<mapsto> \<lparr>db_dup = (MDB_DUPSORT \<in> set fl), db_tree = []\<rparr>)\<rparr>)
             else env_txns e' = env_txns e)
        else env_dbis e' = env_dbis e \<and> env_txns e' = env_txns e"
    by blast+
  show ?thesis
  proof (cases "rc = MDB_SUCCESS")
    case False
    then have "rc = MDB_DBS_FULL" "env_dbis e' = env_dbis e" "env_txns e' = env_txns e" using s(4,5) by auto
    then show ?thesis using s(1-3)
      by (simp add: opens_def cursor_home_def txn_db_def store_tree_def)
  next
    case True
    then have s5: "env_dbis e h = None \<or> env_dbis e h = Some n" "env_dbis e' = (env_dbis e)(h \<mapsto> n)"
      "if txn_dbs x n = None
             then env_txns e' = (env_txns e)(tx \<mapsto> x\<lparr>txn_dbs := (txn_dbs x)
                    (n \<mapsto> \<lparr>db_dup = (MDB_DUPSORT \<in> set fl), db_tree = []\<rparr>)\<rparr>)
             else env_txns e' = env_txns e" using s(5) by (simp_all split: if_splits)
    have db: "txn_db e' tx m = (if m = n \<and> txn_dbs x n = None
        then Some \<lparr>db_dup = (MDB_DUPSORT \<in> set fl), db_tree = []\<rparr> else txn_db e tx m)" for m
      using s5(3) x(1) by (simp add: txn_db_def split: if_splits)
    have "opens tx e e'"
      using s(1-3) s5 x db
      by (auto simp: opens_def cursor_home_def store_tree_def txn_db_def split: if_splits)
    moreover have "\<exists>db. txn_db e' tx n = Some db \<and> db_dup db = (MDB_DUPSORT \<in> set fl)"
    proof (cases "txn_dbs x n")
      case (Some d)
      then show ?thesis using flag x(1) db [of n] by (simp add: flag_ok_def txn_db_def)
    qed (simp add: db)
    ultimately show ?thesis using True s(2) s5(2) db by simp
  qed
qed

text \<open>The whole of \<^verbatim>\<open>init_btree\<close>.\<close>

definition new_cmp :: "string \<Rightarrow> ('b item \<Rightarrow> 'b item \<Rightarrow> int) option \<Rightarrow>
    (string \<Rightarrow> 'b item \<Rightarrow> 'b item \<Rightarrow> int) \<Rightarrow> string \<Rightarrow> 'b item \<Rightarrow> 'b item \<Rightarrow> int" where
  "new_cmp n dupsort cmps = (case dupsort of None \<Rightarrow> cmps | Some cmp \<Rightarrow> cmps(n := cmp))"

lemma cursor_open_opened:
  assumes L: "lmdb_ok bsize L" and d: "env_dbis e d = Some n"
    and db: "txn_db e tx n = Some db" and g: "mdb_cursor_open L tx d e = (rc, c, e')"
  shows "opens tx e e'" and "txn_db e' tx m = txn_db e tx m" and "env_cmp e' = env_cmp e"
    and "env_dbis e' = env_dbis e" and "rc \<noteq> EINVAL \<longrightarrow> opened e' tx n (db_dup db) d c"
proof -
  have "cursor_open_spec L" using L by (simp add: lmdb_ok_def)
  from this [unfolded cursor_open_spec_def, rule_format, of e d n tx db rc c e'] d db g
  have c: "env_committed e' = env_committed e" "env_dbis e' = env_dbis e" "env_cmp e' = env_cmp e"
    "env_txns e' = env_txns e" "rc \<in> {MDB_SUCCESS, EINVAL}"
    "if rc = MDB_SUCCESS
      then env_cursors e c = None
        \<and> env_cursors e' = (env_cursors e)(c \<mapsto> \<lparr>cu_txn = tx, cu_db = n, cu_pos = None\<rparr>)
      else env_cursors e' = env_cursors e" by blast+
  have t: "txn_db e' tx m = txn_db e tx m" for m using c(4) by (simp add: txn_db_def store_tree_def)
  then show "txn_db e' tx m = txn_db e tx m" .
  show "env_cmp e' = env_cmp e" "env_dbis e' = env_dbis e" by (fact c(3), fact c(2))
  show "opens tx e e'"
    using c by (auto simp: opens_def txn_db_def store_tree_def cursor_home_def split: if_splits)
  show "rc \<noteq> EINVAL \<longrightarrow> opened e' tx n (db_dup db) d c"
    using c(5,6) d c(2) db t by (auto simp: opened_def cursor_home_def)
qed

lemma set_dupsort_opens:
  assumes L: "lmdb_ok bsize L" and d: "env_dbis e d = Some n" and g: "mdb_set_dupsort L tx d cmp e = (rc, e')"
  shows "opens tx e e'" and "txn_db e' tx m = txn_db e tx m"
    and "rc = EINVAL \<and> env_cmp e' = env_cmp e \<or> rc = MDB_SUCCESS \<and> env_cmp e' = (env_cmp e)(n := cmp)"
proof -
  have "set_dupsort_spec L" using L by (simp add: lmdb_ok_def)
  from this [unfolded set_dupsort_spec_def, rule_format, of e d n tx cmp rc e'] d g
  have d: "env_committed e' = env_committed e" "env_dbis e' = env_dbis e" "env_cursors e' = env_cursors e"
    "env_txns e' = env_txns e" "rc \<in> {MDB_SUCCESS, EINVAL}"
    "env_cmp e' = (if rc = MDB_SUCCESS then (env_cmp e)(n := cmp) else env_cmp e)" by simp_all
  then show "opens tx e e'" "txn_db e' tx m = txn_db e tx m"
    by (simp_all add: opens_def txn_db_def store_tree_def cursor_home_def)
  show "rc = EINVAL \<and> env_cmp e' = env_cmp e \<or> rc = MDB_SUCCESS \<and> env_cmp e' = (env_cmp e)(n := cmp)"
    using d(5,6) by auto
qed

lemma init_btree_ok:
  assumes L: "lmdb_ok bsize L" and w: "writable e tx" and create: "MDB_CREATE \<in> set fl"
    and flag: "flag_ok e tx n (MDB_DUPSORT \<in> set fl)"
  shows "\<exists>r e'. init_btree L tx n fl dupsort (e, s) = (r, (e', s)) \<and> opens tx e e'
    \<and> (\<forall>m. m \<noteq> n \<longrightarrow> txn_db e' tx m = txn_db e tx m \<and> env_cmp e' m = env_cmp e m)
    \<and> (r = Inl (InternalError FATAL)
      \<or> (\<exists>d c. r = Inr (d, c) \<and> opened e' tx n (MDB_DUPSORT \<in> set fl) d c
           \<and> env_cmp e' = new_cmp n dupsort (env_cmp e)))"
proof -
  obtain rc d e1 where g: "mdb_dbi_open L tx n fl e = (rc, d, e1)" by (metis prod_cases3)
  obtain rc2 c e2 where g2: "mdb_cursor_open L tx d e1 = (rc2, c, e2)" by (metis prod_cases3)
  have run: "init_btree L tx n fl dupsort (e, s) =
      (if rc = MDB_NOTFOUND \<or> rc = MDB_DBS_FULL then (Inl (InternalError FATAL), (e1, s))
       else if rc2 = EINVAL then (Inl (InternalError FATAL), (e2, s))
       else case dupsort of None \<Rightarrow> (Inr (d, c), (e2, s))
         | Some cmp \<Rightarrow> (case mdb_set_dupsort L tx d cmp e2 of (res, e3) \<Rightarrow>
             if res = EINVAL then (Inl (InternalError FATAL), (e3, s)) else (Inr (d, c), (e3, s))))"
    by (simp add: init_btree_def g g2 bindS_def critical_def result_simps split: option.split prod.split)
  from dbi_open_ok [OF L w create flag g] show ?thesis
  proof (elim disjE conjE)
    assume "rc = MDB_DBS_FULL" "opens tx e e1" "env_cmp e1 = env_cmp e"
      "\<forall>m. m \<noteq> n \<longrightarrow> txn_db e1 tx m = txn_db e tx m"
    then show ?thesis using run by auto
  next
    assume rc: "rc = MDB_SUCCESS" and o1: "opens tx e e1" "env_cmp e1 = env_cmp e" "env_dbis e1 d = Some n"
      "\<exists>db. txn_db e1 tx n = Some db \<and> db_dup db = (MDB_DUPSORT \<in> set fl)"
      "\<forall>m. m \<noteq> n \<longrightarrow> txn_db e1 tx m = txn_db e tx m"
    then obtain db where db: "txn_db e1 tx n = Some db" "db_dup db = (MDB_DUPSORT \<in> set fl)" by blast
    note c = cursor_open_opened [OF L o1(3) db(1) g2, unfolded db(2)]
    note o02 = opens_trans [OF o1(1) c(1)]
    show ?thesis
    proof (cases "rc2 = EINVAL \<or> dupsort = None")
      case True
      then show ?thesis using run rc o02 o1 c by (auto simp: new_cmp_def)
    next
      case False
      then obtain cmp where cmp: "dupsort = Some cmp" by auto
      obtain rc3 e3 where g3: "mdb_set_dupsort L tx d cmp e2 = (rc3, e3)" by (metis prod.exhaust)
      have "env_dbis e2 d = Some n" using c(4) o1(3) by simp
      note d = set_dupsort_opens [OF L this g3]
      have "opened e3 tx n (MDB_DUPSORT \<in> set fl) d c" using opened_mono [OF _ d(1)] c(5) False by blast
      then show ?thesis
        using d(2,3) run rc False opens_trans [OF o02 d(1)] o1(2,5) c(2,3)
        by (auto simp: cmp g3 new_cmp_def)
    qed
  qed
qed

section \<open>Opening the trees of a store\<close>

lemma store_ok_open:
  assumes "store_ok names ts tx e" and "opens tx e e'" and "opened e' tx n dup d c" and "n \<notin> fst ` set names"
  shows "store_ok ((n, dup) # names) (AList.update n (d, c) ts) tx e'"
proof -
  have "\<exists>d' c'. map_of (AList.update n (d, c) ts) m = Some (d', c') \<and> opened e' tx m dup' d' c'"
    if m: "(m, dup') \<in> set names" for m dup'
  proof -
    have "m \<noteq> n" using assms(4) m by force
    then show ?thesis using assms(1) m opened_mono [OF _ assms(2)]
      by (fastforce simp: store_ok_iff update_conv')
  qed
  moreover have "writable e' tx" using opens_writable [OF _ assms(2)] assms(1) by (simp add: store_ok_iff)
  ultimately show ?thesis using assms(3) by (auto simp: store_ok_iff update_conv')
qed

lemma store_ok_empty: "store_ok [] ts tx e \<longleftrightarrow> writable e tx"
  by (simp add: store_ok_iff)

lemma store_ok_perm: "set names = set names' \<Longrightarrow> store_ok names ts tx e \<Longrightarrow> store_ok names' ts tx e"
  by (simp add: store_ok_iff)

text \<open>The names in the table of handles: distinct, and names of the store.\<close>

definition handles_of :: "string set \<Rightarrow> trees \<Rightarrow> bool" where
  "handles_of ns ts \<longleftrightarrow> distinct (map fst ts) \<and> fst ` set ts \<subseteq> ns"

lemma handles_of_update: "handles_of ns ts \<Longrightarrow> n \<in> ns \<Longrightarrow> handles_of ns (AList.update n h ts)"
  by (simp add: handles_of_def distinct_update dom_update update_keys split: if_splits)

lemma handles_of_length:
  assumes "handles_of ns ts" and "store_ok names ts tx e" and "fst ` set names = ns"
  shows "length ts = card ns"
proof -
  have "ns \<subseteq> fst ` set ts"
    using assms(2,3) by (force simp: store_ok_iff dest: map_of_SomeD)
  then have "fst ` set ts = ns" using assms(1) by (auto simp: handles_of_def)
  then show ?thesis using assms(1) distinct_card [of "map fst ts"] by (simp add: handles_of_def)
qed

section \<open>One tree of a store\<close>

definition untouched :: "string set \<Rightarrow> nat \<Rightarrow> ('b, 'x) env \<Rightarrow> ('b, 'x) env \<Rightarrow> bool" where
  "untouched ns tx e e' \<longleftrightarrow> (\<forall>m. m \<notin> ns \<longrightarrow> txn_db e' tx m = txn_db e tx m \<and> env_cmp e' m = env_cmp e m)"

lemma untouched_refl [simp]: "untouched ns tx e e"
  by (simp add: untouched_def)

lemma untouched_trans: "untouched ns tx e e' \<Longrightarrow> untouched ns tx e' e'' \<Longrightarrow> untouched ns tx e e''"
  by (simp add: untouched_def)

lemma untouched_mono: "untouched ns tx e e' \<Longrightarrow> ns \<subseteq> ns' \<Longrightarrow> untouched ns' tx e e'"
  by (auto simp: untouched_def)

lemma untouched_flag: "untouched ns tx e e' \<Longrightarrow> n \<notin> ns \<Longrightarrow> flag_ok e' tx n dup = flag_ok e tx n dup"
  by (simp add: untouched_def flag_ok_def)

text \<open>What holds at any time while the trees \<open>ns\<close> are opened from \<open>e0\<close> on.\<close>

definition during :: "string set \<Rightarrow> nat \<Rightarrow> ('b, 'x) env \<Rightarrow> ('b, 'x) env \<times> 's \<Rightarrow> bool" where
  "during ns tx e0 = (\<lambda>(e, s). opens tx e0 e \<and> untouched ns tx e0 e)"

lemma during_step:
  "during ns tx e0 (e, s) \<Longrightarrow> opens tx e e' \<Longrightarrow> untouched ns tx e e' \<Longrightarrow> during ns tx e0 (e', s')"
  by (auto simp: during_def intro: opens_trans untouched_trans)

lemma open_tree_runs:
  assumes L: "lmdb_ok bsize L" and st: "store_ok names ts tx e" and create: "MDB_CREATE \<in> set fl"
    and flag: "flag_ok e tx n dup" and dup: "dup = (MDB_DUPSORT \<in> set fl)" and n: "n \<notin> fst ` set names" "n \<in> ns"
    and a: "during ns tx e0 (e, s)"
  shows "runs (bindS (init_btree L tx n fl dupsort) (\<lambda>h. modifyS (\<lambda>(e, s). (e, upd h s)))) (e, s)
    (during ns tx e0)
    (\<lambda>_ (e', s'). \<exists>h. s' = upd h s \<and> store_ok ((n, dup) # names) (AList.update n h ts) tx e'
       \<and> env_cmp e' = new_cmp n dupsort (env_cmp e) \<and> untouched {n} tx e e')"
proof -
  have w: "writable e tx" using st by (simp add: store_ok_iff)
  obtain r e' where r: "init_btree L tx n fl dupsort (e, s) = (r, (e', s))" "opens tx e e'" "untouched {n} tx e e'"
    "r = Inl (InternalError FATAL) \<or> (\<exists>d c. r = Inr (d, c) \<and> opened e' tx n dup d c
           \<and> env_cmp e' = new_cmp n dupsort (env_cmp e))"
    using init_btree_ok [OF L w create flag [unfolded dup], of dupsort s, folded dup] by (auto simp: untouched_def)
  have a': "during ns tx e0 (e', s')" for s' :: 'c
    by (rule during_step [OF a r(2) untouched_mono [OF r(3)]]) (use n(2) in simp)
  from r(4) show ?thesis
  proof (elim disjE exE conjE)
    assume "r = Inl (InternalError FATAL)"
    then show ?thesis using r(1) a' by (simp add: runs_def bindS_def)
  next
    fix d c assume h: "r = Inr (d, c)" "opened e' tx n dup d c" "env_cmp e' = new_cmp n dupsort (env_cmp e)"
    have "store_ok ((n, dup) # names) (AList.update n (d, c) ts) tx e'"
      by (rule store_ok_open [OF st r(2) h(2) n(1)])
    then show ?thesis using r(1,3) h(1,3) a' by (auto simp: runs_def bindS_def result_simps)
  qed
qed

text \<open>Calls that only read.\<close>

lemma step_on_opens: "step_on tx {} e e' \<Longrightarrow> opens tx e e'"
  by (simp add: step_on_def frame_def opens_def store_tree_def)

lemma step_on_untouched: "step_on tx {} e e' \<Longrightarrow> untouched ns tx e e'"
  by (simp add: step_on_def frame_def untouched_def)

lemma during_read: "during ns tx e0 (e, s) \<Longrightarrow> step_on tx {} e e' \<Longrightarrow> during ns tx e0 (e', s')"
  by (rule during_step [OF _ step_on_opens step_on_untouched])

lemma during_start [simp]: "during ns tx e (e, s)"
  by (simp add: during_def)

end
