(* ===== verification/Opening.thy ===== *)
theory Opening
  imports Tx_Store_Refinement Wsv_Refinement Store_Opening
begin

text \<open>
  Opening the two stores in a new append transaction, at the start and after every commit and
  rollback: what a store knows afterwards is a function of what was committed.
\<close>

section \<open>The transaction store\<close>

text \<open>Some trees of the store are open in the new transaction.\<close>

definition txs_part :: "(string \<times> bool) list \<Rightarrow> nat \<Rightarrow> ('b, 'x) env \<Rightarrow> txstore \<Rightarrow> ('b, 'x) env \<times> txstore \<Rightarrow> bool" where
  "txs_part names tx e0 s0 = (\<lambda>(e, s). store_ok names (ts_trees s) tx e \<and> env_cmp e = env_cmp e0
     \<and> untouched (fst ` set names) tx e0 e \<and> handles_of txs_set (ts_trees s)
     \<and> ts_append_tx s = tx \<and> ts_merkle s = ts_merkle s0)"

lemma create_new_tree_runs:
  assumes L: "lmdb_ok bsize L" and p: "txs_part names tx e0 s0 (e, s)" and a: "during txs_set tx e0 (e, s)"
    and fl: "MDB_CREATE \<in> set fl" "dup = (MDB_DUPSORT \<in> set fl)"
    and n: "flag_ok e0 tx n dup" "n \<notin> fst ` set names" "n \<in> txs_set"
  shows "runs (create_new_tree L tx n fl) (e, s) (during txs_set tx e0) (\<lambda>_. txs_part ((n, dup) # names) tx e0 s0)"
proof -
  have st: "store_ok names (ts_trees s) tx e" and u: "untouched (fst ` set names) tx e0 e"
    using p by (simp_all add: txs_part_def)
  have "runs (create_new_tree L tx n fl) (e, s) (during txs_set tx e0)
      (\<lambda>_ (e', s'). \<exists>h. s' = s\<lparr>ts_trees := AList.update n h (ts_trees s)\<rparr>
        \<and> store_ok ((n, dup) # names) (AList.update n h (ts_trees s)) tx e'
        \<and> env_cmp e' = new_cmp n None (env_cmp e) \<and> untouched {n} tx e e')"
    unfolding create_new_tree_def modify_txs_def
    by (rule open_tree_runs [OF L st fl(1) _ fl(2) n(2,3) a]) (simp only: untouched_flag [OF u n(2)] n(1))
  then show ?thesis
  proof (rule runs_weaken, clarify)
    fix e' d c
    assume h: "store_ok ((n, dup) # names) (AList.update n (d, c) (ts_trees s)) tx e'"
      "env_cmp e' = new_cmp n None (env_cmp e)" "untouched {n} tx e e'"
    have "untouched (fst ` set ((n, dup) # names)) tx e0 e'"
      by (rule untouched_trans [OF untouched_mono [OF u] untouched_mono [OF h(3)]]) auto
    then show "txs_part ((n, dup) # names) tx e0 s0 (e', s\<lparr>ts_trees := AList.update n (d, c) (ts_trees s)\<rparr>)"
      using h p n(3) by (simp add: txs_part_def new_cmp_def handles_of_update)
  qed
qed

lemma txs_part_perm: "set names = set names' \<Longrightarrow> txs_part names tx e0 s0 t \<Longrightarrow> txs_part names' tx e0 s0 t"
  by (auto simp: txs_part_def intro: store_ok_perm)

lemma create_index_trees_runs:
  assumes L: "lmdb_ok bsize L"
  shows "txs_part names tx e0 s0 (e, s) \<Longrightarrow> during txs_set tx e0 (e, s) \<Longrightarrow>
    \<forall>n \<in> set ns. flag_ok e0 tx n True \<Longrightarrow> distinct ns \<Longrightarrow> set ns \<inter> fst ` set names = {} \<Longrightarrow> set ns \<subseteq> txs_set \<Longrightarrow>
    runs (create_index_trees L tx ns) (e, s) (during txs_set tx e0)
      (\<lambda>_. txs_part (map (\<lambda>n. (n, True)) ns @ names) tx e0 s0)"
proof (induction ns arbitrary: e s names)
  case (Cons n ns)
  have "runs (create_new_tree L tx n [MDB_DUPSORT, MDB_DUPFIXED, MDB_CREATE]) (e, s) (during txs_set tx e0)
      (\<lambda>_. txs_part ((n, True) # names) tx e0 s0)"
    by (rule create_new_tree_runs [OF L Cons.prems(1,2)]) (use Cons.prems(3,5,6) in auto)
  then show ?case unfolding create_index_trees.simps
  proof (rule runs_bind)
    fix u and t :: "('a, 'b) env \<times> txstore"
    assume t: "during txs_set tx e0 t" "txs_part ((n, True) # names) tx e0 s0 t"
    have "runs (create_index_trees L tx ns) t (during txs_set tx e0)
        (\<lambda>_. txs_part (map (\<lambda>n. (n, True)) ns @ (n, True) # names) tx e0 s0)"
      using Cons.IH [of "(n, True) # names" "fst t" "snd t"] t Cons.prems(3-6) by auto
    then show "runs (create_index_trees L tx ns) t (during txs_set tx e0)
        (\<lambda>_. txs_part (map (\<lambda>n. (n, True)) (n # ns) @ names) tx e0 s0)"
      by (rule runs_weaken) (rule txs_part_perm, auto)
  qed
qed simp

lemma last_upt_tree: "map fst t = map INum [1..<Suc n] \<Longrightarrow> t \<noteq> [] \<Longrightarrow> fst (t ! (length t - 1)) = INum n"
proof -
  assume t: "map fst t = map INum [1..<Suc n]" "t \<noteq> []"
  from arg_cong [OF t(1), of length] have l: "length t = n" by simp
  then have "0 < n" using t(2) by (cases n) simp_all
  then show ?thesis using arg_cong [OF t(1), of "\<lambda>xs. xs ! (n - 1)"] l by (simp del: upt_Suc)
qed

lemma set_tx_total_ok:
  assumes L: "lmdb_ok bsize L" and st: "store_ok txs_names (ts_trees s) tx e"
    and t: "map fst (store_tree e tx ''tx_store'') = map INum [1..<Suc n]"
  shows "\<exists>r e' s'. set_tx_total L (e, s) = (r, (e', s')) \<and> step_on tx {} e e'
    \<and> (r = Inl (InternalError FATAL) \<or> r = Inr () \<and> s' = s\<lparr>ts_total := n\<rparr>)"
proof -
  let ?t = "store_tree e tx ''tx_store''"
  obtain d c where h: "map_of (ts_trees s) ''tx_store'' = Some (d, c)"
    using store_okD [OF st txs_names_mem(1)] by blast
  obtain rc k v e1 where g: "mdb_cursor_get L c MDB_LAST (IStr []) (IStr []) e = (rc, k, v, e1)"
    by (metis prod_cases4)
  have sg: "step_on tx {} e e1" "rc = EINVAL \<or> rc = MDB_NOTFOUND \<and> ?t = []
      \<or> rc = MDB_SUCCESS \<and> ?t \<noteq> [] \<and> (k, v) = ?t ! (length ?t - 1)"
    using cursor_seek [OF L store_reads [OF st txs_names_mem(1) h] g] by (auto simp: get_target_def split: if_splits)
  have run: "set_tx_total L (e, s) =
      (if rc = MDB_NOTFOUND then (Inr (), (e1, s\<lparr>ts_total := 0\<rparr>))
       else if rc = EINVAL then (Inl (InternalError FATAL), (e1, s))
       else if rc \<noteq> MDB_SUCCESS then (Inr (), (e1, s))
       else (case k of INum n \<Rightarrow> (Inr (), (e1, s\<lparr>ts_total := n\<rparr>)) | _ \<Rightarrow> (Inl Undefined, (e1, s))))"
    by (simp add: set_tx_total_def bindS_def txs_tree_def trees_at_def h cursor_get_def g result_simps
        critical_def whenS_def modify_txs_def split: item.split)
  consider "rc = EINVAL" | "rc = MDB_NOTFOUND" "?t = []"
    | "rc = MDB_SUCCESS" "?t \<noteq> []" "(k, v) = ?t ! (length ?t - 1)" using sg(2) by metis
  then show ?thesis
  proof cases
    case 1
    then show ?thesis using run sg(1) by simp
  next
    case 2
    then have "n = 0" using t by (cases n) simp_all
    then show ?thesis using run 2 sg(1) by simp
  next
    case 3
    then have "k = INum n" using last_upt_tree [OF t] by (metis fst_conv)
    then show ?thesis using run 3(1) sg(1) by simp
  qed
qed

lemma txs_finish_runs:
  assumes L: "lmdb_ok bsize L" and a: "during txs_set tx e0 (e, s)" and p: "txs_part txs_names tx e0 s0 (e, s)"
    and t: "map fst (store_tree e0 tx ''tx_store'') = map INum [1..<Suc n]"
  shows "runs (bindS (set_tx_total L) (\<lambda>_. bindS txs_get_trees_total
      (\<lambda>n. bindS getS (\<lambda>(e, s). assertS (n = length (ts_trees s)))))) (e, s) (during txs_set tx e0)
    (\<lambda>_ (e', s'). env_cmp e' = env_cmp e0 \<and> txs_ok e' s' \<and> ts_append_tx s' = tx \<and> ts_total s' = n
       \<and> ts_merkle s' = ts_merkle s0 \<and> handles_of txs_set (ts_trees s'))"
proof -
  have st: "store_ok txs_names (ts_trees s) tx e" and h: "handles_of txs_set (ts_trees s)"
    and o: "env_cmp e = env_cmp e0" "ts_append_tx s = tx" "ts_merkle s = ts_merkle s0"
    using p by (simp_all add: txs_part_def)
  have te: "store_tree e tx m = store_tree e0 tx m" for m using a opens_tree [of tx e0 e] by (simp add: during_def)
  obtain r e' s' where r: "set_tx_total L (e, s) = (r, (e', s'))" "step_on tx {} e e'"
    "r = Inl (InternalError FATAL) \<or> r = Inr () \<and> s' = s\<lparr>ts_total := n\<rparr>"
    using set_tx_total_ok [OF L st, of n] t by (auto simp: te)
  note a' = during_read [OF a r(2)]
  have len: "length (ts_trees s) = 18"
  proof -
    have "length (ts_trees s) = card txs_set" by (rule handles_of_length [OF h st refl])
    also have "\<dots> = 18" by (simp add: txs_names_def index_names_def)
    finally show ?thesis .
  qed
  show ?thesis
  proof (rule runs_bind)
    show "runs (set_tx_total L) (e, s) (during txs_set tx e0) (\<lambda>_ t. t = (e', s\<lparr>ts_total := n\<rparr>))"
      unfolding runs_iff using r(1,3) a' by auto
    fix u t1 assume t1: "t1 = (e', s\<lparr>ts_total := n\<rparr>)"
    have "txs_ok e' (s\<lparr>ts_total := n, ts_trees_total := 18\<rparr>)"
      using store_ok_step [OF st r(2)] step_on_tree [OF r(2)] t by (simp add: txs_ok_def ttree_def o te)
    then show "runs (bindS txs_get_trees_total (\<lambda>n. bindS getS (\<lambda>(e, s). assertS (n = length (ts_trees s))))) t1
        (during txs_set tx e0)
        (\<lambda>_ (e', s'). env_cmp e' = env_cmp e0 \<and> txs_ok e' s' \<and> ts_append_tx s' = tx \<and> ts_total s' = n
           \<and> ts_merkle s' = ts_merkle s0 \<and> handles_of txs_set (ts_trees s'))"
      using a' h o step_on_cmp [OF r(2)] len
      by (simp add: runs_def txs_get_trees_total_def bindS_def modify_txs_def result_simps t1)
  qed
qed

text \<open>The initialisation opens the trees, then reads the number of transactions.\<close>

definition txs_opening :: "('b, 'x) lmdb \<Rightarrow> nat \<Rightarrow> ('b, 'x, unit) txs_op" where
  "txs_opening L tx =
     bindS (modify_txs (\<lambda>s. s\<lparr>ts_append_tx := tx\<rparr>)) (\<lambda>_.
     bindS (create_new_tree L tx ''tx_store'' [MDB_CREATE, MDB_INTEGERKEY]) (\<lambda>_.
     bindS (create_new_tree L tx ''merkle_tree'' [MDB_CREATE, MDB_INTEGERKEY]) (\<lambda>_.
     create_index_trees L tx index_names)))"

lemma txs_init_eq:
  "txs_init L tx = bindS (txs_opening L tx) (\<lambda>_. bindS (set_tx_total L) (\<lambda>_. bindS txs_get_trees_total
     (\<lambda>n. bindS getS (\<lambda>(e, s). assertS (n = length (ts_trees s))))))"
  by (simp add: txs_init_def txs_opening_def bindS_assoc)

lemma txs_opening_runs:
  assumes L: "lmdb_ok bsize L" and w: "writable e tx" and flags: "\<forall>(n, dup) \<in> set txs_names. flag_ok e tx n dup"
    and hs: "handles_of txs_set (ts_trees s)"
  shows "runs (txs_opening L tx) (e, s) (during txs_set tx e) (\<lambda>_. txs_part txs_names tx e s)" (is "runs _ _ ?A _")
  unfolding txs_opening_def
proof (rule runs_bind)
  let ?P = "\<lambda>names. \<lambda>_ :: unit. txs_part names tx e s"
  have f: "flag_ok e tx ''tx_store'' False" "flag_ok e tx ''merkle_tree'' False"
    "\<forall>n \<in> set index_names. flag_ok e tx n True" using flags by (auto simp: txs_names_def)
  show "runs (modify_txs (\<lambda>s. s\<lparr>ts_append_tx := tx\<rparr>)) (e, s) ?A (?P [])"
    using w hs by (simp add: modify_txs_def txs_part_def store_ok_empty)
  fix u1 t1 assume t1: "?A t1" "?P [] u1 t1"
  obtain e1 s1 where e1: "t1 = (e1, s1)" by (cases t1)
  show "runs (bindS (create_new_tree L tx ''tx_store'' [MDB_CREATE, MDB_INTEGERKEY])
     (\<lambda>_. bindS (create_new_tree L tx ''merkle_tree'' [MDB_CREATE, MDB_INTEGERKEY])
     (\<lambda>_. create_index_trees L tx index_names))) t1 ?A (?P txs_names)"
  proof (rule runs_bind)
    show "runs (create_new_tree L tx ''tx_store'' [MDB_CREATE, MDB_INTEGERKEY]) t1 ?A (?P [(''tx_store'', False)])"
      using t1 unfolding e1 by (intro create_new_tree_runs [OF L]) (simp_all add: f txs_names_def)
    fix u2 t2 assume t2: "?A t2" "?P [(''tx_store'', False)] u2 t2"
    obtain e2 s2 where e2: "t2 = (e2, s2)" by (cases t2)
    show "runs (bindS (create_new_tree L tx ''merkle_tree'' [MDB_CREATE, MDB_INTEGERKEY])
       (\<lambda>_. create_index_trees L tx index_names)) t2 ?A (?P txs_names)"
    proof (rule runs_bind)
      show "runs (create_new_tree L tx ''merkle_tree'' [MDB_CREATE, MDB_INTEGERKEY]) t2 ?A
          (?P [(''merkle_tree'', False), (''tx_store'', False)])"
        using t2 unfolding e2 by (intro create_new_tree_runs [OF L]) (simp_all add: f txs_names_def)
      fix u3 t3 assume t3: "?A t3" "?P [(''merkle_tree'', False), (''tx_store'', False)] u3 t3"
      obtain e3 s3 where e3: "t3 = (e3, s3)" by (cases t3)
      have "runs (create_index_trees L tx index_names) t3 ?A
          (?P (map (\<lambda>n. (n, True)) index_names @ [(''merkle_tree'', False), (''tx_store'', False)]))"
        using t3 unfolding e3
        by (intro create_index_trees_runs [OF L]) (use f in \<open>auto simp: index_names_def txs_names_def\<close>)
      then show "runs (create_index_trees L tx index_names) t3 ?A (?P txs_names)"
        by (rule runs_weaken) (rule txs_part_perm, auto simp: txs_names_def)
    qed
  qed
qed

lemma txs_init_runs:
  assumes L: "lmdb_ok bsize L" and w: "writable e tx" and flags: "\<forall>(n, dup) \<in> set txs_names. flag_ok e tx n dup"
    and hs: "handles_of txs_set (ts_trees s)"
    and t: "map fst (store_tree e tx ''tx_store'') = map INum [1..<Suc n]"
  shows "runs (txs_init L tx) (e, s) (during txs_set tx e)
    (\<lambda>_ (e', s'). env_cmp e' = env_cmp e \<and> txs_ok e' s' \<and> ts_append_tx s' = tx \<and> ts_total s' = n
       \<and> ts_merkle s' = ts_merkle s \<and> handles_of txs_set (ts_trees s'))"
  unfolding txs_init_eq
proof (rule runs_bind [OF txs_opening_runs [OF L w flags hs]])
  fix u and t' :: "('a, 'b) env \<times> txstore"
  assume "during txs_set tx e t'" "txs_part txs_names tx e s t'"
  then show "runs (bindS (set_tx_total L) (\<lambda>_. bindS txs_get_trees_total
      (\<lambda>n. bindS getS (\<lambda>(e, s). assertS (n = length (ts_trees s)))))) t' (during txs_set tx e)
    (\<lambda>_ (e', s'). env_cmp e' = env_cmp e \<and> txs_ok e' s' \<and> ts_append_tx s' = tx \<and> ts_total s' = n
       \<and> ts_merkle s' = ts_merkle s \<and> handles_of txs_set (ts_trees s'))"
    using txs_finish_runs [OF L _ _ t, of "fst t'" "snd t'" s] by simp
qed

section \<open>The world state view\<close>

text \<open>What the view needs of the contents of its trees.\<close>

definition created_ok :: "'b fb \<Rightarrow> 'b tree \<Rightarrow> bool" where
  "created_ok F t \<longleftrightarrow> nodup t
     \<and> (\<forall>(k, v) \<in> set t. \<exists>s b. k = IStr s \<and> v = IBlob b \<and> item_pk F (IBlob b) = Some s)"

definition wsv_data_ok :: "'b fb \<Rightarrow> (string \<Rightarrow> 'b tree) \<Rightarrow> bool" where
  "wsv_data_ok F t \<longleftrightarrow> assets_ok F (t ''wsv_pubkey_assets'') \<and> nodup (t ''wsv_pubkey_account'')
     \<and> created_ok F (t ''wsv_assetid_asset'') \<and> nodup (t ''wsv_ip_peer'')"

definition created_map :: "'b tree \<Rightarrow> string \<Rightarrow> 'b option" where
  "created_map t s = (case tmap t (IStr s) of Some (IBlob b) \<Rightarrow> Some b | _ \<Rightarrow> None)"

lemma tmap_Cons: "tmap ((k, v) # t) k' = (if k = k' then Some v else tmap t k')"
  by (simp add: tmap_def)

lemma foldR_created:
  "nodup t \<Longrightarrow> \<forall>(k, v) \<in> set t. \<exists>s b. k = IStr s \<and> v = IBlob b \<Longrightarrow>
     foldR created_step t m = Inr (\<lambda>s. case tmap t (IStr s) of Some (IBlob b) \<Rightarrow> Some b | _ \<Rightarrow> m s)"
proof (induction t arbitrary: m)
  case Nil
  then show ?case by (simp add: tmap_def)
next
  case (Cons r t)
  obtain s b where r: "r = (IStr s, IBlob b)" using Cons.prems(2) by (cases r) auto
  have t: "nodup t" "IStr s \<notin> tkeys t" using Cons.prems(1) r by (auto simp: nodup_def tkeys_def)
  have none: "tmap t (IStr s) = None" using t(2) by (simp add: tmap_None)
  have "foldR created_step (r # t) m = foldR created_step t (m(s \<mapsto> b))" by (simp add: r)
  also have "\<dots> = Inr (\<lambda>s'. case tmap t (IStr s') of Some (IBlob b) \<Rightarrow> Some b | _ \<Rightarrow> (m(s \<mapsto> b)) s')"
    using Cons.IH [OF t(1)] Cons.prems(2) by simp
  also have "\<dots> = Inr (\<lambda>s'. case tmap (r # t) (IStr s') of Some (IBlob b) \<Rightarrow> Some b | _ \<Rightarrow> m s')"
    using none by (auto simp: r tmap_Cons fun_eq_iff split: option.splits item.splits)
  finally show ?case .
qed

lemma created_map_ok:
  assumes "created_ok F t"
  shows "foldR created_step t (\<lambda>_. None) = Inr (created_map t)"
    "tmap t (IStr s) = map_option IBlob (created_map t s)"
    "created_map t s = Some b \<Longrightarrow> item_pk F (IBlob b) = Some s"
    "tmap t k \<noteq> None \<Longrightarrow> \<exists>s. k = IStr s"
proof -
  have t: "nodup t" "\<forall>(k, v) \<in> set t. \<exists>s b. k = IStr s \<and> v = IBlob b"
    using assms by (auto simp: created_ok_def)
  show "foldR created_step t (\<lambda>_. None) = Inr (created_map t)"
    using foldR_created [OF t, of "\<lambda>_. None"] by (simp add: created_map_def [abs_def])
  have mem: "(k, v) \<in> set t" if "tmap t k = Some v" for k v
    using tget_nodup [OF t(1), of k] that set_tget [of v t k] by simp
  have val: "\<exists>s b. k = IStr s \<and> v = IBlob b \<and> item_pk F (IBlob b) = Some s" if "tmap t k = Some v" for k v
    using mem [OF that] assms by (auto simp: created_ok_def)
  show "tmap t (IStr s) = map_option IBlob (created_map t s)"
    using val by (fastforce simp: created_map_def split: option.splits)
  show "created_map t s = Some b \<Longrightarrow> item_pk F (IBlob b) = Some s"
    using val by (fastforce simp: created_map_def split: option.splits item.splits)
  show "tmap t k \<noteq> None \<Longrightarrow> \<exists>s. k = IStr s" using val by blast
qed

lemma wsv_ok_data:
  assumes "wsv_ok F e w"
  shows "wsv_data_ok F (wtree e w)" "w_created_assets w = created_map (wtree e w ''wsv_assetid_asset'')"
proof -
  let ?t = "wtree e w ''wsv_assetid_asset''"
  note o = wsv_okD [OF assms]
  have "\<exists>s b. k = IStr s \<and> v = IBlob b \<and> item_pk F (IBlob b) = Some s" if kv: "(k, v) \<in> set ?t" for k v
  proof -
    have "tget ?t k = [v]" using tget_nodup [OF o(5), of k] kv set_tget [of v ?t k]
      by (auto split: option.splits)
    then have v: "tmap ?t k = Some v" by (simp add: tmap_def)
    then obtain s where "k = IStr s" using o(9) by blast
    then show ?thesis using o(7) [of s] o(8) v by auto
  qed
  then have c: "created_ok F ?t" using o(5) by (auto simp: created_ok_def)
  then show "wsv_data_ok F (wtree e w)" using o(3,4,6) by (simp add: wsv_data_ok_def)
  have "map_option IBlob (w_created_assets w s) = map_option IBlob (created_map ?t s)" for s
    using o(7) [of s] created_map_ok(2) [OF c, of s] by simp
  then show "w_created_assets w = created_map ?t"
    by (intro ext) (metis (no_types, lifting) item.inject(3) option.inj_map_strong)
qed

lemma wsv_ok_intro:
  assumes "store_ok wsv_names (w_trees w) (w_append_tx w) e" and "env_cmp e ''wsv_pubkey_assets'' = cmp_assets F"
    and d: "wsv_data_ok F (wtree e w)" and "w_created_assets w = created_map (wtree e w ''wsv_assetid_asset'')"
  shows "wsv_ok F e w"
proof -
  have c: "created_ok F (wtree e w ''wsv_assetid_asset'')" using d by (simp add: wsv_data_ok_def)
  then have "nodup (wtree e w ''wsv_assetid_asset'')" by (simp add: created_ok_def)
  then show ?thesis using assms created_map_ok(2-4) [OF c] by (auto simp: wsv_ok_def wsv_data_ok_def)
qed

definition wsv_part :: "(string \<times> bool) list \<Rightarrow> nat \<Rightarrow> ('b, 'x) env \<Rightarrow>
    (string \<Rightarrow> 'b item \<Rightarrow> 'b item \<Rightarrow> int) \<Rightarrow> ('b, 'x) env \<times> 'b wsv \<Rightarrow> bool" where
  "wsv_part names tx e0 cmps = (\<lambda>(e, w). store_ok names (w_trees w) tx e \<and> env_cmp e = cmps
     \<and> untouched (fst ` set names) tx e0 e \<and> handles_of wsv_set (w_trees w) \<and> w_append_tx w = tx)"

lemma wsv_part_perm: "set names = set names' \<Longrightarrow> wsv_part names tx e0 c t \<Longrightarrow> wsv_part names' tx e0 c t"
  by (auto simp: wsv_part_def intro: store_ok_perm)

lemma wsv_open_tree_runs:
  assumes L: "lmdb_ok bsize L" and p: "wsv_part names tx e0 cmps (e, w)" and a: "during wsv_set tx e0 (e, w)"
    and fl: "MDB_CREATE \<in> set fl" "dup = (MDB_DUPSORT \<in> set fl)"
    and n: "flag_ok e0 tx n dup" "n \<notin> fst ` set names" "n \<in> wsv_set"
  shows "runs (wsv_open_tree L tx n fl dupsort) (e, w) (during wsv_set tx e0)
    (\<lambda>_. wsv_part ((n, dup) # names) tx e0 (new_cmp n dupsort cmps))"
proof -
  have st: "store_ok names (w_trees w) tx e" and u: "untouched (fst ` set names) tx e0 e"
    using p by (simp_all add: wsv_part_def)
  have "runs (wsv_open_tree L tx n fl dupsort) (e, w) (during wsv_set tx e0)
      (\<lambda>_ (e', w'). \<exists>h. w' = w\<lparr>w_trees := AList.update n h (w_trees w)\<rparr>
        \<and> store_ok ((n, dup) # names) (AList.update n h (w_trees w)) tx e'
        \<and> env_cmp e' = new_cmp n dupsort (env_cmp e) \<and> untouched {n} tx e e')"
    unfolding wsv_open_tree_def modify_wsv_def
    by (rule open_tree_runs [OF L st fl(1) _ fl(2) n(2,3) a]) (simp only: untouched_flag [OF u n(2)] n(1))
  then show ?thesis
  proof (rule runs_weaken, clarify)
    fix e' d c
    assume h: "store_ok ((n, dup) # names) (AList.update n (d, c) (w_trees w)) tx e'"
      "env_cmp e' = new_cmp n dupsort (env_cmp e)" "untouched {n} tx e e'"
    have "untouched (fst ` set ((n, dup) # names)) tx e0 e'"
      by (rule untouched_trans [OF untouched_mono [OF u] untouched_mono [OF h(3)]]) auto
    then show "wsv_part ((n, dup) # names) tx e0 (new_cmp n dupsort cmps)
        (e', w\<lparr>w_trees := AList.update n (d, c) (w_trees w)\<rparr>)"
      using h p n(3) by (simp add: wsv_part_def handles_of_update)
  qed
qed

lemma wsv_finish_runs:
  assumes L: "lmdb_ok (fb_size F) L" and a: "during wsv_set tx e0 (e, w)"
    and p: "wsv_part wsv_names tx e0 cmps (e, w)" and cmp: "cmps ''wsv_pubkey_assets'' = cmp_assets F"
    and d: "wsv_data_ok F (store_tree e0 tx)"
  shows "runs (bindS (read_created_assets L) (\<lambda>_. bindS wsv_get_trees_total
      (\<lambda>n. bindS getS (\<lambda>(e, w). assertS (n = length (w_trees w)))))) (e, w) (during wsv_set tx e0)
    (\<lambda>_ (e', w'). env_cmp e' = cmps \<and> wsv_ok F e' w' \<and> w_append_tx w' = tx \<and> handles_of wsv_set (w_trees w'))"
proof -
  let ?n = "''wsv_assetid_asset''"
  have st: "store_ok wsv_names (w_trees w) tx e" and h: "handles_of wsv_set (w_trees w)"
    and o: "env_cmp e = cmps" "w_append_tx w = tx"
    using p by (simp_all add: wsv_part_def)
  have te: "store_tree e tx m = store_tree e0 tx m" for m
    using a opens_tree [of tx e0 e] by (simp add: during_def)
  have n: "(?n, False) \<in> set wsv_names" by (simp add: wsv_names_def)
  obtain hd c where c: "map_of (w_trees w) ?n = Some (hd, c)" using store_okD [OF st n] by blast
  obtain r e' where r: "read_all_records L c (e, w) = (r, (e', w))" "step_on tx {} e e'"
    "r = Inl (InternalError FATAL) \<or> r = Inr (store_tree e0 tx ?n)"
    using read_all_ok [OF L store_reads [OF st n c], of w] unfolding te by blast
  have cr: "created_ok F (store_tree e0 tx ?n)" using d by (simp add: wsv_data_ok_def)
  define w1 where "w1 = w\<lparr>w_created_assets := created_map (store_tree e0 tx ?n)\<rparr>"
  have read: "runs (read_created_assets L) (e, w) (during wsv_set tx e0) (\<lambda>_ t. t = (e', w1))"
    using r(3) during_read [OF a r(2)] created_map_ok(1) [OF cr]
    by (auto simp: runs_def read_created_assets_def bindS_def wsv_tree_def trees_at_def c r(1) modify_wsv_def
        result_simps w1_def)
  have len: "length (w_trees w) = 4"
  proof -
    have "length (w_trees w) = card wsv_set" by (rule handles_of_length [OF h st refl])
    also have "\<dots> = 4" by (simp add: wsv_names_def)
    finally show ?thesis .
  qed
  show ?thesis
  proof (rule runs_bind [OF read])
    fix u t assume t: "t = (e', w1)"
    have "wtree e' (w1\<lparr>w_trees_total := 4\<rparr>) = store_tree e0 tx"
      using step_on_tree [OF r(2)] te o by (simp add: wtree_def w1_def fun_eq_iff)
    then have "wsv_ok F e' (w1\<lparr>w_trees_total := 4\<rparr>)"
      using store_ok_step [OF st r(2)] step_on_cmp [OF r(2)] cmp o d
      by (intro wsv_ok_intro) (simp_all add: w1_def)
    then show "runs (bindS wsv_get_trees_total (\<lambda>n. bindS getS (\<lambda>(e, w). assertS (n = length (w_trees w)))))
        t (during wsv_set tx e0)
        (\<lambda>_ (e', w'). env_cmp e' = cmps \<and> wsv_ok F e' w' \<and> w_append_tx w' = tx \<and> handles_of wsv_set (w_trees w'))"
      using during_read [OF a r(2)] h o step_on_cmp [OF r(2)] len
      by (simp add: runs_def wsv_get_trees_total_def bindS_def modify_wsv_def result_simps t)
         (simp add: w1_def)
  qed
qed

text \<open>The initialisation opens the trees, then reads the table of created assets.\<close>

definition wsv_opening :: "'b fb \<Rightarrow> ('b, 'x) lmdb \<Rightarrow> nat \<Rightarrow> ('b, 'x, unit) wsv_op" where
  "wsv_opening F L tx =
     bindS (modify_wsv (\<lambda>w. w\<lparr>w_append_tx := tx\<rparr>)) (\<lambda>_.
     bindS (wsv_open_tree L tx ''wsv_pubkey_assets'' [MDB_DUPSORT, MDB_DUPFIXED, MDB_CREATE]
        (Some (cmp_assets F))) (\<lambda>_.
     bindS (wsv_open_tree L tx ''wsv_pubkey_account'' [MDB_CREATE] None) (\<lambda>_.
     bindS (wsv_open_tree L tx ''wsv_assetid_asset'' [MDB_CREATE] None) (\<lambda>_.
     wsv_open_tree L tx ''wsv_ip_peer'' [MDB_CREATE] None))))"

lemma wsv_init_eq:
  "wsv_init F L tx = bindS (wsv_opening F L tx) (\<lambda>_. bindS (read_created_assets L) (\<lambda>_. bindS wsv_get_trees_total
     (\<lambda>n. bindS getS (\<lambda>(e, w). assertS (n = length (w_trees w))))))"
  by (simp add: wsv_init_def wsv_opening_def bindS_assoc)

lemma wsv_opening_runs:
  assumes L: "lmdb_ok (fb_size F) L" and w: "writable e tx" and flags: "\<forall>(n, dup) \<in> set wsv_names. flag_ok e tx n dup"
    and hs: "handles_of wsv_set (w_trees w)"
  shows "runs (wsv_opening F L tx) (e, w) (during wsv_set tx e)
    (\<lambda>_. wsv_part wsv_names tx e ((env_cmp e)(''wsv_pubkey_assets'' := cmp_assets F)))" (is "runs _ _ ?A ?Q")
  unfolding wsv_opening_def
proof (rule runs_bind)
  let ?c = "(env_cmp e)(''wsv_pubkey_assets'' := cmp_assets F)"
  let ?P = "\<lambda>names cmps. \<lambda>_ :: unit. wsv_part names tx e cmps"
  have f: "flag_ok e tx ''wsv_pubkey_assets'' True" "flag_ok e tx ''wsv_pubkey_account'' False"
    "flag_ok e tx ''wsv_assetid_asset'' False" "flag_ok e tx ''wsv_ip_peer'' False"
    using flags by (auto simp: wsv_names_def)
  note tree = wsv_open_tree_runs [OF L]
  note c = new_cmp_def wsv_names_def
  show "runs (modify_wsv (\<lambda>w. w\<lparr>w_append_tx := tx\<rparr>)) (e, w) ?A (?P [] (env_cmp e))"
    using w hs by (simp add: modify_wsv_def wsv_part_def store_ok_empty)
  fix u1 t1 assume t1: "?A t1" "?P [] (env_cmp e) u1 t1"
  show "runs (bindS (wsv_open_tree L tx ''wsv_pubkey_assets'' [MDB_DUPSORT, MDB_DUPFIXED, MDB_CREATE]
        (Some (cmp_assets F))) (\<lambda>_.
     bindS (wsv_open_tree L tx ''wsv_pubkey_account'' [MDB_CREATE] None) (\<lambda>_.
     bindS (wsv_open_tree L tx ''wsv_assetid_asset'' [MDB_CREATE] None) (\<lambda>_.
     wsv_open_tree L tx ''wsv_ip_peer'' [MDB_CREATE] None)))) t1 ?A ?Q"
  proof (rule runs_bind)
    let ?n1 = "[(''wsv_pubkey_assets'', True)]"
    show "runs (wsv_open_tree L tx ''wsv_pubkey_assets'' [MDB_DUPSORT, MDB_DUPFIXED, MDB_CREATE]
        (Some (cmp_assets F))) t1 ?A (?P ?n1 ?c)"
      using tree [of "[]" tx e "env_cmp e" "fst t1" "snd t1" "[MDB_DUPSORT, MDB_DUPFIXED, MDB_CREATE]" True
          "''wsv_pubkey_assets''" "Some (cmp_assets F)"] t1 f by (simp add: c)
    fix u2 t2 assume t2: "?A t2" "?P ?n1 ?c u2 t2"
    show "runs (bindS (wsv_open_tree L tx ''wsv_pubkey_account'' [MDB_CREATE] None) (\<lambda>_.
     bindS (wsv_open_tree L tx ''wsv_assetid_asset'' [MDB_CREATE] None) (\<lambda>_.
     wsv_open_tree L tx ''wsv_ip_peer'' [MDB_CREATE] None))) t2 ?A ?Q"
    proof (rule runs_bind)
      let ?n2 = "(''wsv_pubkey_account'', False) # ?n1"
      show "runs (wsv_open_tree L tx ''wsv_pubkey_account'' [MDB_CREATE] None) t2 ?A (?P ?n2 ?c)"
        using tree [of ?n1 tx e ?c "fst t2" "snd t2" "[MDB_CREATE]" False "''wsv_pubkey_account''" None] t2 f
        by (simp add: c)
      fix u3 t3 assume t3: "?A t3" "?P ?n2 ?c u3 t3"
      show "runs (bindS (wsv_open_tree L tx ''wsv_assetid_asset'' [MDB_CREATE] None) (\<lambda>_.
       wsv_open_tree L tx ''wsv_ip_peer'' [MDB_CREATE] None)) t3 ?A ?Q"
      proof (rule runs_bind)
        let ?n3 = "(''wsv_assetid_asset'', False) # ?n2"
        show "runs (wsv_open_tree L tx ''wsv_assetid_asset'' [MDB_CREATE] None) t3 ?A (?P ?n3 ?c)"
          using tree [of ?n2 tx e ?c "fst t3" "snd t3" "[MDB_CREATE]" False "''wsv_assetid_asset''" None] t3 f
          by (simp add: c)
        fix u4 t4 assume t4: "?A t4" "?P ?n3 ?c u4 t4"
        have "runs (wsv_open_tree L tx ''wsv_ip_peer'' [MDB_CREATE] None) t4 ?A
            (?P ((''wsv_ip_peer'', False) # ?n3) ?c)"
          using tree [of ?n3 tx e ?c "fst t4" "snd t4" "[MDB_CREATE]" False "''wsv_ip_peer''" None] t4 f
          by (simp add: c)
        then show "runs (wsv_open_tree L tx ''wsv_ip_peer'' [MDB_CREATE] None) t4 ?A ?Q"
          by (rule runs_weaken) (rule wsv_part_perm, auto simp: wsv_names_def)
      qed
    qed
  qed
qed

lemma wsv_init_runs:
  assumes L: "lmdb_ok (fb_size F) L" and w: "writable e tx" and flags: "\<forall>(n, dup) \<in> set wsv_names. flag_ok e tx n dup"
    and hs: "handles_of wsv_set (w_trees w)" and d: "wsv_data_ok F (store_tree e tx)"
  shows "runs (wsv_init F L tx) (e, w) (during wsv_set tx e)
    (\<lambda>_ (e', w'). env_cmp e' = (env_cmp e)(''wsv_pubkey_assets'' := cmp_assets F)
       \<and> wsv_ok F e' w' \<and> w_append_tx w' = tx \<and> handles_of wsv_set (w_trees w'))" (is "runs _ _ ?A ?Q")
  unfolding wsv_init_eq
proof (rule runs_bind [OF wsv_opening_runs [OF L w flags hs]])
  fix u and t' :: "('a, 'b) env \<times> 'a wsv"
  assume "?A t'" "wsv_part wsv_names tx e ((env_cmp e)(''wsv_pubkey_assets'' := cmp_assets F)) t'"
  then show "runs (bindS (read_created_assets L) (\<lambda>_. bindS wsv_get_trees_total
      (\<lambda>n. bindS getS (\<lambda>(e, w). assertS (n = length (w_trees w)))))) t' ?A ?Q"
    using wsv_finish_runs [OF L, of tx e "fst t'" "snd t'"] d by simp
qed

end
