(* ===== verification/Ametsuchi_Refinement.thy ===== *)
theory Ametsuchi_Refinement
  imports Ametsuchi Opening
begin

text \<open>
  What the database promises: a log of transactions, the hashes in its Merkle tree and a ledger,
  once as the open transaction sees them and once as they were committed last.  Every operation of
  \<open>Ametsuchi\<close> either reports a fatal error of the database or acts on them as specified.
\<close>

section \<open>The contents of the trees\<close>

text \<open>The databases of both stores have the flags they are opened with.\<close>

definition flags_ok :: "(string \<Rightarrow> 'b db option) \<Rightarrow> bool" where
  "flags_ok dbs \<longleftrightarrow> (\<forall>(n, dup) \<in> set (txs_names @ wsv_names). \<forall>d. dbs n = Some d \<longrightarrow> db_dup d = dup)"

text \<open>What holds of the trees: numbered transactions, indices of them, a ledger.\<close>

definition trees_ok :: "'b fb \<Rightarrow> (string \<Rightarrow> 'b tree) \<Rightarrow> bool" where
  "trees_ok F t \<longleftrightarrow>
     map fst (t ''tx_store'') = map INum [1..<Suc (length (t ''tx_store''))]
     \<and> (\<forall>n \<in> set index_names - transfer_indices. set (t n) = index_of F (t ''tx_store'') n)
     \<and> wsv_data_ok F t"

definition db_ok :: "'b fb \<Rightarrow> (string \<Rightarrow> 'b db option) \<Rightarrow> bool" where
  "db_ok F dbs \<longleftrightarrow> flags_ok dbs \<and> trees_ok F (dbs_tree dbs)"

definition ledger_of :: "'b fb \<Rightarrow> (string \<Rightarrow> 'b tree) \<Rightarrow> 'b ledger" where
  "ledger_of F t =
     \<lparr>lg_assets = hold F (t ''wsv_pubkey_assets''),
      lg_accounts = (\<lambda>s. tmap (t ''wsv_pubkey_account'') (IStr s)),
      lg_created = created_map (t ''wsv_assetid_asset''),
      lg_peers = (\<lambda>s. tmap (t ''wsv_ip_peer'') (IStr s))\<rparr>"

definition log_of :: "(string \<Rightarrow> 'b tree) \<Rightarrow> 'b item list" where
  "log_of t = map snd (t ''tx_store'')"

lemma wsv_abs_ledger: "wsv_ok F e w \<Longrightarrow> wsv_abs F e w = ledger_of F (wtree e w)"
  by (simp add: wsv_abs_def ledger_of_def wsv_ok_data(2))

lemma names_disjoint: "txs_set \<inter> wsv_set = {}" "''wsv_pubkey_assets'' \<notin> set index_names"
  by (simp_all add: txs_names_def wsv_names_def index_names_def)

lemma created_empty: "created_ok F []" "created_map [] = (\<lambda>_. None)"
  by (simp_all add: created_ok_def nodup_def created_map_def tmap_def fun_eq_iff)

lemma db_ok_empty: "db_ok F (\<lambda>_. None)"
  by (simp add: db_ok_def flags_ok_def trees_ok_def wsv_data_ok_def assets_ok_def created_empty
      nodup_def index_of_def)

section \<open>The invariant\<close>

text \<open>
  The members of an open database: one append transaction, known to both stores, whose trees are
  consistent, as are the committed ones.
\<close>

definition am_ok :: "'b fb \<Rightarrow> ('b, 'x) env \<Rightarrow> 'b ametsuchi \<Rightarrow> bool" where
  "am_ok F e a \<longleftrightarrow>
     am_append_tx a = Some (ts_append_tx (am_txs a)) \<and> w_append_tx (am_wsv a) = ts_append_tx (am_txs a)
     \<and> txs_ok e (am_txs a) \<and> indices_ok F e (am_txs a) \<and> wsv_ok F e (am_wsv a)
     \<and> handles_of txs_set (ts_trees (am_txs a)) \<and> handles_of wsv_set (w_trees (am_wsv a))
     \<and> db_ok F (env_committed e)"

lemma am_okD:
  assumes "am_ok F e a"
  shows "am_append_tx a = Some (ts_append_tx (am_txs a))" "w_append_tx (am_wsv a) = ts_append_tx (am_txs a)"
    "txs_ok e (am_txs a)" "indices_ok F e (am_txs a)" "wsv_ok F e (am_wsv a)"
    "handles_of txs_set (ts_trees (am_txs a))" "handles_of wsv_set (w_trees (am_wsv a))"
    "db_ok F (env_committed e)"
  using assms by (simp_all add: am_ok_def)

abbreviation am_trees :: "('b, 'x) env \<Rightarrow> 'b ametsuchi \<Rightarrow> string \<Rightarrow> 'b tree" where
  "am_trees e a \<equiv> store_tree e (ts_append_tx (am_txs a))"

lemma am_ok_trees:
  assumes "am_ok F e a"
  shows "trees_ok F (am_trees e a)" "length (am_trees e a ''tx_store'') = ts_total (am_txs a)"
    "wsv_abs F e (am_wsv a) = ledger_of F (am_trees e a)" "txs_log e (am_txs a) = log_of (am_trees e a)"
proof -
  note o = am_okD [OF assms]
  have wt: "wtree e (am_wsv a) = am_trees e a" using o(2) by (simp add: wtree_def fun_eq_iff)
  have keys: "map fst (am_trees e a ''tx_store'') = map INum [1..<Suc (ts_total (am_txs a))]"
    using txs_okD(2) [OF o(3)] by (simp add: ttree_def)
  from arg_cong [OF keys, of length] show len: "length (am_trees e a ''tx_store'') = ts_total (am_txs a)" by simp
  show "trees_ok F (am_trees e a)"
    using keys o(4) wsv_ok_data(1) [OF o(5)] by (simp add: trees_ok_def len wt indices_ok_def ttree_def)
  show "wsv_abs F e (am_wsv a) = ledger_of F (am_trees e a)" using wsv_abs_ledger [OF o(5)] wt by simp
  show "txs_log e (am_txs a) = log_of (am_trees e a)" by (simp add: txs_log_def log_of_def ttree_def)
qed

text \<open>The databases that a commit makes permanent.\<close>

lemma am_ok_txn:
  assumes "am_ok F e a"
  obtains x where "env_txns e (ts_append_tx (am_txs a)) = Some x" "\<not> txn_rdonly x" "db_ok F (txn_dbs x)"
    "am_trees e a = dbs_tree (txn_dbs x)"
proof -
  note o = am_okD [OF assms]
  let ?tx = "ts_append_tx (am_txs a)"
  note st = txs_okD(1) [OF o(3)]
  obtain x where x: "env_txns e ?tx = Some x" "\<not> txn_rdonly x" using st by (auto simp: store_ok_def)
  note t = store_tree_dbs [OF x(1)]
  have "db_dup d = dup" if "(n, dup) \<in> set (txs_names @ wsv_names)" "txn_dbs x n = Some d" for n dup d
    using that store_okD [OF st, of n dup] store_okD [OF wsv_okD(1) [OF o(5)], of n dup] x(1) o(2)
    by (auto simp: txn_db_def)
  then have "db_ok F (txn_dbs x)"
    using am_ok_trees(1) [OF assms] t by (auto simp: db_ok_def flags_ok_def)
  then show ?thesis using that x t by blast
qed

section \<open>Closing\<close>

definition same_data :: "('b, 'x) env \<Rightarrow> ('b, 'x) env \<Rightarrow> bool" where
  "same_data e e' \<longleftrightarrow> env_committed e' = env_committed e \<and> env_dbis e' = env_dbis e
     \<and> env_cmp e' = env_cmp e \<and> env_txns e' = env_txns e"

lemma close_all_data: "lmdb_ok bsize L \<Longrightarrow> same_data e (close_all L ts e)"
proof (induction ts arbitrary: e)
  case (Cons h ts)
  obtain n d c where h: "h = (n, d, c)" by (metis prod_cases3)
  have "close_spec L" using Cons.prems by (simp add: lmdb_ok_def)
  then have "same_data e (mdb_cursor_close L c e)" by (simp add: close_spec_def Let_def same_data_def)
  then show ?case using Cons.IH [OF Cons.prems, of "mdb_cursor_close L c e"]
    by (simp add: close_all_def h same_data_def)
qed (simp add: close_all_def same_data_def)

lemma am_close_cursors_ok:
  assumes L: "lmdb_ok bsize L"
  shows "\<exists>e'. am_close_cursors L (e, a) = (Inr (), (e', a)) \<and> same_data e e'"
proof -
  let ?e1 = "close_all L (ts_trees (am_txs a)) e"
  have "am_close_cursors L (e, a) = (Inr (), (close_all L (w_trees (am_wsv a)) ?e1, a))"
    by (simp add: am_close_cursors_def on_txs_def on_wsv_def txs_close_cursors_def wsv_close_cursors_def
        bindS_def result_simps envS_def)
  then show ?thesis using close_all_data [OF L, of e] close_all_data [OF L, of ?e1] by (simp add: same_data_def)
qed

text \<open>No transaction is open: what \<^verbatim>\<open>init_append_tx\<close> starts from.\<close>

definition between :: "'b fb \<Rightarrow> ('b, 'x) env \<Rightarrow> 'b ametsuchi \<Rightarrow> bool" where
  "between F e a \<longleftrightarrow> db_ok F (env_committed e)
     \<and> (\<forall>n \<in> set index_names - transfer_indices. \<forall>x y. env_cmp e n x y = 0 \<longleftrightarrow> x = y)
     \<and> handles_of txs_set (ts_trees (am_txs a)) \<and> handles_of wsv_set (w_trees (am_wsv a))"

lemma am_ok_between:
  assumes "am_ok F e a" and "env_cmp e' = env_cmp e" and "db_ok F (env_committed e')"
  shows "between F e' a"
  using assms by (simp add: am_ok_def between_def indices_ok_def)

lemma am_abort_ok:
  assumes L: "lmdb_ok bsize L" and a: "am_ok F e a"
  shows "\<exists>e'. am_abort_append_tx L (e, a) = (Inr (), (e', a)) \<and> between F e' a
    \<and> env_committed e' = env_committed e"
proof -
  let ?tx = "ts_append_tx (am_txs a)"
  obtain e1 where e1: "am_close_cursors L (e, a) = (Inr (), (e1, a))" "same_data e e1"
    using am_close_cursors_ok [OF L] by blast
  obtain x where x: "env_txns e1 ?tx = Some x" using am_ok_txn [OF a] e1(2) by (metis same_data_def)
  have "abort_spec L" using L by (simp add: lmdb_ok_def)
  from this [unfolded abort_spec_def, rule_format, OF x]
  have ab: "env_committed (mdb_txn_abort L ?tx e1) = env_committed e" "env_cmp (mdb_txn_abort L ?tx e1) = env_cmp e"
    using e1(2) by (simp_all add: Let_def same_data_def)
  have "am_abort_append_tx L (e, a) = (Inr (), (mdb_txn_abort L ?tx e1, a))"
    using am_okD(1) [OF a] by (simp add: am_abort_append_tx_def bindS_def e1(1) result_simps envS_def)
  then show ?thesis using am_ok_between [OF a ab(2)] am_okD(8) [OF a] ab(1) by simp
qed

section \<open>A new append transaction\<close>

lemma opens_store_ok: "store_ok names ts tx e \<Longrightarrow> opens tx e e' \<Longrightarrow> store_ok names ts tx e'"
  unfolding store_ok_iff by (blast intro: opens_writable opened_mono)

lemma opens_txs_ok: "txs_ok e s \<Longrightarrow> opens (ts_append_tx s) e e' \<Longrightarrow> txs_ok e' s"
  using opens_store_ok [of txs_names "ts_trees s" "ts_append_tx s" e e'] by (simp add: txs_ok_def ttree_def opens_tree)

lemma runs_on_txs:
  assumes "runs m (e, am_txs a) A Q"
    and "\<And>x e' s'. A (e', s') \<Longrightarrow> Q x (e', s') \<Longrightarrow> Q' x (e', a\<lparr>am_txs := s'\<rparr>)"
    and "\<And>e' s'. A (e', s') \<Longrightarrow> A' (e', a\<lparr>am_txs := s'\<rparr>)"
  shows "runs (on_txs m) (e, a) A' Q'"
  using assms(1) assms(2,3) by (auto simp: runs_def on_txs_def split: prod.splits sum.splits)

lemma runs_on_wsv:
  assumes "runs m (e, am_wsv a) A Q"
    and "\<And>x e' w'. A (e', w') \<Longrightarrow> Q x (e', w') \<Longrightarrow> Q' x (e', a\<lparr>am_wsv := w'\<rparr>)"
    and "\<And>e' w'. A (e', w') \<Longrightarrow> A' (e', a\<lparr>am_wsv := w'\<rparr>)"
  shows "runs (on_wsv m) (e, a) A' Q'"
  using assms(1) assms(2,3) by (auto simp: runs_def on_wsv_def split: prod.splits sum.splits)

text \<open>It sees what was committed; the Merkle tree is the one in memory.\<close>

definition committed_only :: "('b, 'x) env \<Rightarrow> ('b, 'x) env \<times> 'b ametsuchi \<Rightarrow> bool" where
  "committed_only e = (\<lambda>(e', a'). env_committed e' = env_committed e)"

definition fresh :: "'b fb \<Rightarrow> ('b, 'x) env \<Rightarrow> 'b ametsuchi \<Rightarrow> ('b, 'x) env \<times> 'b ametsuchi \<Rightarrow> bool" where
  "fresh F e a = (\<lambda>(e', a'). am_ok F e' a' \<and> am_trees e' a' = dbs_tree (env_committed e)
     \<and> ts_merkle (am_txs a') = ts_merkle (am_txs a) \<and> am_path a' = am_path a)"

text \<open>A transaction at work on the databases \<open>dbs\<close>, with these trees not yet open.\<close>

definition starts :: "(string \<times> bool) list \<Rightarrow> (string \<Rightarrow> 'b db option) \<Rightarrow> nat \<Rightarrow> ('b, 'x) env \<Rightarrow> bool" where
  "starts names dbs tx e \<longleftrightarrow> writable e tx \<and> env_committed e = dbs \<and> store_tree e tx = dbs_tree dbs
     \<and> (\<forall>(n, dup) \<in> set names. flag_ok e tx n dup)"

lemma begin_starts:
  assumes L: "lmdb_ok bsize L" and db: "flags_ok (env_committed e)" and g: "mdb_txn_begin L False e = (rc, tx, e1)"
  shows "rc \<in> {MDB_SUCCESS, MDB_PANIC, MDB_MAP_RESIZED, MDB_READERS_FULL, ENOMEM}"
    "env_committed e1 = env_committed e" "env_cmp e1 = env_cmp e"
    "rc = MDB_SUCCESS \<Longrightarrow> starts (txs_names @ wsv_names) (env_committed e) tx e1"
proof -
  have "begin_spec L" using L by (simp add: lmdb_ok_def)
  from this [unfolded begin_spec_def, rule_format, OF g]
  have b: "env_committed e1 = env_committed e" "env_cmp e1 = env_cmp e"
    "rc \<in> {MDB_SUCCESS, MDB_PANIC, MDB_MAP_RESIZED, MDB_READERS_FULL, ENOMEM}"
    "rc = MDB_SUCCESS \<Longrightarrow> env_txns e1 tx = Some \<lparr>txn_rdonly = False, txn_dbs = env_committed e\<rparr>"
    by (simp_all add: frame_def)
  show "rc \<in> {MDB_SUCCESS, MDB_PANIC, MDB_MAP_RESIZED, MDB_READERS_FULL, ENOMEM}"
    "env_committed e1 = env_committed e" "env_cmp e1 = env_cmp e" using b by simp_all
  show "starts (txs_names @ wsv_names) (env_committed e) tx e1" if "rc = MDB_SUCCESS"
  proof -
    note x = b(4) [OF that]
    have "flag_ok e1 tx n dup" if "(n, dup) \<in> set (txs_names @ wsv_names)" for n dup
      using db that x unfolding flags_ok_def flag_ok_def by (auto simp: txn_db_def simp del: set_append)
    then show ?thesis using b(1) x store_tree_dbs [OF x] unfolding starts_def writable_def by auto
  qed
qed

lemma starts_wsv:
  assumes "starts (txs_names @ wsv_names) dbs tx e1" and d: "during txs_set tx e1 (e2, s)"
  shows "starts wsv_names dbs tx e2"
proof -
  have o: "opens tx e1 e2" and u: "untouched txs_set tx e1 e2" using d by (simp_all add: during_def)
  have "flag_ok e2 tx n dup" if "(n, dup) \<in> set wsv_names" for n dup
  proof -
    have "n \<notin> txs_set" using names_disjoint(1) that by force
    moreover have "flag_ok e1 tx n dup" using assms(1) that unfolding starts_def by force
    ultimately show ?thesis using untouched_flag [OF u] by simp
  qed
  moreover have "store_tree e2 tx = dbs_tree dbs" using assms(1) opens_tree [OF o] by (simp add: starts_def fun_eq_iff)
  ultimately show ?thesis
    using assms(1) opens_writable [OF _ o] opens_committed [OF o] by (auto simp: starts_def)
qed

lemma starts_txs_init:
  assumes L: "lmdb_ok bsize L" and s: "starts (txs_names @ wsv_names) dbs tx e" and t: "trees_ok F (dbs_tree dbs)"
    and h: "handles_of txs_set (ts_trees ts)"
  shows "runs (txs_init L tx) (e, ts) (during txs_set tx e)
    (\<lambda>_ (e', s'). env_cmp e' = env_cmp e \<and> txs_ok e' s' \<and> ts_append_tx s' = tx
       \<and> ts_total s' = length (dbs_tree dbs ''tx_store'') \<and> ts_merkle s' = ts_merkle ts \<and> handles_of txs_set (ts_trees s'))"
  by (rule txs_init_runs [OF L _ _ h]) (use s t in \<open>auto simp: starts_def trees_ok_def\<close>)

lemma starts_wsv_init:
  assumes L: "lmdb_ok (fb_size F) L" and s: "starts wsv_names dbs tx e" and t: "trees_ok F (dbs_tree dbs)"
    and h: "handles_of wsv_set (w_trees w)"
  shows "runs (wsv_init F L tx) (e, w) (during wsv_set tx e)
    (\<lambda>_ (e', w'). env_cmp e' = (env_cmp e)(''wsv_pubkey_assets'' := cmp_assets F)
       \<and> wsv_ok F e' w' \<and> w_append_tx w' = tx \<and> handles_of wsv_set (w_trees w'))"
  by (rule wsv_init_runs [OF L _ _ h]) (use s t in \<open>auto simp: starts_def trees_ok_def\<close>)

text \<open>Both stores open on it: the invariant.\<close>

lemma fresh_intro:
  assumes b: "between F e a" and s: "starts wsv_names (env_committed e) tx e2"
    and txs: "txs_ok e2 s2" "ts_append_tx s2 = tx" "ts_merkle s2 = ts_merkle (am_txs a)" "handles_of txs_set (ts_trees s2)"
    and cmp: "env_cmp e2 = env_cmp e" "env_cmp e' = (env_cmp e2)(''wsv_pubkey_assets'' := cmp_assets F)"
    and o: "opens tx e2 e'"
    and wsv: "wsv_ok F e' w'" "w_append_tx w' = tx" "handles_of wsv_set (w_trees w')"
  shows "fresh F e a (e', a\<lparr>am_append_tx := Some tx, am_txs := s2, am_wsv := w'\<rparr>)"
proof -
  have t: "store_tree e' tx = dbs_tree (env_committed e)"
    using s opens_tree [OF o] by (simp add: starts_def fun_eq_iff)
  have "txs_ok e' s2" by (rule opens_txs_ok [OF txs(1)]) (simp add: txs(2) o)
  moreover have "indices_ok F e' s2"
  proof -
    have "env_cmp e' n = env_cmp e n" if "n \<in> set index_names" for n
      using names_disjoint(2) that cmp by auto
    then show ?thesis using b by (simp add: indices_ok_def ttree_def t txs(2) between_def db_ok_def trees_ok_def)
  qed
  moreover have "env_committed e' = env_committed e" using opens_committed [OF o] s by (simp add: starts_def)
  ultimately show ?thesis using b txs wsv t by (simp add: fresh_def am_ok_def between_def)
qed

lemma am_init_append_tx_eq:
  assumes L: "lmdb_ok bsize L" and db: "flags_ok (env_committed e)" and g: "mdb_txn_begin L False e = (rc, tx, e1)"
  shows "am_init_append_tx F L (e, a) = (if rc = MDB_SUCCESS
      then bindS (on_txs (txs_init L tx)) (\<lambda>_. on_wsv (wsv_init F L tx)) (e1, a\<lparr>am_append_tx := Some tx\<rparr>)
      else (Inl (InternalError FATAL), (e1, a)))"
  using begin_starts(1) [OF L db g]
  by (auto simp: am_init_append_tx_def g critical_def bindS_def modify_am_def result_simps)

lemma am_init_append_tx_runs:
  fixes L :: "('b, 'x) lmdb"
  assumes L: "lmdb_ok (fb_size F) L" and b: "between F e a"
  shows "runs (am_init_append_tx F L) (e, a) (committed_only e) (\<lambda>_. fresh F e a)"
proof -
  obtain rc tx e1 where g: "mdb_txn_begin L False e = (rc, tx, e1)" by (metis prod_cases3)
  let ?a1 = "a\<lparr>am_append_tx := Some tx\<rparr>" and ?dbs = "env_committed e"
  have db: "flags_ok ?dbs" "trees_ok F (dbs_tree ?dbs)" using b by (simp_all add: between_def db_ok_def)
  note st = begin_starts [OF L db(1) g] and run = am_init_append_tx_eq [OF L db(1) g, of F a]
  show ?thesis
  proof (cases "rc = MDB_SUCCESS")
    case False
    then show ?thesis using run st(2) by (simp add: runs_def committed_only_def)
  next
    case True
    have "handles_of txs_set (ts_trees (am_txs ?a1))" using b by (simp add: between_def)
    note txs = starts_txs_init [OF L st(4) [OF True] db(2) this]
    have "runs (bindS (on_txs (txs_init L tx)) (\<lambda>_. on_wsv (wsv_init F L tx))) (e1, ?a1)
      (committed_only e) (\<lambda>_. fresh F e a)"
    proof (rule runs_bind)
      show "runs (on_txs (txs_init L tx)) (e1, ?a1) (committed_only e)
        (\<lambda>_ (e', a'). \<exists>s'. a' = ?a1\<lparr>am_txs := s'\<rparr> \<and> during txs_set tx e1 (e', s')
           \<and> env_cmp e' = env_cmp e1 \<and> txs_ok e' s' \<and> ts_append_tx s' = tx
           \<and> ts_merkle s' = ts_merkle (am_txs a) \<and> handles_of txs_set (ts_trees s'))"
        by (rule runs_on_txs [OF txs]) (use st(2) in \<open>auto simp: committed_only_def during_def opens_committed\<close>)
      fix u and t2 :: "('b, 'x) env \<times> 'b ametsuchi"
      assume t2: "(\<lambda>(e', a'). \<exists>s'. a' = ?a1\<lparr>am_txs := s'\<rparr> \<and> during txs_set tx e1 (e', s')
           \<and> env_cmp e' = env_cmp e1 \<and> txs_ok e' s' \<and> ts_append_tx s' = tx
           \<and> ts_merkle s' = ts_merkle (am_txs a) \<and> handles_of txs_set (ts_trees s')) t2"
      obtain e2 s2 where e2: "t2 = (e2, ?a1\<lparr>am_txs := s2\<rparr>)" "during txs_set tx e1 (e2, s2)"
        "env_cmp e2 = env_cmp e1" "txs_ok e2 s2" "ts_append_tx s2 = tx"
        "ts_merkle s2 = ts_merkle (am_txs a)" "handles_of txs_set (ts_trees s2)"
        using t2 by (cases t2) auto
      let ?a2 = "?a1\<lparr>am_txs := s2\<rparr>"
      note s2 = starts_wsv [OF st(4) [OF True] e2(2)]
      have com: "env_committed e2 = ?dbs" using s2 by (simp add: starts_def)
      have "handles_of wsv_set (w_trees (am_wsv ?a2))" using b by (simp add: between_def)
      note wsv = starts_wsv_init [OF L s2 db(2) this]
      show "runs (on_wsv (wsv_init F L tx)) t2 (committed_only e) (\<lambda>_. fresh F e a)"
        unfolding e2(1)
      proof (rule runs_on_wsv [OF wsv])
        fix u e' and w' :: "'b wsv"
        assume "during wsv_set tx e2 (e', w')"
          and "(\<lambda>(e', w'). env_cmp e' = (env_cmp e2)(''wsv_pubkey_assets'' := cmp_assets F)
           \<and> wsv_ok F e' w' \<and> w_append_tx w' = tx \<and> handles_of wsv_set (w_trees w')) (e', w')"
        then show "fresh F e a (e', ?a2\<lparr>am_wsv := w'\<rparr>)"
          using fresh_intro [OF b s2 e2(4-7)] e2(3) st(3) by (simp add: during_def)
      next
        fix e' and w' :: "'b wsv" assume "during wsv_set tx e2 (e', w')"
        then have "opens tx e2 e'" by (simp add: during_def)
        then show "committed_only e (e', ?a2\<lparr>am_wsv := w'\<rparr>)"
          using opens_committed [of tx e2 e'] com by (simp add: committed_only_def)
      qed
    qed
    then show ?thesis using run True by (simp add: runs_def)
  qed
qed

end
