(* ===== verification/Ametsuchi_Runs.thy ===== *)
theory Ametsuchi_Runs
  imports Ametsuchi_Refinement "HOL-Library.Sublist"
begin

text \<open>
  The operations of an open database on its specification: what the open transaction sees, what
  was committed last, and the hashes in the Merkle tree.  \<open>am_run\<close> is any sequence of
  operations.
\<close>

section \<open>The specification\<close>

record 'b view =
  vw_log :: "'b item list"
  vw_ledger :: "'b ledger"

record 'b database =
  db_now :: "'b view"
  db_committed :: "'b view"
  db_hashes :: "hash_t list"

definition view_of :: "'b fb \<Rightarrow> (string \<Rightarrow> 'b tree) \<Rightarrow> 'b view" where
  "view_of F t = \<lparr>vw_log = log_of t, vw_ledger = ledger_of F t\<rparr>"

text \<open>
  The log takes the transaction whatever happens; the ledger sees it when the index and the
  Merkle tree took it; an error of the ledger does not undo them.
\<close>

definition spec_append :: "(byte list \<Rightarrow> hash_t) \<Rightarrow> 'b fb \<Rightarrow> 'b \<Rightarrow> 'b database \<Rightarrow>
    (error + hash_t) \<times> 'b database" where
  "spec_append sha3 F blob d =
     (let tx = fb_transaction F blob; log = vw_log (db_now d) @ [IBlob blob]; g = vw_ledger (db_now d)
      in case append_result sha3 10 (db_hashes d) tx of (res, hs) \<Rightarrow>
        (case res of
           Inl err \<Rightarrow> (Inl err, d\<lparr>db_now := \<lparr>vw_log = log, vw_ledger = g\<rparr>, db_hashes := hs\<rparr>)
         | Inr root \<Rightarrow> (case spec_update F (tx_command tx) g of (res', g') \<Rightarrow>
             (case res' of Inl err \<Rightarrow> Inl err | Inr _ \<Rightarrow> Inr root,
              d\<lparr>db_now := \<lparr>vw_log = log, vw_ledger = g'\<rparr>, db_hashes := hs\<rparr>))))"

definition spec_rollback :: "'b database \<Rightarrow> 'b database" where
  "spec_rollback d = d\<lparr>db_now := db_committed d\<rparr>"

definition spec_commit :: "'b database \<Rightarrow> 'b database" where
  "spec_commit d = d\<lparr>db_committed := db_now d\<rparr>"

definition am_rel :: "(byte list \<Rightarrow> hash_t) \<Rightarrow> 'b fb \<Rightarrow> ('b, 'x) env \<Rightarrow> 'b ametsuchi \<Rightarrow> 'b database \<Rightarrow> bool" where
  "am_rel sha3 F e a d \<longleftrightarrow> am_ok F e a
     \<and> db_now d = view_of F (am_trees e a) \<and> db_committed d = view_of F (dbs_tree (env_committed e))
     \<and> mt_run sha3 (2 ^ 10) 1 (db_hashes d) = Inr (ts_merkle (am_txs a))"

lemma am_relD:
  assumes "am_rel sha3 F e a d"
  shows "am_ok F e a" "db_now d = view_of F (am_trees e a)"
    "db_committed d = view_of F (dbs_tree (env_committed e))"
    "mt_run sha3 (2 ^ 10) 1 (db_hashes d) = Inr (ts_merkle (am_txs a))"
  using assms by (simp_all add: am_rel_def)

section \<open>Rollback\<close>

lemma am_rollback_runs:
  assumes L: "lmdb_ok (fb_size F) L" and a: "am_ok F e a"
  shows "runs (am_rollback F L) (e, a) (committed_only e) (\<lambda>_. fresh F e a)"
proof -
  obtain e1 where e1: "am_abort_append_tx L (e, a) = (Inr (), (e1, a))" "between F e1 a"
    "env_committed e1 = env_committed e" using am_abort_ok [OF L a] by blast
  have "am_rollback F L (e, a) = am_init_append_tx F L (e1, a)"
    by (simp add: am_rollback_def bindS_def e1(1))
  then show ?thesis using am_init_append_tx_runs [OF L e1(2)] e1(3)
    by (simp add: runs_def fresh_def committed_only_def)
qed

lemma am_rollback_ok:
  assumes L: "lmdb_ok (fb_size F) L" and d: "am_rel sha3 F e a d"
    and r: "am_rollback F L (e, a) = (r, (e', a'))"
  shows "r = Inl (InternalError FATAL) \<or> r = Inr () \<and> am_rel sha3 F e' a' (spec_rollback d)"
proof -
  have "r = Inl (InternalError FATAL) \<or> r = Inr () \<and> committed_only e (e', a') \<and> fresh F e a (e', a')"
    using am_rollback_runs [OF L am_relD(1) [OF d]] r by (cases r) (simp_all add: runs_def)
  then show ?thesis using am_relD [OF d]
    by (simp add: fresh_def committed_only_def am_rel_def spec_rollback_def) metis
qed

section \<open>Commit\<close>

lemma am_ok_step:
  assumes a: "am_ok F e a" and s: "step_on (ts_append_tx (am_txs a)) {''merkle_tree''} e e'"
  shows "am_ok F e' a" "view_of F (am_trees e' a) = view_of F (am_trees e a)"
proof -
  note o = am_okD [OF a]
  have t: "am_trees e' a n = am_trees e a n" if "n \<noteq> ''merkle_tree''" for n
    using step_on_tree [OF s] that by simp
  have wt: "wtree e' (am_wsv a) n = wtree e (am_wsv a) n" if "n \<noteq> ''merkle_tree''" for n
    using t [OF that] o(2) by (simp add: wtree_def)
  have "txs_ok e' (am_txs a)" using o(3) store_ok_step [OF _ s] t by (simp add: txs_ok_def ttree_def)
  moreover have "indices_ok F e' (am_txs a)"
  proof -
    have "''merkle_tree'' \<notin> set index_names" by (simp add: index_names_def)
    then have "ttree e' (am_txs a) n = ttree e (am_txs a) n" if "n \<in> insert ''tx_store'' (set index_names)" for n
      using t [of n] that by (auto simp: ttree_def)
    then show ?thesis using o(4) step_on_cmp [OF s] by (simp add: indices_ok_def)
  qed
  moreover have "wsv_ok F e' (am_wsv a)"
    using o(5) store_ok_step [OF _ s] wt step_on_cmp [OF s] by (simp add: wsv_ok_def o(2))
  ultimately show "am_ok F e' a" using o step_on_committed [OF s] by (simp add: am_ok_def)
  show "view_of F (am_trees e' a) = view_of F (am_trees e a)"
    by (simp add: view_of_def log_of_def ledger_of_def t)
qed

text \<open>
  What a commit leaves: a new transaction on what is committed then, which is what the old one
  saw, with the last block of the Merkle tree, or, when LMDB could not commit, what it was before.
\<close>

definition commits :: "(byte list \<Rightarrow> hash_t) \<Rightarrow> 'b fb \<Rightarrow> ('b, 'x) lmdb \<Rightarrow> ('b, 'x) env \<Rightarrow> 'b ametsuchi \<Rightarrow>
    hash_t list \<Rightarrow> ('b, 'x) env \<times> 'b ametsuchi \<Rightarrow> bool" where
  "commits sha3 F L e a hs = (\<lambda>(e', a').
     am_ok F e' a' \<and> am_trees e' a' = dbs_tree (env_committed e')
     \<and> ts_merkle (am_txs a') = ts_merkle (am_txs a) \<and> am_path a' = am_path a
     \<and> (\<exists>tx e0. if fst (mdb_txn_commit L tx e0) = MDB_SUCCESS
          then view_of F (dbs_tree (env_committed e')) = view_of F (am_trees e a)
            \<and> dbs_tree (env_committed e') ''merkle_tree''
                = block_records (2 ^ 10 - 1) (last (blk_of (hash_pair sha3) (2 ^ 10) hs))
          else env_committed e' = env_committed e))"

lemma am_commit_runs:
  assumes L: "lmdb_ok (fb_size F) L" and a: "am_ok F e a"
    and m: "mt_run sha3 (2 ^ 10) 1 hs = Inr (ts_merkle (am_txs a))"
  shows "runs (am_commit F L) (e, a) (\<lambda>_. True) (\<lambda>_. commits sha3 F L e a hs)"
proof -
  note o = am_okD [OF a]
  let ?tx = "ts_append_tx (am_txs a)"
  obtain r e1 where e1: "txs_commit L (e, am_txs a) = (r, (e1, am_txs a))"
    "step_on ?tx {''merkle_tree''} e e1"
    "r = Inl (InternalError FATAL) \<or> r = Inr () \<and> ttree e1 (am_txs a) ''merkle_tree''
       = block_records (2 ^ 10 - 1) (last (blk_of (hash_pair sha3) (2 ^ 10) hs))"
    using commit_ok [OF L txs_okD(1) [OF o(3)] _ _ m] by auto
  note a1 = am_ok_step [OF a e1(2)]
  obtain e2 where e2: "am_close_cursors L (e1, a) = (Inr (), (e2, a))" "same_data e1 e2"
    using am_close_cursors_ok [OF L] by blast
  obtain x where x: "env_txns e2 ?tx = Some x" "\<not> txn_rdonly x" "db_ok F (txn_dbs x)"
    "am_trees e1 a = dbs_tree (txn_dbs x)"
    using am_ok_txn [OF a1(1)] e2(2) by (metis same_data_def)
  obtain rc e3 where e3: "mdb_txn_commit L ?tx e2 = (rc, e3)" by (metis prod.exhaust)
  have "commit_spec L" using L by (simp add: lmdb_ok_def)
  from this [unfolded commit_spec_def, rule_format, of e2 ?tx x rc e3] x(1,2) e3
  have c: "env_cmp e3 = env_cmp e2" "env_committed e3 = (if rc = MDB_SUCCESS then txn_dbs x else env_committed e2)"
    by simp_all
  have cm: "env_cmp e3 = env_cmp e" "env_committed e2 = env_committed e"
    using c(1) e2(2) step_on_cmp [OF e1(2)] step_on_committed [OF e1(2)] by (simp_all add: same_data_def)
  have b: "between F e3 a"
    by (rule am_ok_between [OF a cm(1)]) (use c(2) cm(2) x(3) o(8) in simp)
  have run: "am_commit F L (e, a) = (case r of Inl err \<Rightarrow> (Inl err, (e1, a)) | Inr _ \<Rightarrow> am_init_append_tx F L (e3, a))"
    using o(1) by (simp add: am_commit_def bindS_def on_txs_def e1(1) e2(1) e3 envS_def result_simps split: sum.splits)
  show ?thesis
  proof (cases "r = Inr ()")
    case False
    then show ?thesis using run e1(3) by (auto simp: runs_def)
  next
    case True
    have f: "commits sha3 F L e a hs (e', a')" if "committed_only e3 (e', a')" "fresh F e3 a (e', a')" for e' a'
    proof -
      have "env_committed e' = env_committed e3" using that(1) by (simp add: committed_only_def)
      moreover have "\<exists>tx e0. if fst (mdb_txn_commit L tx e0) = MDB_SUCCESS
          then view_of F (dbs_tree (env_committed e')) = view_of F (am_trees e a)
            \<and> dbs_tree (env_committed e') ''merkle_tree''
                = block_records (2 ^ 10 - 1) (last (blk_of (hash_pair sha3) (2 ^ 10) hs))
          else env_committed e' = env_committed e"
        using c(2) cm(2) x(4) a1(2) e1(3) True calculation e3
        by (intro exI [of _ ?tx] exI [of _ e2]) (simp add: ttree_def)
      ultimately show ?thesis using that(2) by (simp add: commits_def fresh_def)
    qed
    have "runs (am_init_append_tx F L) (e3, a) (committed_only e3) (\<lambda>_. commits sha3 F L e a hs)"
      by (rule runs_weaken [OF am_init_append_tx_runs [OF L b]]) (use f in auto)
    then show ?thesis using run True by (auto simp: runs_def split: prod.splits sum.splits)
  qed
qed

lemma am_commit_ok:
  assumes L: "lmdb_ok (fb_size F) L" and d: "am_rel sha3 F e a d"
    and r: "am_commit F L (e, a) = (r, (e', a'))"
  shows "r = Inl (InternalError FATAL)
    \<or> r = Inr () \<and> (\<exists>tx e0. am_rel sha3 F e' a'
         (if fst (mdb_txn_commit L tx e0) = MDB_SUCCESS then spec_commit d else spec_rollback d))"
proof -
  have "r = Inl (InternalError FATAL) \<or> r = Inr () \<and> commits sha3 F L e a (db_hashes d) (e', a')"
    using am_commit_runs [OF L am_relD(1,4) [OF d]] r by (cases r) (simp_all add: runs_def)
  moreover have "\<exists>tx e0. am_rel sha3 F e' a'
      (if fst (mdb_txn_commit L tx e0) = MDB_SUCCESS then spec_commit d else spec_rollback d)"
    if cm: "commits sha3 F L e a (db_hashes d) (e', a')"
  proof -
    obtain tx e0 where c: "if fst (mdb_txn_commit L tx e0) = MDB_SUCCESS
          then view_of F (dbs_tree (env_committed e')) = view_of F (am_trees e a)
            \<and> dbs_tree (env_committed e') ''merkle_tree''
                = block_records (2 ^ 10 - 1) (last (blk_of (hash_pair sha3) (2 ^ 10) (db_hashes d)))
          else env_committed e' = env_committed e" using cm unfolding commits_def prod.case by blast
    then show ?thesis using cm am_relD [OF d]
      by (intro exI [of _ tx] exI [of _ e0])
        (simp add: commits_def am_rel_def spec_commit_def spec_rollback_def split: if_splits)
  qed
  ultimately show ?thesis by blast
qed

section \<open>Append\<close>

text \<open>Each store is left alone by a call on the trees of the other.\<close>

interpretation parts: two_stores txs_set "\<lambda>e s. txs_ok e s \<and> indices_ok F e s" txs_log ts_append_tx
    wsv_set "wsv_ok F" "wsv_abs F" w_append_tx for F
  by unfold_locales (rule names_disjoint)

lemma am_rel_intro:
  assumes "am_append_tx a = Some (ts_append_tx (am_txs a))" and "w_append_tx (am_wsv a) = ts_append_tx (am_txs a)"
    and "txs_ok e (am_txs a)" and "indices_ok F e (am_txs a)" and "wsv_ok F e (am_wsv a)"
    and "handles_of txs_set (ts_trees (am_txs a))" and "handles_of wsv_set (w_trees (am_wsv a))"
    and "db_ok F (env_committed e)" and "db_committed d = view_of F (dbs_tree (env_committed e))"
    and "db_now d = \<lparr>vw_log = txs_log e (am_txs a), vw_ledger = wsv_abs F e (am_wsv a)\<rparr>"
    and "mt_run sha3 (2 ^ 10) 1 (db_hashes d) = Inr (ts_merkle (am_txs a))"
  shows "am_rel sha3 F e a d"
proof -
  have "am_ok F e a" using assms by (simp add: am_ok_def)
  then show ?thesis using assms(9-11) am_ok_trees(3,4) [of F e a] by (simp add: am_rel_def view_of_def)
qed

text \<open>The sizes an append needs.\<close>

definition append_fits :: "'b fb \<Rightarrow> 'b \<Rightarrow> 'b view \<Rightarrow> bool" where
  "append_fits F blob v \<longleftrightarrow> Suc (length (vw_log v)) < SIZE_MOD
     \<and> key_size_ok (fb_size F) (IStr (tx_creatorPubKey (fb_transaction F blob)))
     \<and> cmd_fits F (tx_command (fb_transaction F blob)) (vw_ledger v)"

lemma view_eq: "v\<lparr>vw_log := l\<rparr> = \<lparr>vw_log = l, vw_ledger = vw_ledger v\<rparr>"
  by (cases v) simp

lemma database_upd: "d\<lparr>db_hashes := hs, db_now := v\<rparr> = d\<lparr>db_now := v, db_hashes := hs\<rparr>"
  by simp

text \<open>The call of the transaction store: the transaction is logged, the ledger is as it was.\<close>

lemma am_logged:
  fixes L :: "('b, 'x) lmdb"
  assumes L: "lmdb_ok (fb_size F) L" and d: "am_rel sha3 F e a d"
    and fits: "Suc (length (vw_log (db_now d))) < SIZE_MOD"
      "key_size_ok (fb_size F) (IStr (tx_creatorPubKey (fb_transaction F blob)))"
    and r: "txs_append sha3 F L blob (e, am_txs a) = (r, (e', s'))"
  shows "r = Inl (InternalError FATAL)
    \<or> (\<exists>hs. append_result sha3 10 (db_hashes d) (fb_transaction F blob) = (r, hs)
         \<and> am_rel sha3 F e' (a\<lparr>am_txs := s'\<rparr>)
             (d\<lparr>db_now := (db_now d)\<lparr>vw_log := vw_log (db_now d) @ [IBlob blob]\<rparr>, db_hashes := hs\<rparr>))"
proof -
  let ?s = "am_txs a" and ?w = "am_wsv a"
  note am = am_relD(1) [OF d]
  note o = am_okD [OF am]
  have now: "vw_ledger (db_now d) = wsv_abs F e ?w" "vw_log (db_now d) = txs_log e ?s"
    using am_relD(2) [OF d] am_ok_trees(3,4) [OF am] by (simp_all add: view_of_def)
  have "length (txs_log e ?s) = ts_total ?s" using am_ok_trees(2) [OF am] by (simp add: txs_log_def ttree_def)
  then have p: "step_on (ts_append_tx ?s) (insert ''tx_store'' (set index_names)) e e'"
    "ts_append_tx s' = ts_append_tx ?s" "ts_trees s' = ts_trees ?s"
    "r = Inl (InternalError FATAL)
       \<or> txs_ok e' s' \<and> indices_ok F e' s' \<and> txs_log e' s' = txs_log e ?s @ [IBlob blob]
         \<and> (\<exists>hs'. append_result sha3 10 (db_hashes d) (fb_transaction F blob) = (r, hs')
              \<and> mt_run sha3 (2 ^ 10) 1 hs' = Inr (ts_merkle s'))"
    using append_ok [OF L o(3,4) _ fits(2) _ _ am_relD(4) [OF d]] fits(1) now(2) r by auto
  have "insert ''tx_store'' (set index_names) \<subseteq> txs_set" by (force simp: txs_names_def)
  note w = parts.step_one [OF o(5) p(1) this o(2) [symmetric]]
  show ?thesis
  proof (cases "r = Inl (InternalError FATAL)")
    case False
    then obtain hs where q: "txs_ok e' s'" "indices_ok F e' s'" "txs_log e' s' = txs_log e ?s @ [IBlob blob]"
      "append_result sha3 10 (db_hashes d) (fb_transaction F blob) = (r, hs)"
      "mt_run sha3 (2 ^ 10) 1 hs = Inr (ts_merkle s')"
      using p(4) by auto
    have "am_rel sha3 F e' (a\<lparr>am_txs := s'\<rparr>)
        (d\<lparr>db_now := (db_now d)\<lparr>vw_log := vw_log (db_now d) @ [IBlob blob]\<rparr>, db_hashes := hs\<rparr>)"
      using o p(2,3) q w step_on_committed [OF p(1)] now am_relD(3) [OF d] by (intro am_rel_intro) simp_all
    with q(4) show ?thesis by blast
  qed simp
qed

text \<open>The call of the world state view: the ledger changes as its specification says.\<close>

lemma am_applied:
  fixes L :: "('b, 'x) lmdb"
  assumes L: "lmdb_ok (fb_size F) L" and F: "fb_ok F" and d: "am_rel sha3 F e a d"
    and fits: "cmd_fits F (tx_command (fb_transaction F blob)) (vw_ledger (db_now d))"
    and r: "wsv_update F L blob (e, am_wsv a) = (r, (e', w'))"
  shows "r = Inl (InternalError FATAL)
    \<or> (\<exists>g. spec_update F (tx_command (fb_transaction F blob)) (vw_ledger (db_now d)) = (r, g)
         \<and> am_rel sha3 F e' (a\<lparr>am_wsv := w'\<rparr>) (d\<lparr>db_now := (db_now d)\<lparr>vw_ledger := g\<rparr>\<rparr>))"
proof -
  let ?s = "am_txs a" and ?w = "am_wsv a" and ?g = "vw_ledger (db_now d)"
  note am = am_relD(1) [OF d]
  note o = am_okD [OF am]
  have now: "?g = wsv_abs F e ?w" "vw_log (db_now d) = txs_log e ?s"
    using am_relD(2) [OF d] am_ok_trees(3,4) [OF am] by (simp_all add: view_of_def)
  have "wsv_follows F (wsv_update F L blob) (spec_update F (tx_command (fb_transaction F blob)) ?g) e ?w"
    using update_follows [OF L F o(5)] fits now(1) by simp
  then have f: "step_on (w_append_tx ?w) wsv_set e e'" "w_trees w' = w_trees ?w" "w_append_tx w' = w_append_tx ?w"
    "r = Inl (InternalError FATAL) \<or> wsv_ok F e' w'
      \<and> (r, wsv_abs F e' w') = spec_update F (tx_command (fb_transaction F blob)) ?g"
    using r by (simp_all add: wsv_follows_def)
  have "txs_ok e ?s \<and> indices_ok F e ?s" using o(3,4) by simp
  note t = parts.step_two [OF this f(1) order_refl o(2) [symmetric]]
  show ?thesis
  proof (cases "r = Inl (InternalError FATAL)")
    case False
    then have g: "wsv_ok F e' w'" "spec_update F (tx_command (fb_transaction F blob)) ?g = (r, wsv_abs F e' w')"
      using f(4) by simp_all
    have "am_rel sha3 F e' (a\<lparr>am_wsv := w'\<rparr>) (d\<lparr>db_now := (db_now d)\<lparr>vw_ledger := wsv_abs F e' w'\<rparr>\<rparr>)"
      using o f(2,3) g(1) t step_on_committed [OF f(1)] now am_relD(3,4) [OF d] by (intro am_rel_intro) simp_all
    with g(2) show ?thesis by blast
  qed simp
qed

lemma am_append_ok:
  fixes L :: "('b, 'x) lmdb"
  assumes L: "lmdb_ok (fb_size F) L" and F: "fb_ok F" and d: "am_rel sha3 F e a d" and fits: "append_fits F blob (db_now d)"
    and r: "am_append sha3 F L blob (e, a) = (r, (e', a'))"
  shows "r = Inl (InternalError FATAL)
    \<or> (\<exists>d'. spec_append sha3 F blob d = (r, d') \<and> am_rel sha3 F e' a' d')"
proof -
  have fit: "Suc (length (vw_log (db_now d))) < SIZE_MOD"
    "key_size_ok (fb_size F) (IStr (tx_creatorPubKey (fb_transaction F blob)))"
    "cmd_fits F (tx_command (fb_transaction F blob)) (vw_ledger (db_now d))"
    using fits by (simp_all add: append_fits_def)
  obtain r1 e1 s1 where p: "txs_append sha3 F L blob (e, am_txs a) = (r1, (e1, s1))" by (metis prod.exhaust)
  obtain r2 e2 w2 where u: "wsv_update F L blob (e1, am_wsv a) = (r2, (e2, w2))" by (metis prod.exhaust)
  have run: "am_append sha3 F L blob (e, a) = (case r1 of
      Inl err \<Rightarrow> (Inl err, (e1, a\<lparr>am_txs := s1\<rparr>))
    | Inr root \<Rightarrow> (case r2 of Inl err \<Rightarrow> Inl err | Inr _ \<Rightarrow> Inr root, (e2, a\<lparr>am_txs := s1, am_wsv := w2\<rparr>)))"
    by (simp add: am_append_def bindS_def on_txs_def on_wsv_def p u returnS_def split: sum.split)
  let ?log = "vw_log (db_now d) @ [IBlob blob]"
  from am_logged [OF L d fit(1,2) p] show ?thesis
  proof (elim disjE exE conjE)
    assume "r1 = Inl (InternalError FATAL)"
    then show ?thesis using run r by simp
  next
    fix hs
    let ?d = "d\<lparr>db_now := (db_now d)\<lparr>vw_log := ?log\<rparr>, db_hashes := hs\<rparr>"
    assume q: "append_result sha3 10 (db_hashes d) (fb_transaction F blob) = (r1, hs)"
      and d1: "am_rel sha3 F e1 (a\<lparr>am_txs := s1\<rparr>) ?d"
    show ?thesis
    proof (cases r1)
      case (Inl err)
      then show ?thesis using q d1 run r by (auto simp: spec_append_def Let_def view_eq)
    next
      case (Inr root)
      with am_applied [OF L F d1, of blob r2 e2 w2] fit(3) u q run r show ?thesis
        by (auto simp: spec_append_def Let_def view_eq database_upd split: sum.splits)
    qed
  qed
qed

section \<open>Sequences of operations\<close>

datatype 'b am_call = Append 'b | Commit | Rollback

text \<open>
  Any operations one after the other, an append only of a transaction of a size that fits, until
  one reports a fatal error of the database.
\<close>

inductive am_run :: "(byte list \<Rightarrow> hash_t) \<Rightarrow> 'b fb \<Rightarrow> ('b, 'x) lmdb \<Rightarrow> ('b, 'x) env \<times> 'b ametsuchi \<Rightarrow>
    'b am_call list \<Rightarrow> ('b, 'x) env \<times> 'b ametsuchi \<Rightarrow> bool" for sha3 F L s0 where
  run_start: "am_run sha3 F L s0 [] s0"
| run_append: "am_run sha3 F L s0 cs (e, a) \<Longrightarrow> append_fits F blob (view_of F (am_trees e a)) \<Longrightarrow>
    am_append sha3 F L blob (e, a) = (r, s) \<Longrightarrow> r \<noteq> Inl (InternalError FATAL) \<Longrightarrow>
    am_run sha3 F L s0 (cs @ [Append blob]) s"
| run_commit: "am_run sha3 F L s0 cs (e, a) \<Longrightarrow> am_commit F L (e, a) = (r, s) \<Longrightarrow>
    r \<noteq> Inl (InternalError FATAL) \<Longrightarrow> am_run sha3 F L s0 (cs @ [Commit]) s"
| run_rollback: "am_run sha3 F L s0 cs (e, a) \<Longrightarrow> am_rollback F L (e, a) = (r, s) \<Longrightarrow>
    r \<noteq> Inl (InternalError FATAL) \<Longrightarrow> am_run sha3 F L s0 (cs @ [Rollback]) s"

inductive spec_run :: "(byte list \<Rightarrow> hash_t) \<Rightarrow> 'b fb \<Rightarrow> 'b database \<Rightarrow> 'b am_call list \<Rightarrow> 'b database \<Rightarrow> bool"
  for sha3 F d0 where
  spec_start: "spec_run sha3 F d0 [] d0"
| spec_append: "spec_run sha3 F d0 cs d \<Longrightarrow> spec_append sha3 F blob d = (r, d') \<Longrightarrow>
    spec_run sha3 F d0 (cs @ [Append blob]) d'"
| spec_commit: "spec_run sha3 F d0 cs d \<Longrightarrow> spec_run sha3 F d0 (cs @ [Commit]) (spec_commit d)"
| spec_lost: "spec_run sha3 F d0 cs d \<Longrightarrow> spec_run sha3 F d0 (cs @ [Commit]) (spec_rollback d)"
| spec_rollback: "spec_run sha3 F d0 cs d \<Longrightarrow> spec_run sha3 F d0 (cs @ [Rollback]) (spec_rollback d)"

lemma am_run_simulated:
  assumes L: "lmdb_ok (fb_size F) L" and F: "fb_ok F" and run: "am_run sha3 F L s0 cs s"
    and d: "am_rel sha3 F (fst s0) (snd s0) d"
  shows "\<exists>d'. spec_run sha3 F d cs d' \<and> am_rel sha3 F (fst s) (snd s) d'"
  using run
proof induction
  case run_start
  then show ?case using d spec_run.spec_start by blast
next
  case (run_append cs e a blob r s)
  then obtain d1 where d1: "spec_run sha3 F d cs d1" "am_rel sha3 F e a d1" by auto
  have "append_fits F blob (db_now d1)" using run_append.hyps(2) am_relD(2) [OF d1(2)] by simp
  with am_append_ok [OF L F d1(2), of blob r "fst s" "snd s"] run_append.hyps(3,4)
  obtain d2 where "Ametsuchi_Runs.spec_append sha3 F blob d1 = (r, d2)" "am_rel sha3 F (fst s) (snd s) d2" by auto
  then show ?case using spec_run.spec_append [OF d1(1)] by blast
next
  case (run_commit cs e a r s)
  then obtain d1 where d1: "spec_run sha3 F d cs d1" "am_rel sha3 F e a d1" by auto
  from am_commit_ok [OF L d1(2), of r "fst s" "snd s"] run_commit.hyps(2,3)
  have "am_rel sha3 F (fst s) (snd s) (Ametsuchi_Runs.spec_commit d1) \<or> am_rel sha3 F (fst s) (snd s) (Ametsuchi_Runs.spec_rollback d1)"
    by (auto split: if_splits)
  then show ?case using spec_run.spec_commit [OF d1(1)] spec_run.spec_lost [OF d1(1)] by blast
next
  case (run_rollback cs e a r s)
  then obtain d1 where d1: "spec_run sha3 F d cs d1" "am_rel sha3 F e a d1" by auto
  from am_rollback_ok [OF L d1(2), of r "fst s" "snd s"] run_rollback.hyps(2,3)
  have "am_rel sha3 F (fst s) (snd s) (Ametsuchi_Runs.spec_rollback d1)" by auto
  then show ?case using spec_run.spec_rollback [OF d1(1)] by blast
qed

section \<open>The ledger as a replay of the log\<close>

text \<open>What a transaction of the log does to the ledger.\<close>

definition replay_step :: "'b fb \<Rightarrow> 'b item \<Rightarrow> 'b ledger \<Rightarrow> 'b ledger" where
  "replay_step F v g = (case v of
       IBlob b \<Rightarrow> (let tx = fb_transaction F b
         in if index_trees (tx_command tx) \<noteq> None \<and> (\<exists>h. tx_hash tx = Some h \<and> length h = HASH_LEN)
            then snd (spec_update F (tx_command tx) g) else g)
     | _ \<Rightarrow> g)"

definition empty_ledger :: "'b ledger" where
  "empty_ledger = \<lparr>lg_assets = (\<lambda>_ _. None), lg_accounts = (\<lambda>_. None), lg_created = (\<lambda>_. None),
     lg_peers = (\<lambda>_. None)\<rparr>"

definition replays :: "'b fb \<Rightarrow> 'b view \<Rightarrow> bool" where
  "replays F v \<longleftrightarrow> vw_ledger v = fold (replay_step F) (vw_log v) empty_ledger"

definition database_ok :: "'b fb \<Rightarrow> 'b database \<Rightarrow> bool" where
  "database_ok F d \<longleftrightarrow> replays F (db_now d) \<and> replays F (db_committed d)
     \<and> prefix (vw_log (db_committed d)) (vw_log (db_now d))"

lemma spec_append_step:
  assumes "spec_append sha3 F blob d = (r, d')"
  shows "db_now d' = \<lparr>vw_log = vw_log (db_now d) @ [IBlob blob],
      vw_ledger = replay_step F (IBlob blob) (vw_ledger (db_now d))\<rparr> \<and> db_committed d' = db_committed d"
  using assms by (auto simp: spec_append_def Let_def append_result_def replay_step_def
      split: if_splits option.splits prod.splits)

lemma spec_run_ok: "spec_run sha3 F d cs d' \<Longrightarrow> database_ok F d \<Longrightarrow> database_ok F d'"
proof (induction rule: spec_run.induct)
  case (spec_append cs d1 blob r d')
  then show ?case using spec_append_step [OF spec_append.hyps(2)]
    by (simp add: database_ok_def replays_def prefix_append)
qed (simp_all add: database_ok_def spec_commit_def spec_rollback_def)

end
