(* ===== verification/Ametsuchi_Reopen.thy ===== *)
theory Ametsuchi_Reopen
  imports Ametsuchi_Runs
begin

text \<open>
  Opening the database: on a file that holds consistent databases, the constructor reports a
  fatal error or gives an open database with their contents.
\<close>

section \<open>What the environment calls promise\<close>

text \<open>An environment that was created and set up, not yet open.\<close>

definition env_ready :: "('b, 'x) env_api \<Rightarrow> ('b, 'x) env \<Rightarrow> bool" where
  "env_ready A e \<longleftrightarrow> (\<exists>e0 e1 m n. mdb_env_create A = (MDB_SUCCESS, e0)
     \<and> mdb_env_set_mapsize A m e0 = (MDB_SUCCESS, e1) \<and> mdb_env_set_maxdbs A n e1 = (MDB_SUCCESS, e))"

text \<open>
  The settings are accepted or refused; an environment that was opened has the databases of the
  file, compared by their bytes.  Nothing is said about the codes of the two calls that create and
  open it: \<open>env_codes_checked\<close> holds if they are among the ones the program looks for.
\<close>

definition env_api_ok :: "('b, 'x) env_api \<Rightarrow> (string \<Rightarrow> 'b db option) \<Rightarrow> bool" where
  "env_api_ok A dbs \<longleftrightarrow>
     (\<forall>n e. fst (mdb_env_set_mapsize A n e) \<in> {MDB_SUCCESS, EINVAL})
     \<and> (\<forall>n e. fst (mdb_env_set_maxdbs A n e) \<in> {MDB_SUCCESS, EINVAL})
     \<and> (\<forall>p e e'. env_ready A e \<and> mdb_env_open A p e = (MDB_SUCCESS, e') \<longrightarrow>
          env_committed e' = dbs \<and> (\<forall>n x y. env_cmp e' n x y = 0 \<longleftrightarrow> x = y))"

definition env_codes_checked :: "('b, 'x) env_api \<Rightarrow> string \<Rightarrow> bool" where
  "env_codes_checked A p \<longleftrightarrow> fst (mdb_env_create A) \<in> insert MDB_SUCCESS (set ENV_ERRORS)
     \<and> (\<forall>e. env_ready A e \<longrightarrow> fst (mdb_env_open A p e) \<in> insert MDB_SUCCESS (set ENV_ERRORS))"

section \<open>The constructor\<close>

text \<open>The calls before the append transaction: each fails, or goes on with what it returned.\<close>

lemma am_init_calls:
  assumes A: "env_api_ok A dbs" and a: "am_wsv a = wsv_new"
  shows "(\<exists>t. am_init sha3 F A L (e, a) = (Inl (InternalError FATAL), t))
    \<or> (\<exists>t. am_init sha3 F A L (e, a) = (Inl Undefined, t)) \<and> \<not> env_codes_checked A (am_path a)
    \<or> (\<exists>e' a'. env_committed e' = dbs \<and> (\<forall>n x y. env_cmp e' n x y = 0 \<longleftrightarrow> x = y)
        \<and> ts_merkle (am_txs a') = ts_merkle (am_txs a) \<and> ts_trees (am_txs a') = ts_trees (am_txs a)
        \<and> w_trees (am_wsv a') = [] \<and> am_init sha3 F A L (e, a)
            = bindS (am_init_append_tx F L) (\<lambda>_. on_txs (init_merkle_tree sha3 L)) (e', a'))"
proof -
  obtain rc0 e0 where 0: "mdb_env_create A = (rc0, e0)" by (metis prod.exhaust)
  obtain rc1 e1 where 1: "mdb_env_set_mapsize A AMETSUCHI_MAX_DB_SIZE e0 = (rc1, e1)" by (metis prod.exhaust)
  obtain rc2 e2 where 2: "mdb_env_set_maxdbs A 22 e1 = (rc2, e2)" by (metis prod.exhaust)
  obtain rc3 e3 where 3: "mdb_env_open A (am_path a) e2 = (rc3, e3)" by (metis prod.exhaust)
  let ?a = "a\<lparr>am_wsv := (am_wsv a)\<lparr>w_trees_total := 4\<rparr>, am_txs := (am_txs a)\<lparr>ts_trees_total := 18\<rparr>,
    am_trees_total := 22\<rparr>"
  have codes: "rc1 \<in> {MDB_SUCCESS, EINVAL}" "rc2 \<in> {MDB_SUCCESS, EINVAL}"
    using A [unfolded env_api_ok_def] 1 2 by (metis fst_conv)+
  note ev = am_init_def bindS_def am_make_folder_def Let_def env_call_def env_start_def critical_def result_simps
    on_wsv_def on_txs_def wsv_get_trees_total_def txs_get_trees_total_def modify_wsv_def modify_txs_def modify_am_def
    0 1 2 3
  let ?folder = "os_mkdir A (am_path a) \<noteq> 0 \<and> os_mkdir A (am_path a) \<noteq> EEXIST \<and> os_mkdir A (am_path a) \<in> set MKDIR_ERRORS"
  consider (fatal) "?folder \<or> rc0 \<in> set ENV_ERRORS \<or> rc0 = MDB_SUCCESS \<and> \<not> (rc1 = MDB_SUCCESS \<and> rc2 = MDB_SUCCESS)"
    | (lost) "\<not> ?folder" "rc0 \<notin> set ENV_ERRORS" "rc0 \<noteq> MDB_SUCCESS"
    | (created) "\<not> ?folder" "rc0 = MDB_SUCCESS" "rc1 = MDB_SUCCESS" "rc2 = MDB_SUCCESS" by blast
  then show ?thesis
  proof cases
    case fatal
    then have "\<exists>t. am_init sha3 F A L (e, a) = (Inl (InternalError FATAL), t)" using codes by (auto simp: ev ENV_ERRORS_def)
    then show ?thesis by blast
  next
    case lost
    then have "\<exists>t. am_init sha3 F A L (e, a) = (Inl Undefined, t)" by (auto simp: ev)
    then show ?thesis using lost 0 by (simp add: env_codes_checked_def)
  next
    case created
    have ready: "env_ready A e2" using created 0 1 2 unfolding env_ready_def by metis
    consider "rc3 \<in> set ENV_ERRORS" | "rc3 \<notin> set ENV_ERRORS" "rc3 \<noteq> MDB_SUCCESS" | "rc3 = MDB_SUCCESS" by blast
    then show ?thesis
    proof cases
      case 1
      then have "\<exists>t. am_init sha3 F A L (e, a) = (Inl (InternalError FATAL), t)" using created by (auto simp: ev ENV_ERRORS_def)
      then show ?thesis by blast
    next
      case 2
      then have "\<exists>t. am_init sha3 F A L (e, a) = (Inl Undefined, t)" using created by (auto simp: ev ENV_ERRORS_def)
      moreover have "\<not> env_codes_checked A (am_path a)"
        using 2 3 ready unfolding env_codes_checked_def by (metis fst_conv insertE)
      ultimately show ?thesis by blast
    next
      case ok: 3
      have "env_committed e3 = dbs \<and> (\<forall>n x y. env_cmp e3 n x y = 0 \<longleftrightarrow> x = y)"
        using A ready 3 unfolding env_api_ok_def ok by blast
      moreover have "am_init sha3 F A L (e, a) = bindS (am_init_append_tx F L) (\<lambda>_. on_txs (init_merkle_tree sha3 L)) (e3, ?a)"
        using created ok by (auto simp: ev ENV_ERRORS_def)
      ultimately show ?thesis using a
        by (intro disjI2 exI [of _ e3] exI [of _ ?a]) (simp add: wsv_new_def)
    qed
  qed
qed

lemma txs_new_fields:
  "\<exists>s. txs_new AMETSUCHI_BLOCK_SIZE = Inr s \<and> ts_trees s = [] \<and> mt_new (2 ^ 10) 1 = Inr (ts_merkle s)"
proof -
  obtain m where "mt_new (2 ^ 10) 1 = Inr m"
    using hist_rel_new [of 10 1 "\<lambda>_. zero_hash"] by (auto simp: SIZE_MOD_def)
  then show ?thesis by (simp add: txs_new_def AMETSUCHI_BLOCK_SIZE_def bindR_def)
qed

text \<open>The Merkle tree, read from the last block that was committed.\<close>

lemma am_init_merkle_ok:
  assumes L: "lmdb_ok (fb_size F) L" and a: "am_ok F e a" and m: "mt_new (2 ^ 10) 1 = Inr (ts_merkle (am_txs a))"
    and t: "am_trees e a ''merkle_tree'' = block_records (2 ^ 10 - 1) b"
    and b: "length b < 2 ^ 10" "\<forall>h \<in> set b. length h = HASH_LEN"
  shows "\<exists>r e' a'. on_txs (init_merkle_tree sha3 L) (e, a) = (r, (e', a'))
    \<and> (r = Inl (InternalError FATAL) \<or> r = Inr () \<and> am_rel sha3 F e' a'
         \<lparr>db_now = view_of F (am_trees e a), db_committed = view_of F (dbs_tree (env_committed e)), db_hashes = b\<rparr>)"
proof -
  have "ttree e (am_txs a) ''merkle_tree'' = block_records (2 ^ 10 - 1) b" using t by (simp add: ttree_def)
  then obtain r e' s where r: "init_merkle_tree sha3 L (e, am_txs a) = (r, (e', s))"
    "step_on (ts_append_tx (am_txs a)) {} e e'"
    "r = Inl (InternalError FATAL) \<or> r = Inr () \<and> s = (am_txs a)\<lparr>ts_merkle := ts_merkle s\<rparr>
       \<and> mt_run sha3 (2 ^ 10) 1 b = Inr (ts_merkle s)"
    using init_merkle_tree_ok [OF L txs_okD(1) [OF am_okD(3) [OF a]] _ _ m _ b, of sha3]
    by (simp del: One_nat_def) blast
  define m' where "m' = ts_merkle s"
  let ?a' = "a\<lparr>am_txs := (am_txs a)\<lparr>ts_merkle := m'\<rparr>\<rparr>"
  have st: "step_on (ts_append_tx (am_txs a)) {''merkle_tree''} e e'" by (rule step_on_mono [OF r(2)]) simp
  have "am_ok F e' ?a'" using am_ok_step(1) [OF a st] by (simp add: am_ok_def txs_ok_def indices_ok_def ttree_def)
  then have "am_rel sha3 F e' ?a' \<lparr>db_now = view_of F (am_trees e a),
      db_committed = view_of F (dbs_tree (env_committed e)), db_hashes = b\<rparr>" if "mt_run sha3 (2 ^ 10) 1 b = Inr m'"
    using that am_ok_step(2) [OF a st] step_on_committed [OF r(2)] by (simp add: am_rel_def)
  then show ?thesis using r(1,3) by (auto simp: on_txs_def m'_def)
qed

lemma am_new_ok:
  assumes L: "lmdb_ok (fb_size F) L" and A: "env_api_ok A dbs" and db: "db_ok F dbs"
    and t: "dbs_tree dbs ''merkle_tree'' = block_records (2 ^ 10 - 1) b"
    and b: "length b < 2 ^ 10" "\<forall>h \<in> set b. length h = HASH_LEN"
  shows "am_new sha3 F A L folder e = Inl (InternalError FATAL)
    \<or> am_new sha3 F A L folder e = Inl Undefined \<and> \<not> env_codes_checked A folder
    \<or> (\<exists>e' a'. am_new sha3 F A L folder e = Inr (e', a')
        \<and> am_rel sha3 F e' a' \<lparr>db_now = view_of F (dbs_tree dbs), db_committed = view_of F (dbs_tree dbs), db_hashes = b\<rparr>)"
proof -
  obtain s where s: "txs_new AMETSUCHI_BLOCK_SIZE = Inr s" "ts_trees s = []" "mt_new (2 ^ 10) 1 = Inr (ts_merkle s)"
    using txs_new_fields by blast
  let ?a = "\<lparr>am_path = folder, am_append_tx = None, am_txs = s, am_wsv = wsv_new, am_trees_total = 0\<rparr>"
  have new: "am_new sha3 F A L folder e = (case am_init sha3 F A L (e, ?a) of
       (Inl err, _) \<Rightarrow> Inl err | (Inr _, st) \<Rightarrow> Inr st)" by (simp add: am_new_def s(1))
  consider t where "am_init sha3 F A L (e, ?a) = (Inl (InternalError FATAL), t)"
    | t where "am_init sha3 F A L (e, ?a) = (Inl Undefined, t)" "\<not> env_codes_checked A folder"
    | e1 a1 where "env_committed e1 = dbs" "\<forall>n x y. env_cmp e1 n x y = 0 \<longleftrightarrow> x = y"
      "ts_merkle (am_txs a1) = ts_merkle s" "ts_trees (am_txs a1) = []" "w_trees (am_wsv a1) = []"
      "am_init sha3 F A L (e, ?a) = bindS (am_init_append_tx F L) (\<lambda>_. on_txs (init_merkle_tree sha3 L)) (e1, a1)"
    using am_init_calls [OF A, of ?a sha3 F L e] s(2) by auto
  then show ?thesis
  proof cases
    case 1
    then show ?thesis using new by simp
  next
    case 2
    then show ?thesis using new by simp
  next
    case i1: 3
    have bt: "between F e1 a1" using i1(1,2,4,5) db by (simp add: between_def handles_of_def)
    obtain r2 e2 a2 where r2: "am_init_append_tx F L (e1, a1) = (r2, (e2, a2))" by (metis prod.exhaust)
    from am_init_append_tx_runs [OF L bt] r2
    consider "r2 = Inl (InternalError FATAL)"
      | "r2 = Inr ()" "env_committed e2 = dbs" "am_ok F e2 a2" "am_trees e2 a2 = dbs_tree dbs"
        "ts_merkle (am_txs a2) = ts_merkle s"
      using i1(1,3) by (cases r2) (auto simp: runs_def committed_only_def fresh_def)
    then show ?thesis
    proof cases
      case 1
      then show ?thesis using new i1(6) r2 by (simp add: bindS_def)
    next
      case i: 2
      from am_init_merkle_ok [OF L i(3) _ _ b, of sha3] s(3) i(4,5) t
      show ?thesis using new i1(6) r2 i(1,2,4) by (auto simp: bindS_def)
    qed
  qed
qed

section \<open>Closing and opening again\<close>

text \<open>What a commit leaves is consistent, with the leaves of the last block in its Merkle tree.\<close>

lemma committed_block:
  assumes L: "lmdb_ok (fb_size F) L" and d: "am_rel sha3 F e a d"
    and sha3: "\<And>x. length (sha3 x) = HASH_LEN" and hs: "\<forall>h \<in> set (db_hashes d). length h = HASH_LEN"
    and ok: "\<And>tx e0. fst (mdb_txn_commit L tx e0) = MDB_SUCCESS"
    and c: "am_commit F L (e, a) = (Inr (), (e1, a1))"
  defines "b \<equiv> last (blk_of (hash_pair sha3) (2 ^ 10) (db_hashes d))"
  shows "db_ok F (env_committed e1)" "view_of F (dbs_tree (env_committed e1)) = db_now d"
    "dbs_tree (env_committed e1) ''merkle_tree'' = block_records (2 ^ 10 - 1) b"
    "length b < 2 ^ 10" "\<forall>h \<in> set b. length h = HASH_LEN"
proof -
  have cm: "commits sha3 F L e a (db_hashes d) (e1, a1)"
    using am_commit_runs [OF L am_relD(1,4) [OF d]] c by (simp add: runs_def)
  then have "am_ok F e1 a1" by (simp add: commits_def)
  then show "db_ok F (env_committed e1)" by (rule am_okD(8))
  show "view_of F (dbs_tree (env_committed e1)) = db_now d"
    using cm ok am_relD(2) [OF d] unfolding commits_def prod.case by metis
  show "dbs_tree (env_committed e1) ''merkle_tree'' = block_records (2 ^ 10 - 1) b"
    using cm ok unfolding commits_def prod.case b_def by metis
  show "length b < 2 ^ 10" "\<forall>h \<in> set b. length h = HASH_LEN"
    using blk_last [of "2 ^ 10" "hash_pair sha3" "db_hashes d"] blk_of_all [of "\<lambda>h. length h = HASH_LEN" "hash_pair sha3" "2 ^ 10", OF _ _ hs]
    unfolding b_def by (simp_all add: hash_pair_def sha3)
qed

lemma reopen_ok:
  assumes L: "lmdb_ok (fb_size F) L" and d: "am_rel sha3 F e a d"
    and sha3: "\<And>x. length (sha3 x) = HASH_LEN" and hs: "\<forall>h \<in> set (db_hashes d). length h = HASH_LEN"
    and ok: "\<And>tx e0. fst (mdb_txn_commit L tx e0) = MDB_SUCCESS"
    and c: "am_commit F L (e, a) = (Inr (), (e1, a1))" and A: "env_api_ok A (env_committed e1)"
  shows "am_new sha3 F A L folder e0 = Inl (InternalError FATAL)
    \<or> am_new sha3 F A L folder e0 = Inl Undefined \<and> \<not> env_codes_checked A folder
    \<or> (\<exists>e2 a2. am_new sha3 F A L folder e0 = Inr (e2, a2)
        \<and> am_rel sha3 F e2 a2 \<lparr>db_now = db_now d, db_committed = db_now d,
            db_hashes = last (blk_of (hash_pair sha3) (2 ^ 10) (db_hashes d))\<rparr>)"
proof -
  note k = committed_block [OF L d sha3 hs ok c]
  show ?thesis using am_new_ok [OF L A k(1,3-5), of sha3 folder e0] unfolding k(2) .
qed

end
