(* ===== verification/Progress.thy ===== *)
theory Progress
  imports Ametsuchi_Reopen
begin

text \<open>
  When nothing fails.  \<open>lmdb_ok\<close> lets most calls of LMDB fail at any time; \<open>lmdb_live\<close> says that,
  in the states that satisfy an invariant, they do not: neither memory nor handles nor room in the
  map run out.  Then a commit and a rollback of the program return normally, in such a state again.
\<close>

section \<open>Operations that succeed\<close>

definition live :: "('s, 'a) op \<Rightarrow> 's \<Rightarrow> ('s \<Rightarrow> bool) \<Rightarrow> bool" where
  "live m s G \<longleftrightarrow> (\<exists>x t. m s = (Inr x, t) \<and> G t)"

lemma live_bind: "live m s G \<Longrightarrow> (\<And>x t. G t \<Longrightarrow> live (f x) t H) \<Longrightarrow> live (bindS m f) s H"
  by (fastforce simp: live_def bindS_def)

lemma live_runs_bind:
  "runs m s A Q \<Longrightarrow> live m s G \<Longrightarrow> (\<And>x t. A t \<Longrightarrow> Q x t \<Longrightarrow> G t \<Longrightarrow> live (f x) t H) \<Longrightarrow> live (bindS m f) s H"
  by (fastforce simp: live_def runs_def bindS_def)

lemma live_modify [simp]: "live (modifyS f) s G \<longleftrightarrow> G (f s)"
  by (simp add: live_def modifyS_def)

lemma live_return [simp]: "live (returnS x) s G \<longleftrightarrow> G s"
  by (simp add: live_def returnS_def)

section \<open>LMDB with room for everything\<close>

text \<open>
  Calls on valid handles return \<^verbatim>\<open>MDB_SUCCESS\<close>, or the code that says that there is no such record or
  that the key exists.  Of a commit nothing is asked but the invariant: it may still fail.
\<close>

definition begin_live :: "(('b, 'x) env \<Rightarrow> bool) \<Rightarrow> ('b, 'x) lmdb \<Rightarrow> bool" where
  "begin_live I L \<longleftrightarrow> (\<forall>e rc tx e'. I e \<and> mdb_txn_begin L False e = (rc, tx, e') \<longrightarrow> rc = MDB_SUCCESS \<and> I e')"

definition dbi_open_live :: "(('b, 'x) env \<Rightarrow> bool) \<Rightarrow> ('b, 'x) lmdb \<Rightarrow> bool" where
  "dbi_open_live I L \<longleftrightarrow> (\<forall>e tx x n fl rc h e'. I e \<and> env_txns e tx = Some x \<and> \<not> txn_rdonly x
     \<and> MDB_CREATE \<in> set fl \<and> mdb_dbi_open L tx n fl e = (rc, h, e') \<longrightarrow> rc = MDB_SUCCESS \<and> I e')"

definition set_dupsort_live :: "(('b, 'x) env \<Rightarrow> bool) \<Rightarrow> ('b, 'x) lmdb \<Rightarrow> bool" where
  "set_dupsort_live I L \<longleftrightarrow> (\<forall>e tx h n cmp rc e'. I e \<and> env_dbis e h = Some n
     \<and> mdb_set_dupsort L tx h cmp e = (rc, e') \<longrightarrow> rc = MDB_SUCCESS \<and> I e')"

definition cursor_open_live :: "(('b, 'x) env \<Rightarrow> bool) \<Rightarrow> ('b, 'x) lmdb \<Rightarrow> bool" where
  "cursor_open_live I L \<longleftrightarrow> (\<forall>e tx h n d rc c e'. I e \<and> env_dbis e h = Some n \<and> txn_db e tx n = Some d
     \<and> mdb_cursor_open L tx h e = (rc, c, e') \<longrightarrow> rc = MDB_SUCCESS \<and> I e')"

definition get_live :: "(('b, 'x) env \<Rightarrow> bool) \<Rightarrow> ('b, 'x) lmdb \<Rightarrow> bool" where
  "get_live I L \<longleftrightarrow> (\<forall>e c cu d op k v rc k' v' e'. I e \<and> env_cursors e c = Some cu
     \<and> txn_db e (cu_txn cu) (cu_db cu) = Some d \<and> mdb_cursor_get L c op k v e = (rc, k', v', e')
     \<longrightarrow> rc \<noteq> EINVAL \<and> I e')"

definition append_live :: "('b \<Rightarrow> nat) \<Rightarrow> (('b, 'x) env \<Rightarrow> bool) \<Rightarrow> ('b, 'x) lmdb \<Rightarrow> bool" where
  "append_live bsize I L \<longleftrightarrow> (\<forall>e c cu d k v rc e'. I e \<and> env_cursors e c = Some cu
     \<and> txn_db e (cu_txn cu) (cu_db cu) = Some d \<and> \<not> txn_rdonly (the (env_txns e (cu_txn cu))) \<and> \<not> db_dup d
     \<and> key_size_ok bsize k \<and> mdb_cursor_put L c k v [MDB_APPEND] e = (rc, e')
     \<longrightarrow> rc \<in> {MDB_SUCCESS, MDB_KEYEXIST} \<and> I e')"

definition drop_live :: "(('b, 'x) env \<Rightarrow> bool) \<Rightarrow> ('b, 'x) lmdb \<Rightarrow> bool" where
  "drop_live I L \<longleftrightarrow> (\<forall>e tx h n d rc e'. I e \<and> env_dbis e h = Some n \<and> txn_db e tx n = Some d
     \<and> \<not> txn_rdonly (the (env_txns e tx)) \<and> mdb_drop L tx h e = (rc, e') \<longrightarrow> rc = MDB_SUCCESS \<and> I e')"

definition ends_live :: "(('b, 'x) env \<Rightarrow> bool) \<Rightarrow> ('b, 'x) lmdb \<Rightarrow> bool" where
  "ends_live I L \<longleftrightarrow> (\<forall>e tx c. I e \<longrightarrow>
     I (snd (mdb_txn_commit L tx e)) \<and> I (mdb_txn_abort L tx e) \<and> I (mdb_cursor_close L c e))"

definition lmdb_live :: "('b \<Rightarrow> nat) \<Rightarrow> (('b, 'x) env \<Rightarrow> bool) \<Rightarrow> ('b, 'x) lmdb \<Rightarrow> bool" where
  "lmdb_live bsize I L \<longleftrightarrow> begin_live I L \<and> dbi_open_live I L \<and> set_dupsort_live I L \<and> cursor_open_live I L
     \<and> get_live I L \<and> append_live bsize I L \<and> drop_live I L \<and> ends_live I L"

definition live_open :: "(('b, 'x) env \<Rightarrow> bool) \<Rightarrow> nat \<Rightarrow> ('b, 'x) env \<times> 's \<Rightarrow> bool" where
  "live_open I tx = (\<lambda>(e, s). I e \<and> writable e tx)"

locale live_store =
  fixes F :: "'b fb" and I :: "('b, 'x) env \<Rightarrow> bool" and L :: "('b, 'x) lmdb"
  assumes lmdb: "lmdb_ok (fb_size F) L"
    and progress: "lmdb_live (fb_size F) I L"
begin

lemmas progress_parts = progress [unfolded lmdb_live_def]

text \<open>The promises one by one.\<close>

lemma live_begin: "I e \<Longrightarrow> mdb_txn_begin L False e = (rc, tx, e') \<Longrightarrow> rc = MDB_SUCCESS \<and> I e'"
  using progress_parts unfolding begin_live_def by blast

lemma live_dbi:
  "I e \<Longrightarrow> writable e tx \<Longrightarrow> MDB_CREATE \<in> set fl \<Longrightarrow> mdb_dbi_open L tx n fl e = (rc, h, e') \<Longrightarrow> rc = MDB_SUCCESS \<and> I e'"
  using progress_parts unfolding dbi_open_live_def writable_def by blast

lemma live_dupsort: "I e \<Longrightarrow> env_dbis e h = Some n \<Longrightarrow> mdb_set_dupsort L tx h cmp e = (rc, e') \<Longrightarrow> rc = MDB_SUCCESS \<and> I e'"
  using progress_parts unfolding set_dupsort_live_def by blast

lemma live_cursor:
  "I e \<Longrightarrow> env_dbis e h = Some n \<Longrightarrow> txn_db e tx n = Some d \<Longrightarrow> mdb_cursor_open L tx h e = (rc, c, e') \<Longrightarrow>
    rc = MDB_SUCCESS \<and> I e'"
  using progress_parts unfolding cursor_open_live_def by blast

lemma live_ends: "I e \<Longrightarrow> I (snd (mdb_txn_commit L tx e))" "I e \<Longrightarrow> I (mdb_txn_abort L tx e)"
  "I e \<Longrightarrow> I (mdb_cursor_close L c e)"
  using progress_parts unfolding ends_live_def by blast+

lemma live_get:
  assumes "store_ok names ts tx e" and "(n, dup) \<in> set names" and "map_of ts n = Some (d, c)" and "I e"
    and g: "mdb_cursor_get L c op k v e = (rc, k', v', e')"
  shows "rc \<noteq> EINVAL" "I e'"
proof -
  obtain cu db where "env_cursors e c = Some cu" "cu_txn cu = tx" "cu_db cu = n" "txn_db e tx n = Some db"
    using store_cursor [OF assms(1-3)] by blast
  then have "env_cursors e c = Some cu" "txn_db e (cu_txn cu) (cu_db cu) = Some db" by simp_all
  then show "rc \<noteq> EINVAL" "I e'" using progress_parts assms(4) g unfolding get_live_def by blast+
qed

lemma live_append:
  assumes "store_ok names ts tx e" and "(n, False) \<in> set names" and "map_of ts n = Some (d, c)" and "I e"
    and k: "key_size_ok (fb_size F) k" and g: "mdb_cursor_put L c k v [MDB_APPEND] e = (rc, e')"
  shows "rc \<in> {MDB_SUCCESS, MDB_KEYEXIST}" "I e'"
proof -
  obtain cu db where o: "env_cursors e c = Some cu" "cu_txn cu = tx" "cu_db cu = n" "txn_db e tx n = Some db" "db_dup db = False"
    using store_cursor [OF assms(1-3)] by blast
  have "\<not> txn_rdonly (the (env_txns e tx))" using assms(1) by (auto simp: store_ok_def)
  then have "env_cursors e c = Some cu" "txn_db e (cu_txn cu) (cu_db cu) = Some db"
    "\<not> txn_rdonly (the (env_txns e (cu_txn cu)))" "\<not> db_dup db" using o by simp_all
  then show "rc \<in> {MDB_SUCCESS, MDB_KEYEXIST}" "I e'" using progress_parts assms(4) k g unfolding append_live_def by blast+
qed

lemma live_drop:
  assumes "store_ok names ts tx e" and "(n, dup) \<in> set names" and "map_of ts n = Some (h, c)" and "I e"
    and g: "mdb_drop L tx h e = (rc, e')"
  shows "rc = MDB_SUCCESS" "I e'"
proof -
  obtain d where "env_dbis e h = Some n" "txn_db e tx n = Some d"
    using store_okD [OF assms(1,2)] assms(3) by auto
  moreover have "\<not> txn_rdonly (the (env_txns e tx))" using assms(1) by (auto simp: store_ok_def)
  ultimately show "rc = MDB_SUCCESS" "I e'" using progress_parts assms(4) g unfolding drop_live_def by blast+
qed

text \<open>Opening trees.\<close>

lemma live_dbi_open:
  assumes I: "I e" "writable e tx" and fl: "MDB_CREATE \<in> set fl" and g: "mdb_dbi_open L tx n fl e = (rc, h, e')"
  shows "rc = MDB_SUCCESS" "I e'" "env_dbis e' h = Some n" "writable e' tx" "\<exists>db. txn_db e' tx n = Some db"
proof -
  show ok: "rc = MDB_SUCCESS" "I e'" using live_dbi [OF assms] by simp_all
  obtain x where x: "env_txns e tx = Some x" "\<not> txn_rdonly x" using I(2) by (auto simp: writable_def)
  have "dbi_open_spec L" using lmdb by (simp add: lmdb_ok_def)
  from this [unfolded dbi_open_spec_def, rule_format, of e tx x n fl rc h e'] x(1) g ok(1)
  have s: "env_dbis e' = (env_dbis e)(h \<mapsto> n)"
    "if txn_dbs x n = None
     then env_txns e' = (env_txns e)(tx \<mapsto> x\<lparr>txn_dbs := (txn_dbs x)
            (n \<mapsto> \<lparr>db_dup = (MDB_DUPSORT \<in> set fl), db_tree = []\<rparr>)\<rparr>)
     else env_txns e' = env_txns e" by (simp_all split: if_splits)
  show "env_dbis e' h = Some n" using s(1) by simp
  show "writable e' tx" using s(2) x by (auto simp: writable_def split: if_splits)
  show "\<exists>db. txn_db e' tx n = Some db" using s(2) x(1) by (auto simp: txn_db_def split: if_splits)
qed

lemma live_init_btree:
  assumes "live_open I tx (e, s)" and "MDB_CREATE \<in> set fl"
  shows "live (init_btree L tx n fl dupsort) (e, s) (live_open I tx)"
proof -
  have I: "I e" "writable e tx" using assms(1) by (simp_all add: live_open_def)
  obtain rc d e1 where g: "mdb_dbi_open L tx n fl e = (rc, d, e1)" by (metis prod_cases3)
  note 1 = live_dbi_open [OF I assms(2) g]
  obtain db where db: "txn_db e1 tx n = Some db" using 1(5) by blast
  obtain rc2 c e2 where g2: "mdb_cursor_open L tx d e1 = (rc2, c, e2)" by (metis prod_cases3)
  have 2: "rc2 = MDB_SUCCESS" "I e2" using live_cursor [OF 1(2,3) db g2] by simp_all
  note c = cursor_open_opened [OF lmdb 1(3) db g2]
  have w2: "writable e2 tx" using opens_writable [OF 1(4) c(1)] .
  show ?thesis
  proof (cases dupsort)
    case None
    then show ?thesis using g g2 1 2 w2
      by (simp add: live_def init_btree_def critical_def bindS_def result_simps live_open_def)
  next
    case (Some cmp)
    obtain rc3 e3 where g3: "mdb_set_dupsort L tx d cmp e2 = (rc3, e3)" by (metis prod.exhaust)
    have d2: "env_dbis e2 d = Some n" using c(4) 1(3) by simp
    have 3: "rc3 = MDB_SUCCESS" "I e3" using live_dupsort [OF 2(2) d2 g3] by simp_all
    have "writable e3 tx" using opens_writable [OF w2 set_dupsort_opens(1) [OF lmdb d2 g3]] .
    then show ?thesis using Some g g2 g3 1 2 3
      by (simp add: live_def init_btree_def critical_def bindS_def result_simps live_open_def)
  qed
qed

lemma live_create_tree:
  assumes "live_open I tx t" and "MDB_CREATE \<in> set fl"
  shows "live (create_new_tree L tx n fl) t (live_open I tx)"
  unfolding create_new_tree_def modify_txs_def
  by (rule live_bind [OF live_init_btree [of tx "fst t" "snd t", simplified, OF assms]]) (auto simp: live_open_def)

lemma live_wsv_open_tree:
  assumes "live_open I tx t" and "MDB_CREATE \<in> set fl"
  shows "live (wsv_open_tree L tx n fl dupsort) t (live_open I tx)"
  unfolding wsv_open_tree_def modify_wsv_def
  by (rule live_bind [OF live_init_btree [of tx "fst t" "snd t", simplified, OF assms]]) (auto simp: live_open_def)

lemma live_create_index_trees:
  "live_open I tx s \<Longrightarrow> live (create_index_trees L tx ns) s (live_open I tx)"
proof (induction ns arbitrary: s)
  case (Cons n ns)
  then show ?case using live_bind [OF live_create_tree [OF Cons.prems] Cons.IH] by simp
qed simp

lemma live_txs_opening: "live_open I tx s \<Longrightarrow> live (txs_opening L tx) s (live_open I tx)"
  unfolding txs_opening_def modify_txs_def
  by (intro live_bind [where G = "live_open I tx"] live_create_index_trees live_create_tree) (auto simp: live_open_def)

lemma live_wsv_opening: "live_open I tx s \<Longrightarrow> live (wsv_opening F L tx) s (live_open I tx)"
  unfolding wsv_opening_def modify_wsv_def
  by (intro live_bind [where G = "live_open I tx"] live_wsv_open_tree) (auto simp: live_open_def)

text \<open>Reading.\<close>

lemma live_records_loop:
  assumes n: "(n, dup) \<in> set names" and c: "map_of ts n = Some (d, c)"
  shows "store_ok names ts tx e \<Longrightarrow> I e \<Longrightarrow> at_record e tx n c i \<Longrightarrow>
    \<exists>xs e'. records_loop L c k v ret e = Some (Inr xs, e') \<and> I e'"
proof (induction "length (store_tree e tx n) - i" arbitrary: i e k v ret)
  case 0
  then show ?case by (simp add: at_record_def)
next
  case (Suc m)
  obtain rc k' v' e1 where g: "mdb_cursor_get L c MDB_NEXT k v e = (rc, k', v', e1)"
    by (metis prod_cases4)
  note f = live_get [OF Suc.prems(1) n c Suc.prems(2) g]
  have sn: "step_on tx {} e e1" "rc = MDB_NOTFOUND \<or> rc = MDB_SUCCESS \<and> at_record e1 tx n c (Suc i)"
    using cursor_next [OF lmdb store_reads [OF Suc.prems(1) n c] g _ Suc.prems(3)] f(1) by auto
  have t1: "store_tree e1 tx n = store_tree e tx n" using step_on_tree [OF sn(1)] by simp
  show ?case
  proof (cases "rc = MDB_NOTFOUND")
    case True
    then show ?thesis using f(2) by (subst records_loop.simps) (simp add: g)
  next
    case False
    then have ok: "rc = MDB_SUCCESS" "at_record e1 tx n c (Suc i)" using sn(2) by auto
    have "m = length (store_tree e1 tx n) - Suc i" using Suc.hyps(2) t1 by simp
    from Suc.hyps(1) [OF this store_ok_step [OF Suc.prems(1) sn(1)] f(2) ok(2)]
    show ?thesis using ok(1) by (subst records_loop.simps) (simp add: g)
  qed
qed

lemma live_read_all:
  assumes st: "store_ok names ts tx e" and n: "(n, dup) \<in> set names" and c: "map_of ts n = Some (d, c)"
    and fr: "I e"
  shows "live (read_all_records L c) (e, s) (\<lambda>(e, s). I e)"
proof -
  obtain rc k v e1 where g: "mdb_cursor_get L c MDB_FIRST (IStr []) (IStr []) e = (rc, k, v, e1)"
    by (metis prod_cases4)
  note f = live_get [OF st n c fr g]
  have sg: "step_on tx {} e e1" "rc = MDB_NOTFOUND \<or> rc = MDB_SUCCESS \<and> at_record e1 tx n c 0"
    using cursor_seek [OF lmdb store_reads [OF st n c] g] f(1) by (auto simp: get_target_def split: if_splits)
  show ?thesis
  proof (cases "rc = MDB_NOTFOUND")
    case True
    then show ?thesis using f(2)
      by (simp add: live_def read_all_records_def bindS_def cursor_get_def g result_simps)
  next
    case False
    then have "rc = MDB_SUCCESS" "at_record e1 tx n c 0" using sg(2) by auto
    then show ?thesis
      using live_records_loop [OF n c store_ok_step [OF st sg(1)] f(2), of 0 k v "[]"]
      by (auto simp: live_def read_all_records_def bindS_def cursor_get_def g critical_def result_simps loopS_def)
  qed
qed

text \<open>A new append transaction.\<close>

lemma live_set_tx_total:
  assumes st: "store_ok txs_names (ts_trees s) tx e" and fr: "I e"
    and t: "map fst (store_tree e tx ''tx_store'') = map INum [1..<Suc n]"
  shows "live (set_tx_total L) (e, s) (\<lambda>(e, s). I e)"
proof -
  obtain d c where h: "map_of (ts_trees s) ''tx_store'' = Some (d, c)"
    using store_okD [OF st txs_names_mem(1)] by blast
  obtain rc k v e1 where g: "mdb_cursor_get L c MDB_LAST (IStr []) (IStr []) e = (rc, k, v, e1)"
    by (metis prod_cases4)
  note f = live_get [OF st txs_names_mem(1) h fr g]
  have run: "set_tx_total L (e, s) =
      (if rc = MDB_NOTFOUND then (Inr (), (e1, s\<lparr>ts_total := 0\<rparr>))
       else if rc \<noteq> MDB_SUCCESS then (Inr (), (e1, s))
       else (case k of INum n \<Rightarrow> (Inr (), (e1, s\<lparr>ts_total := n\<rparr>)) | _ \<Rightarrow> (Inl Undefined, (e1, s))))"
    using f(1) by (simp add: set_tx_total_def bindS_def txs_tree_def trees_at_def h cursor_get_def g result_simps
        critical_def whenS_def modify_txs_def split: item.split)
  have "fst (set_tx_total L (e, s)) \<noteq> Inl Undefined"
    using set_tx_total_ok [OF lmdb st t] by auto
  then show ?thesis using f(2) run by (auto simp: live_def split: if_splits item.splits)
qed

lemma live_txs_init:
  assumes w: "writable e tx" and fr: "I e" and flags: "\<forall>(n, dup) \<in> set txs_names. flag_ok e tx n dup"
    and hs: "handles_of txs_set (ts_trees s)"
    and t: "map fst (store_tree e tx ''tx_store'') = map INum [1..<Suc n]"
  shows "live (txs_init L tx) (e, s) (\<lambda>(e, s). I e)"
  unfolding txs_init_eq
proof (rule live_runs_bind [OF txs_opening_runs [OF lmdb w flags hs] live_txs_opening])
  show "live_open I tx (e, s)" using w fr by (simp add: live_open_def)
  fix u and t' :: "('b, 'x) env \<times> txstore"
  assume a: "during txs_set tx e t'" and p: "txs_part txs_names tx e s t'" and o: "live_open I tx t'"
  obtain e1 s1 where t': "t' = (e1, s1)" by (cases t')
  have "store_tree e1 tx ''tx_store'' = store_tree e tx ''tx_store''"
    using a opens_tree [of tx e e1] by (simp add: t' during_def)
  then obtain u2 e2 s2 where s2: "set_tx_total L (e1, s1) = (Inr u2, (e2, s2))" "I e2"
    using live_set_tx_total [of s1 tx e1 n] p o t by (auto simp: t' txs_part_def live_open_def live_def)
  let ?rest = "bindS (set_tx_total L) (\<lambda>_. bindS txs_get_trees_total
      (\<lambda>n. bindS getS (\<lambda>(e, s). assertS (n = length (ts_trees s)))))"
  have "?rest t' = ((if length (ts_trees s2) = 18 then Inr () else Inl Assert_Failed), (e2, s2\<lparr>ts_trees_total := 18\<rparr>))"
    using s2(1) by (auto simp: t' bindS_def txs_get_trees_total_def modify_txs_def result_simps)
  moreover have "fst (?rest t') \<noteq> Inl Assert_Failed"
    using txs_finish_runs [OF lmdb a [unfolded t'] p [unfolded t'] t]
    by (auto simp: t' runs_def split: sum.splits prod.splits)
  ultimately show "live ?rest t' (\<lambda>(e, s). I e)" using s2(2) by (simp add: live_def split: if_splits)
qed

lemma live_wsv_init:
  assumes w: "writable e tx" and fr: "I e" and flags: "\<forall>(n, dup) \<in> set wsv_names. flag_ok e tx n dup"
    and hs: "handles_of wsv_set (w_trees w)" and d: "wsv_data_ok F (store_tree e tx)"
  shows "live (wsv_init F L tx) (e, w) (\<lambda>(e, w). I e)"
  unfolding wsv_init_eq
proof (rule live_runs_bind [OF wsv_opening_runs [OF lmdb w flags hs] live_wsv_opening])
  show "live_open I tx (e, w)" using assms(1) fr by (simp add: live_open_def)
  fix u and t' :: "('b, 'x) env \<times> 'b wsv"
  assume a: "during wsv_set tx e t'"
    and p: "wsv_part wsv_names tx e ((env_cmp e)(''wsv_pubkey_assets'' := cmp_assets F)) t'" and o: "live_open I tx t'"
  obtain e1 w1 where t': "t' = (e1, w1)" by (cases t')
  have n: "(''wsv_assetid_asset'', False) \<in> set wsv_names" by (simp add: wsv_names_def)
  have st: "store_ok wsv_names (w_trees w1) tx e1" using p by (simp add: t' wsv_part_def)
  obtain hd c where c: "map_of (w_trees w1) ''wsv_assetid_asset'' = Some (hd, c)" using store_okD [OF st n] by blast
  obtain xs e2 where r: "read_all_records L c (e1, w1) = (Inr xs, (e2, w1))" "I e2"
    using live_read_all [OF st n c, of w1] read_all_ok [OF lmdb store_reads [OF st n c], of w1] o
    by (auto simp: t' live_open_def live_def)
  let ?rest = "bindS (read_created_assets L) (\<lambda>_. bindS wsv_get_trees_total
      (\<lambda>n. bindS getS (\<lambda>(e, w). assertS (n = length (w_trees w)))))"
  have res: "(\<exists>w2. ?rest t' = (Inr (), (e2, w2))) \<or> fst (?rest t') = Inl Undefined \<or> fst (?rest t') = Inl Assert_Failed"
    if "\<And>err. foldR created_step xs (\<lambda>_. None) = Inl err \<Longrightarrow> err = Undefined"
    using that by (auto simp: t' read_created_assets_def bindS_def wsv_tree_def trees_at_def c r(1) modify_wsv_def
        wsv_get_trees_total_def result_simps split: sum.splits)
  have "foldR created_step xs m = Inl err \<Longrightarrow> err = Undefined" for m err
  proof (induction xs arbitrary: m)
    case (Cons x xs)
    then show ?case by (cases "(x, m)" rule: created_step.cases) auto
  qed simp
  moreover have "fst (?rest t') \<noteq> Inl Undefined" "fst (?rest t') \<noteq> Inl Assert_Failed"
    using wsv_finish_runs [OF lmdb a [unfolded t'] p [unfolded t'] _ d]
    by (auto simp: t' runs_def split: sum.splits prod.splits)
  ultimately show "live ?rest t' (\<lambda>(e, w). I e)" using res r(2) by (auto simp: live_def)
qed

lemma live_init_append_tx:
  assumes b: "between F e a" and fr: "I e"
  shows "live (am_init_append_tx F L) (e, a) (\<lambda>(e, a). I e)"
proof -
  let ?dbs = "env_committed e"
  obtain rc tx e1 where g: "mdb_txn_begin L False e = (rc, tx, e1)" by (metis prod_cases3)
  have ok: "rc = MDB_SUCCESS" "I e1"
    using live_begin [OF fr g] by simp_all
  let ?a1 = "a\<lparr>am_append_tx := Some tx\<rparr>"
  have db: "flags_ok ?dbs" "trees_ok F (dbs_tree ?dbs)" using b by (simp_all add: between_def db_ok_def)
  have h: "handles_of txs_set (ts_trees (am_txs ?a1))" "handles_of wsv_set (w_trees (am_wsv ?a1))"
    using b by (simp_all add: between_def)
  note st = begin_starts(4) [OF lmdb db(1) g ok(1)]
  have "live (txs_init L tx) (e1, am_txs ?a1) (\<lambda>(e, s). I e)"
    by (rule live_txs_init [OF _ ok(2) _ h(1)]) (use st db(2) in \<open>auto simp: starts_def trees_ok_def\<close>)
  then obtain e2 s2 where t: "txs_init L tx (e1, am_txs ?a1) = (Inr (), (e2, s2))" "I e2"
    by (auto simp: live_def)
  then have "during txs_set tx e1 (e2, s2)"
    using starts_txs_init [OF lmdb st db(2) h(1)] by (simp add: runs_def)
  note s2 = starts_wsv [OF st this]
  have "live (wsv_init F L tx) (e2, am_wsv ?a1) (\<lambda>(e, w). I e)"
    by (rule live_wsv_init [OF _ t(2) _ h(2)]) (use s2 db(2) in \<open>auto simp: starts_def trees_ok_def\<close>)
  then show ?thesis
    using am_init_append_tx_eq [OF lmdb db(1) g] ok(1) t(1)
    by (auto simp: live_def bindS_def on_txs_def on_wsv_def)
qed

lemma live_close_all: "I e \<Longrightarrow> I (close_all L ts e)"
proof (induction ts arbitrary: e)
  case (Cons h ts)
  obtain n d c where h: "h = (n, d, c)" by (metis prod_cases3)
  have "I (mdb_cursor_close L c e)"
    using Cons.prems by (rule live_ends(3))
  then show ?case using Cons.IH by (simp add: close_all_def h)
qed (simp add: close_all_def)

lemma live_close_cursors: "I e \<Longrightarrow> live (am_close_cursors L) (e, a) (\<lambda>(e, a). I e)"
  by (simp add: live_def am_close_cursors_def on_txs_def on_wsv_def txs_close_cursors_def wsv_close_cursors_def
      bindS_def result_simps envS_def live_close_all)

lemma live_rollback:
  assumes a: "am_ok F e a" and fr: "I e"
  shows "live (am_rollback F L) (e, a) (\<lambda>(e, a). I e)"
proof -
  let ?tx = "ts_append_tx (am_txs a)"
  obtain e1 where e1: "am_close_cursors L (e, a) = (Inr (), (e1, a))" "I e1"
    using am_close_cursors_ok [OF lmdb, of e a] live_close_cursors [OF fr, of a]
    by (auto simp: live_def)
  let ?e2 = "mdb_txn_abort L ?tx e1"
  have run: "am_abort_append_tx L (e, a) = (Inr (), (?e2, a))"
    using am_okD(1) [OF a] e1(1) by (simp add: am_abort_append_tx_def bindS_def result_simps envS_def)
  have "I ?e2" using e1(2) by (rule live_ends(2))
  moreover have "between F ?e2 a" using am_abort_ok [OF lmdb a] run by auto
  ultimately show ?thesis using live_init_append_tx [of ?e2 a] run
    by (simp add: live_def am_rollback_def bindS_def)
qed

lemma live_commit_loop:
  "store_ok txs_names (ts_trees s) (ts_append_tx s) e \<Longrightarrow> z \<le> length b \<Longrightarrow> I e \<Longrightarrow>
    live (commit_loop L b [a..<z]) (e, s) (\<lambda>(e, s). I e)"
proof (induction "z - a" arbitrary: a e)
  case 0
  then show ?case by simp
next
  case (Suc m)
  have az: "a < z" "[a..<z] = a # [Suc a..<z]" "m = z - Suc a" using Suc.hyps(2) by (simp_all add: upt_conv_Cons)
  obtain d c where h: "map_of (ts_trees s) ''merkle_tree'' = Some (d, c)"
    using store_okD [OF Suc.prems(1) txs_names_mem(2)] by blast
  obtain rc e1 where g: "mdb_cursor_put L c (INum a) (IHash (b ! a)) [MDB_APPEND] e = (rc, e1)"
    by (metis prod.exhaust)
  have "key_size_ok (fb_size F) (INum a)" by (simp add: key_size_ok_def MAXKEYSIZE_def)
  note p = live_append [OF Suc.prems(1) txs_names_mem(2) h Suc.prems(3) this g]
  have st: "store_ok txs_names (ts_trees s) (ts_append_tx s) e1"
    by (rule store_ok_step [OF Suc.prems(1) store_put_frame [OF lmdb Suc.prems(1) txs_names_mem(2) h g]])
  have "a < length b" using az(1) Suc.prems(2) by simp
  then have "commit_loop L b [a..<z] (e, s) = commit_loop L b [Suc a..<z] (e1, s)"
    using p(1) unfolding az(2)
    by (auto simp: bindS_def liftR_def vec_at_def txs_tree_def trees_at_def h cursor_put_def g critical_def result_simps)
  then show ?case using Suc.hyps(1) [OF az(3) st Suc.prems(2) p(2)] by (simp add: live_def)
qed

lemma live_txs_commit:
  assumes st: "store_ok txs_names (ts_trees s) (ts_append_tx s) e" and fr: "I e"
    and k: "1 \<le> k" "k \<le> 31" and m: "mt_run sha3 (2 ^ k) 1 hs = Inr (ts_merkle s)"
  shows "live (txs_commit L) (e, s) (\<lambda>(e, s). I e)"
proof -
  let ?m = "ts_merkle s"
  obtain d c where h: "map_of (ts_trees s) ''merkle_tree'' = Some (d, c)"
    using store_okD [OF st txs_names_mem(2)] by blast
  obtain rc e1 where g: "mdb_drop L (ts_append_tx s) d e = (rc, e1)" by (metis prod.exhaust)
  note p = live_drop [OF st txs_names_mem(2) h fr g]
  have st1: "store_ok txs_names (ts_trees s) (ts_append_tx s) e1"
    using store_ok_step [OF st] store_drop [OF lmdb st txs_names_mem(2) h g] by blast
  obtain b where b: "mt_last_block ?m = Inr b" "mt_last_block_end ?m \<le> length b"
    using merkle_leaves [OF mt_run_hist [OF k m]] by blast
  have "txs_commit L (e, s) = commit_loop L b [mt_last_block_begin ?m..<mt_last_block_end ?m] (e1, s)"
    using p(1) by (simp add: txs_commit_def bindS_def txs_tree_def trees_at_def h g critical_def liftR_def b(1) result_simps)
  then show ?thesis using live_commit_loop [OF st1 b(2) p(2)] by (simp add: live_def)
qed

text \<open>A commit: whatever \<^verbatim>\<open>mdb_txn_commit\<close> returns, the next transaction is begun.\<close>

lemma live_commit:
  assumes d: "am_rel sha3 F e a d" and fr: "I e"
  shows "live (am_commit F L) (e, a) (\<lambda>(e, a). I e)"
proof -
  let ?tx = "ts_append_tx (am_txs a)"
  note o = am_okD [OF am_relD(1) [OF d]]
  note st = txs_okD(1) [OF o(3)] and m = am_relD(4) [OF d]
  obtain e1 where e1: "txs_commit L (e, am_txs a) = (Inr (), (e1, am_txs a))" "I e1"
    "step_on ?tx {''merkle_tree''} e e1"
    using live_txs_commit [OF st fr _ _ m] commit_ok [OF lmdb st _ _ m] by (auto simp: live_def)
  note a1 = am_ok_step(1) [OF am_relD(1) [OF d] e1(3)]
  obtain e2 where e2: "am_close_cursors L (e1, a) = (Inr (), (e2, a))" "I e2" "same_data e1 e2"
    using am_close_cursors_ok [OF lmdb, of e1 a] live_close_cursors [OF e1(2), of a] by (auto simp: live_def)
  obtain x where x: "env_txns e2 ?tx = Some x" "\<not> txn_rdonly x" "db_ok F (txn_dbs x)"
    using am_ok_txn [OF a1] e2(3) by (metis same_data_def)
  obtain rc e3 where g: "mdb_txn_commit L ?tx e2 = (rc, e3)" by (metis prod.exhaust)
  have "commit_spec L" using lmdb by (simp add: lmdb_ok_def)
  then have e3: "env_cmp e3 = env_cmp e2"
    "env_committed e3 = (if rc = MDB_SUCCESS then txn_dbs x else env_committed e2)"
    using x(1,2) g unfolding commit_spec_def by blast+
  have b: "between F e3 a"
    by (rule am_ok_between [OF a1]) (use e3 e2(3) x(3) am_okD(8) [OF a1] in \<open>simp_all add: same_data_def\<close>)
  have "I e3" using live_ends(1) [OF e2(2), of ?tx] g by simp
  moreover have "am_commit F L (e, a) = am_init_append_tx F L (e3, a)"
    using o(1) by (simp add: am_commit_def bindS_def on_txs_def e1 e2(1) envS_def result_simps g)
  ultimately show ?thesis using live_init_append_tx [OF b] by (simp add: live_def)
qed

text \<open>The Merkle tree of an open database.\<close>

lemma live_init_merkle_tree:
  assumes st: "store_ok txs_names (ts_trees s) (ts_append_tx s) e" and fr: "I e"
    and k: "1 \<le> k" "k \<le> 31" and m: "mt_new (2 ^ k) 1 = Inr (ts_merkle s)"
    and t: "ttree e s ''merkle_tree'' = block_records (2 ^ k - 1) b"
    and b: "length b < 2 ^ k" "\<forall>h \<in> set b. length h = HASH_LEN"
  shows "live (init_merkle_tree sha3 L) (e, s) (\<lambda>(e, s). I e)"
proof -
  let ?n = "''merkle_tree''"
  obtain d c where h: "map_of (ts_trees s) ?n = Some (d, c)" "txs_tree ?n (e, s) = (Inr (d, c), (e, s))"
    using txs_handle [OF st txs_names_mem(2)] by blast
  obtain recs e1 where r: "read_all_records L c (e, s) = (Inr recs, (e1, s))" "I e1"
    "recs = block_records (2 ^ k - 1) b"
    using live_read_all [OF st txs_names_mem(2) h(1) fr, of s]
      read_all_ok [OF lmdb store_reads [OF st txs_names_mem(2) h(1)], of s] t
    by (auto simp: live_def ttree_def)
  have "mt_run sha3 (2 ^ k) 1 [] = Inr (ts_merkle s)" using m by (simp add: mt_run_def)
  then obtain m' where "reload_loop sha3 recs (e1, s) = (Inr (), (e1, s\<lparr>ts_merkle := m'\<rparr>))"
    using reload_loop_ok [OF k, of "[]" b sha3 s e1] b unfolding r(3) by auto
  then show ?thesis using r(2) by (simp add: live_def init_merkle_tree_def bindS_def h(2) r(1))
qed

end

end
