(* ===== verification/Memory_Progress.thy ===== *)
theory Memory_Progress
  imports Progress Lmdb_Memory
begin

text \<open>
  The database in memory is an LMDB on which nothing fails: the laws of \<open>live_store\<close> hold for it.
  The invariant is that the handles not given out yet are unused.
\<close>

definition mem_fresh :: "'b mem \<Rightarrow> bool" where
  "mem_fresh e \<longleftrightarrow> (\<forall>h \<ge> env_hidden e. env_txns e h = None \<and> env_dbis e h = None \<and> env_cursors e h = None)"

lemma mem_freshD:
  "mem_fresh e \<Longrightarrow> env_hidden e \<le> h \<Longrightarrow> env_txns e h = None \<and> env_dbis e h = None \<and> env_cursors e h = None"
  by (simp add: mem_fresh_def)

lemma mem_fresh_less:
  "mem_fresh e \<Longrightarrow> env_txns e h = Some x \<Longrightarrow> h < env_hidden e"
  "mem_fresh e \<Longrightarrow> env_cursors e h = Some y \<Longrightarrow> h < env_hidden e"
  by (auto simp: mem_fresh_def intro: ccontr)

lemma mem_fresh_txns:
  "mem_fresh e \<Longrightarrow> env_txns e tx = Some x \<Longrightarrow> mem_fresh (e\<lparr>env_txns := upd_tree tx n t (env_txns e)\<rparr>)"
  by (frule (1) mem_fresh_less(1)) (auto simp: mem_fresh_def upd_tree_def)

lemma mem_begin_live: "begin_live mem_fresh (mem_lmdb bsize)"
  by (auto simp: begin_live_def mem_lmdb_def mem_txn_begin_def mem_fresh_def Let_def split: if_splits)

lemma mem_dbi_open_live: "dbi_open_live mem_fresh (mem_lmdb bsize)"
  unfolding dbi_open_live_def
proof (intro allI impI, elim conjE)
  fix e :: "'a mem" and tx x n fl rc h e'
  assume e: "mem_fresh e" and x: "env_txns e tx = Some x" "\<not> txn_rdonly x" "MDB_CREATE \<in> set fl"
    and g: "mdb_dbi_open (mem_lmdb bsize) tx n fl e = (rc, h, e')"
  have "tx < env_hidden e" "env_dbis e (env_hidden e) = None"
    using mem_fresh_less(1) [OF e x(1)] mem_freshD [OF e] by simp_all
  then show "rc = MDB_SUCCESS \<and> mem_fresh e'"
    using e x g by (auto simp: mem_lmdb_def mem_dbi_open_def mem_fresh_def Let_def split: if_splits)
qed

lemma mem_set_dupsort_live: "set_dupsort_live mem_fresh (mem_lmdb bsize)"
  by (auto simp: set_dupsort_live_def mem_lmdb_def mem_set_dupsort_def mem_fresh_def)

lemma mem_cursor_open_live: "cursor_open_live mem_fresh (mem_lmdb bsize)"
  by (auto simp: cursor_open_live_def mem_lmdb_def mem_cursor_open_def mem_fresh_def Let_def split: if_splits)

lemma mem_get_live: "get_live mem_fresh (mem_lmdb bsize)"
  unfolding get_live_def
proof (intro allI impI, elim conjE)
  fix e :: "'a mem" and c cu d op k v rc k' v' e'
  assume e: "mem_fresh e" and c: "env_cursors e c = Some cu" "txn_db e (cu_txn cu) (cu_db cu) = Some d"
    and g: "mdb_cursor_get (mem_lmdb bsize) c op k v e = (rc, k', v', e')"
  have "c < env_hidden e" by (rule mem_fresh_less(2) [OF e c(1)])
  then show "rc \<noteq> EINVAL \<and> mem_fresh e'"
    using e c g by (auto simp: mem_lmdb_def mem_get_def mem_fresh_def split: option.splits)
qed

lemma mem_append_live: "append_live bsize mem_fresh (mem_lmdb bsize)"
  unfolding append_live_def
proof (intro allI impI, elim conjE)
  fix e :: "'a mem" and c cu d k v rc e'
  assume e: "mem_fresh e" and c: "env_cursors e c = Some cu" "txn_db e (cu_txn cu) (cu_db cu) = Some d" "\<not> db_dup d"
    and k: "key_size_ok bsize k" and g: "mdb_cursor_put (mem_lmdb bsize) c k v [MDB_APPEND] e = (rc, e')"
  obtain x where "env_txns e (cu_txn cu) = Some x" using c(2) by (auto simp: txn_db_def split: option.splits)
  then show "rc \<in> {MDB_SUCCESS, MDB_KEYEXIST} \<and> mem_fresh e'"
    using e c k g mem_fresh_txns [OF e]
    by (auto simp: mem_lmdb_def mem_put_def put_size_ok_def mem_put_tree_def split: if_splits)
qed

lemma mem_drop_live: "drop_live mem_fresh (mem_lmdb bsize)"
  unfolding drop_live_def
proof (intro allI impI, elim conjE)
  fix e :: "'a mem" and tx h n d rc e'
  assume e: "mem_fresh e" and h: "env_dbis e h = Some n" "txn_db e tx n = Some d"
    and g: "mdb_drop (mem_lmdb bsize) tx h e = (rc, e')"
  obtain x where "env_txns e tx = Some x" using h(2) by (auto simp: txn_db_def split: option.splits)
  then show "rc = MDB_SUCCESS \<and> mem_fresh e'"
    using h g mem_fresh_txns [OF e] by (auto simp: mem_lmdb_def mem_drop_def)
qed

lemma mem_ends_live: "ends_live mem_fresh (mem_lmdb bsize)"
  by (auto simp: ends_live_def mem_lmdb_def mem_txn_commit_def mem_txn_abort_def mem_cursor_close_def mem_fresh_def
      split: option.split)

lemma mem_live: "lmdb_live bsize mem_fresh (mem_lmdb bsize)"
  by (simp add: lmdb_live_def mem_begin_live mem_dbi_open_live mem_set_dupsort_live mem_cursor_open_live mem_get_live
      mem_append_live mem_drop_live mem_ends_live)

interpretation memory: live_store F mem_fresh "mem_lmdb (fb_size F)" for F :: "'b fb"
  by unfold_locales (rule mem_ok mem_live)+

lemma mem_commit_code: "fst (mdb_txn_commit (mem_lmdb bsize) tx e) = MDB_SUCCESS"
  by (simp add: mem_lmdb_def mem_txn_commit_def split: option.split)

lemma mem_commit:
  assumes d: "am_rel sha3 F e a d" and fr: "mem_fresh e"
  obtains e' a' where "am_commit F (mem_lmdb (fb_size F)) (e, a) = (Inr (), (e', a'))"
    "am_rel sha3 F e' a' (spec_commit d)"
proof -
  obtain e' a' where r: "am_commit F (mem_lmdb (fb_size F)) (e, a) = (Inr (), (e', a'))"
    using memory.live_commit [OF assms] by (auto simp: live_def)
  from am_commit_ok [OF mem_ok d r] that [OF r] show ?thesis by (auto simp: mem_commit_code)
qed

section \<open>Opening a database\<close>

text \<open>The environment calls on a database in memory, for a file that holds given databases.\<close>

definition mem_env_api :: "(string \<Rightarrow> 'b db option) \<Rightarrow> ('b, nat) env_api" where
  "mem_env_api dbs = \<lparr>os_mkdir = (\<lambda>_. 0), mdb_env_create = (MDB_SUCCESS, mem_empty),
     mdb_env_set_mapsize = (\<lambda>n e. (MDB_SUCCESS, e)), mdb_env_set_maxdbs = (\<lambda>n e. (MDB_SUCCESS, e)),
     mdb_env_open = (\<lambda>p e. (MDB_SUCCESS, mem_empty\<lparr>env_committed := dbs\<rparr>)), mdb_env_close = (\<lambda>e. e)\<rparr>"

lemma mem_env_api_ok: "env_api_ok (mem_env_api dbs) dbs"
  by (simp add: env_api_ok_def mem_env_api_def mem_empty_def)

lemma mem_new:
  fixes F :: "'b fb"
  assumes db: "db_ok F dbs" and t: "dbs_tree dbs ''merkle_tree'' = block_records (2 ^ 10 - 1) b"
    and b: "length b < 2 ^ 10" "\<forall>h \<in> set b. length h = HASH_LEN"
  shows "\<exists>e' a'. am_new sha3 F (mem_env_api dbs) (mem_lmdb (fb_size F)) folder e = Inr (e', a') \<and> mem_fresh e'"
proof -
  let ?L = "mem_lmdb (fb_size F)" and ?e = "mem_empty\<lparr>env_committed := dbs\<rparr>"
  obtain s where s: "txs_new AMETSUCHI_BLOCK_SIZE = Inr s" "ts_trees s = []" "mt_new (2 ^ 10) 1 = Inr (ts_merkle s)"
    using txs_new_fields by blast
  define a :: "'b ametsuchi" where "a = \<lparr>am_path = folder, am_append_tx = None, am_txs = s\<lparr>ts_trees_total := 18\<rparr>,
    am_wsv = wsv_new\<lparr>w_trees_total := 4\<rparr>, am_trees_total = 22\<rparr>"
  have init: "am_init sha3 F (mem_env_api dbs) ?L (e, \<lparr>am_path = folder, am_append_tx = None, am_txs = s,
      am_wsv = wsv_new, am_trees_total = 0\<rparr>) = bindS (am_init_append_tx F ?L) (\<lambda>_. on_txs (init_merkle_tree sha3 ?L)) (?e, a)"
    by (simp add: am_init_def bindS_def am_make_folder_def Let_def env_call_def env_start_def ENV_ERRORS_def critical_def result_simps
        on_wsv_def on_txs_def wsv_get_trees_total_def txs_get_trees_total_def modify_wsv_def modify_txs_def
        modify_am_def mem_env_api_def a_def)
  have bt: "between F ?e a" using s(2) db
    by (simp add: between_def a_def handles_of_def wsv_new_def mem_empty_def)
  obtain e2 a2 where r: "am_init_append_tx F ?L (?e, a) = (Inr (), (e2, a2))" "mem_fresh e2"
    using memory.live_init_append_tx [OF bt] by (auto simp: live_def mem_fresh_def mem_empty_def)
  then have f: "am_ok F e2 a2" "am_trees e2 a2 = dbs_tree dbs" "ts_merkle (am_txs a2) = ts_merkle s"
    using am_init_append_tx_runs [OF mem_ok bt] by (simp_all add: runs_def fresh_def a_def)
  have "ttree e2 (am_txs a2) ''merkle_tree'' = block_records (2 ^ 10 - 1) b"
    using f(2) t by (simp add: ttree_def)
  from memory.live_init_merkle_tree [OF txs_okD(1) [OF am_okD(3) [OF f(1)]] r(2) _ _ _ this b] s(3) f(3)
  have "live (init_merkle_tree sha3 ?L) (e2, am_txs a2) (\<lambda>(e, s). mem_fresh e)" by simp
  then show ?thesis using r(1) by (auto simp: am_new_def s(1) init bindS_def on_txs_def live_def)
qed

lemma mem_reopen:
  assumes "am_rel sha3 F e a d" and "\<And>x. length (sha3 x) = HASH_LEN"
    and "\<forall>h \<in> set (db_hashes d). length h = HASH_LEN"
    and "am_commit F (mem_lmdb (fb_size F)) (e, a) = (Inr (), (e1, a1))"
  shows "\<exists>e2 a2. am_new sha3 F (mem_env_api (env_committed e1)) (mem_lmdb (fb_size F)) folder e0 = Inr (e2, a2)
    \<and> mem_fresh e2"
proof -
  note k = committed_block [OF mem_ok assms(1-3) mem_commit_code assms(4)]
  show ?thesis by (rule mem_new [OF k(1,3-5)])
qed

end
