(* ===== verification/Ametsuchi_Example.thy ===== *)
theory Ametsuchi_Example
  imports Memory_Progress Tx_Store_Properties
begin

text \<open>
  An open database without a transaction, on the database in memory: the state the witnesses of
  the properties of the whole run from.
\<close>

section \<open>Handles of one store\<close>

lemma map_of_filter_fst: "n \<in> S \<Longrightarrow> map_of (filter (\<lambda>h. fst h \<in> S) ts) n = map_of ts n"
  by (induction ts) auto

lemma store_ok_restrict:
  assumes "store_ok names ts tx e" and "set names' \<subseteq> set names"
  shows "store_ok names' (filter (\<lambda>h. fst h \<in> fst ` set names') ts) tx e"
  unfolding store_ok_iff
proof (intro conjI ballI, goal_cases)
  case 1
  then show ?case using assms(1) by (simp add: store_ok_iff)
next
  case (2 x)
  then have "case x of (n, dup) \<Rightarrow> \<exists>d c. map_of ts n = Some (d, c) \<and> opened e tx n dup d c"
    using assms unfolding store_ok_iff by blast
  moreover have "fst x \<in> fst ` set names'" using 2 by simp
  ultimately show ?case by (auto simp: map_of_filter_fst split: prod.splits)
qed

section \<open>The empty database\<close>

definition start_trees :: "(string \<times> bool \<times> cell tree) list" where
  "start_trees = map (\<lambda>(n, dup). (n, dup, [])) (txs_names @ wsv_names)"

definition start_env :: "cell mem" where
  "start_env = demo_env start_trees demo_cmp"

definition start_handles :: "string set \<Rightarrow> trees" where
  "start_handles S = filter (\<lambda>h. fst h \<in> S) (demo_trees start_trees)"

definition start_merkle :: merkle_tree where
  "start_merkle = projr (mt_run (\<lambda>_. zero_hash) (2 ^ 10) 1 [])"

definition start_am :: "cell ametsuchi" where
  "start_am = \<lparr>am_path = ''/tmp/a'', am_append_tx = Some 0,
     am_txs = \<lparr>ts_total = 0, ts_trees = start_handles txs_set, ts_merkle = start_merkle,
       ts_append_tx = 0, ts_trees_total = 18\<rparr>,
     am_wsv = \<lparr>w_trees = start_handles wsv_set, w_append_tx = 0, w_trees_total = 4,
       w_created_assets = (\<lambda>_. None)\<rparr>,
     am_trees_total = 22\<rparr>"

definition start_view :: "cell view" where
  "start_view = \<lparr>vw_log = [], vw_ledger = empty_ledger\<rparr>"

definition start_db :: "cell database" where
  "start_db = \<lparr>db_now = start_view, db_committed = start_view, db_hashes = []\<rparr>"

lemma start_names:
  "map fst start_trees = map fst (txs_names @ wsv_names)" "distinct (map fst start_trees)"
  "map (\<lambda>(n, dup, t). (n, dup)) start_trees = txs_names @ wsv_names"
proof -
  show 1: "map fst start_trees = map fst (txs_names @ wsv_names)" by (simp add: start_trees_def comp_def split_beta)
  show "distinct (map fst start_trees)" unfolding 1 by (simp add: txs_names_def wsv_names_def index_names_def)
  show "map (\<lambda>(n, dup, t). (n, dup)) start_trees = txs_names @ wsv_names"
    by (simp add: start_trees_def comp_def split_beta)
qed

lemma start_store_ok: "store_ok (txs_names @ wsv_names) (demo_trees start_trees) 0 start_env"
  using demo_store_ok [OF start_names(2), of demo_cmp] unfolding start_names(3) start_env_def .

lemma start_tree [simp]: "store_tree start_env 0 n = []"
proof -
  have "\<forall>(d, t) \<in> ran (map_of start_trees). t = []"
    by (auto simp: start_trees_def ran_def dest!: map_of_SomeD)
  then show ?thesis
    by (auto simp: start_env_def demo_store_tree ran_def split: option.splits)
qed

lemma start_handles_ok: "handles_of S (start_handles S)"
proof -
  have m: "map fst (demo_trees start_trees) = map fst start_trees"
    by (rule nth_equalityI) (simp_all add: demo_trees_def)
  have "distinct (map fst (demo_trees start_trees))" using start_names(2) unfolding m .
  then show ?thesis by (auto simp: handles_of_def start_handles_def distinct_map_filter)
qed

lemma empty_views: "view_of F (\<lambda>_. []) = \<lparr>vw_log = [], vw_ledger = empty_ledger\<rparr>"
  by (simp add: view_of_def log_of_def ledger_of_def empty_ledger_def created_empty hold_def tmap_def fun_eq_iff)

lemma start_run: "mt_run (\<lambda>_. zero_hash) (2 ^ 10) 1 [] = Inr start_merkle"
  using mt_run_rel [of 10 1 "\<lambda>_. zero_hash" "[]"] by (auto simp: start_merkle_def SIZE_MOD_def)

lemma start_rel: "am_rel (\<lambda>_. zero_hash) cell_fb start_env start_am start_db"
proof -
  have t: "store_ok txs_names (start_handles txs_set) 0 start_env"
    "store_ok wsv_names (start_handles wsv_set) 0 start_env"
    using store_ok_restrict [OF start_store_ok, of txs_names] store_ok_restrict [OF start_store_ok, of wsv_names]
    by (simp_all add: start_handles_def)
  have cmp: "env_cmp start_env n a b = 0 \<longleftrightarrow> a = b" if "n \<in> set index_names" for n a b
    using that names_disjoint(2) by (auto simp: start_env_def demo_env_def demo_cmp_def eq_cmp_def)
  have w: "wsv_ok cell_fb start_env (am_wsv start_am)"
    by (rule wsv_ok_intro) (simp_all add: start_am_def t wtree_def wsv_data_ok_def assets_ok_def nodup_def
        created_empty, simp add: start_env_def demo_env_def demo_cmp_def)
  have x: "txs_ok start_env (am_txs start_am)" "indices_ok cell_fb start_env (am_txs start_am)"
    using cmp by (simp_all add: txs_ok_def indices_ok_def ttree_def start_am_def t index_of_def)
  have c: "env_committed start_env = (\<lambda>_. None)" by (simp add: start_env_def demo_env_def)
  have "am_ok cell_fb start_env start_am"
    unfolding am_ok_def using w x start_handles_ok db_ok_empty c by (simp add: start_am_def)
  moreover have "am_trees start_env start_am = (\<lambda>_. [])" by (simp add: start_am_def fun_eq_iff)
  moreover have "dbs_tree (env_committed start_env) = (\<lambda>_. [])" by (simp add: c fun_eq_iff)
  ultimately show ?thesis
    using start_run by (simp add: am_rel_def empty_views start_db_def start_view_def start_am_def)
qed

lemma start_db_ok: "database_ok F start_db"
  by (simp add: database_ok_def replays_def start_db_def start_view_def)

section \<open>A first transaction\<close>

lemma account_fits: "cmd_fits cell_fb (AccountAdd (CAccount ''1'')) g"
  by (simp add: cmd_fits_def cell_fb_def key_size_ok_def MAXKEYSIZE_def)

lemma start_length: "length start_trees = 22"
  by (simp add: start_trees_def txs_names_def wsv_names_def index_names_def)

lemma start_fresh: "mem_fresh start_env"
  by (auto simp: mem_fresh_def start_env_def demo_env_def start_length)

lemma start_handle:
  assumes "i < 22" and "fst (start_trees ! i) \<in> S"
  shows "map_of (start_handles S) (fst (start_trees ! i)) = Some (i, i)"
  using assms demo_trees_at [OF start_names(2), of i]
  by (simp add: start_handles_def map_of_filter_fst start_length)

lemma start_handles_at:
  "map_of (start_handles txs_set) ''tx_store'' = Some (0, 0)"
  "map_of (start_handles txs_set) ''index_account_add'' = Some (8, 8)"
  "map_of (start_handles txs_set) ''index_account_remove'' = Some (10, 10)"
  "map_of (start_handles wsv_set) ''wsv_pubkey_account'' = Some (19, 19)"
  using start_handle [of 0 txs_set] start_handle [of 8 txs_set] start_handle [of 10 txs_set]
    start_handle [of 19 wsv_set]
  by (simp_all add: start_trees_def txs_names_def wsv_names_def index_names_def)

lemma start_cursors:
  "env_cursors start_env 0 = Some \<lparr>cu_txn = 0, cu_db = ''tx_store'', cu_pos = None\<rparr>"
  "env_cursors start_env 8 = Some \<lparr>cu_txn = 0, cu_db = ''index_account_add'', cu_pos = None\<rparr>"
  "env_cursors start_env 10 = Some \<lparr>cu_txn = 0, cu_db = ''index_account_remove'', cu_pos = None\<rparr>"
  "env_cursors start_env 19 = Some \<lparr>cu_txn = 0, cu_db = ''wsv_pubkey_account'', cu_pos = None\<rparr>"
  by (simp_all add: start_env_def demo_env_def start_trees_def txs_names_def wsv_names_def index_names_def)

lemma start_txn:
  obtains y where "env_txns start_env 0 = Some y"
    "txn_dbs y ''tx_store'' = Some \<lparr>db_dup = False, db_tree = []\<rparr>"
    "txn_dbs y ''index_account_add'' = Some \<lparr>db_dup = True, db_tree = []\<rparr>"
    "txn_dbs y ''index_account_remove'' = Some \<lparr>db_dup = True, db_tree = []\<rparr>"
    "txn_dbs y ''wsv_pubkey_account'' = Some \<lparr>db_dup = False, db_tree = []\<rparr>"
  by (simp add: start_env_def demo_env_def start_trees_def txs_names_def wsv_names_def index_names_def)

lemmas start_calls = on_txs_def on_wsv_def txs_calls wsv_calls mem_calls start_am_def start_handles_at start_cursors

text \<open>
  On the database in memory the first account is added, and the removal of an account that does
  not exist is rejected, as it is at the end of a batch.
\<close>

lemma start_push:
  obtains m x where "mt_push (\<lambda>_. zero_hash) (replicate 32 7) start_merkle = Inr m" "mt_root m = Inr x"
    "\<exists>m'. mt_push (\<lambda>_. zero_hash) (replicate 32 7) m = Inr m' \<and> (\<exists>x'. mt_root m' = Inr x')"
proof -
  obtain m where m: "mt_push (\<lambda>_. zero_hash) (replicate 32 7) start_merkle = Inr m" "\<exists>x. mt_root m = Inr x"
    using merkle_root_push [OF _ _ start_run, of "replicate 32 7"] by auto
  have "mt_run (\<lambda>_. zero_hash) (2 ^ 10) 1 [replicate 32 7] = Inr m"
    using start_run m(1) by (auto simp: mt_run_def bindR_eq_Inr_iff)
  from merkle_root_push [OF _ _ this, of "replicate 32 7"] m that show ?thesis by auto
qed

lemma start_append:
  "\<exists>root e1 a1. am_append (\<lambda>_. zero_hash) cell_fb (mem_lmdb (fb_size cell_fb)) (demo_tx (AccountAdd (CAccount ''1'')))
     (start_env, start_am) = (Inr root, (e1, a1)) \<and> mem_fresh e1"
proof -
  obtain m x where m: "mt_push (\<lambda>_. zero_hash) (replicate 32 7) start_merkle = Inr m" "mt_root m = Inr x"
    by (rule start_push)
  obtain y where y: "env_txns start_env 0 = Some y"
    "txn_dbs y ''tx_store'' = Some \<lparr>db_dup = False, db_tree = []\<rparr>"
    "txn_dbs y ''index_account_add'' = Some \<lparr>db_dup = True, db_tree = []\<rparr>"
    "txn_dbs y ''wsv_pubkey_account'' = Some \<lparr>db_dup = False, db_tree = []\<rparr>"
    by (rule start_txn)
  have "mem_fresh (start_env\<lparr>env_txns := (env_txns start_env)(0 \<mapsto> z)\<rparr>)" for z
    using start_fresh by (simp add: mem_fresh_def start_env_def demo_env_def start_length)
  then show ?thesis by (simp add: am_append_def start_calls m y)
qed

lemma start_reject:
  "\<exists>e1 a1. am_append (\<lambda>_. zero_hash) cell_fb (mem_lmdb (fb_size cell_fb)) (demo_tx (AccountRemove (Some ''9'')))
     (start_env, start_am) = (Inl (InvalidTransaction ACCOUNT_NOT_FOUND), (e1, a1))"
proof -
  obtain m x where m: "mt_push (\<lambda>_. zero_hash) (replicate 32 7) start_merkle = Inr m" "mt_root m = Inr x"
    by (rule start_push)
  obtain y where y: "env_txns start_env 0 = Some y"
    "txn_dbs y ''tx_store'' = Some \<lparr>db_dup = False, db_tree = []\<rparr>"
    "txn_dbs y ''index_account_remove'' = Some \<lparr>db_dup = True, db_tree = []\<rparr>"
    "txn_dbs y ''wsv_pubkey_account'' = Some \<lparr>db_dup = False, db_tree = []\<rparr>"
    by (rule start_txn)
  show ?thesis by (simp add: am_append_def start_calls m y)
qed

lemma start_batch:
  "\<exists>e1 a1. am_append_batch (\<lambda>_. zero_hash) cell_fb (mem_lmdb (fb_size cell_fb))
     [demo_tx (AccountAdd (CAccount ''1'')), demo_tx (AccountRemove (Some ''9''))] (start_env, start_am)
     = (Inl (InvalidTransaction ACCOUNT_NOT_FOUND), (e1, a1))"
proof -
  obtain m x where m: "mt_push (\<lambda>_. zero_hash) (replicate 32 7) start_merkle = Inr m" "mt_root m = Inr x"
    "\<exists>m'. mt_push (\<lambda>_. zero_hash) (replicate 32 7) m = Inr m' \<and> (\<exists>x'. mt_root m' = Inr x')"
    by (rule start_push)
  obtain m' x' where m': "mt_push (\<lambda>_. zero_hash) (replicate 32 7) m = Inr m'" "mt_root m' = Inr x'"
    using m(3) by blast
  obtain y where y: "env_txns start_env 0 = Some y"
    "txn_dbs y ''tx_store'' = Some \<lparr>db_dup = False, db_tree = []\<rparr>"
    "txn_dbs y ''index_account_add'' = Some \<lparr>db_dup = True, db_tree = []\<rparr>"
    "txn_dbs y ''index_account_remove'' = Some \<lparr>db_dup = True, db_tree = []\<rparr>"
    "txn_dbs y ''wsv_pubkey_account'' = Some \<lparr>db_dup = False, db_tree = []\<rparr>"
    by (rule start_txn)
  show ?thesis by (simp add: am_append_batch_def am_append_def start_calls m(1,2) m' y)
qed

end
