(* ===== verification/Memory_Failure.thy ===== *)
theory Memory_Failure
  imports Memory_Progress
begin

text \<open>
  A database that cannot commit: LMDB with a \<^verbatim>\<open>mdb_txn_commit\<close> that always reports a full map.  It
  keeps the promises of LMDB, and a commit of the program still returns on it.
\<close>

definition failing :: "('b, 'x) lmdb \<Rightarrow> ('b, 'x) lmdb" where
  "failing L = L\<lparr>mdb_txn_commit := (\<lambda>tx e. (MDB_MAP_FULL, e\<lparr>env_txns := (env_txns e)(tx := None)\<rparr>))\<rparr>"

lemma failing_calls:
  "mdb_txn_begin (failing L) = mdb_txn_begin L"
  "mdb_txn_abort (failing L) = mdb_txn_abort L"
  "mdb_dbi_open (failing L) = mdb_dbi_open L"
  "mdb_dbi_close (failing L) = mdb_dbi_close L"
  "mdb_set_dupsort (failing L) = mdb_set_dupsort L"
  "mdb_drop (failing L) = mdb_drop L"
  "mdb_cursor_open (failing L) = mdb_cursor_open L"
  "mdb_cursor_close (failing L) = mdb_cursor_close L"
  "mdb_cursor_get (failing L) = mdb_cursor_get L"
  "mdb_cursor_put (failing L) = mdb_cursor_put L"
  "mdb_cursor_del (failing L) = mdb_cursor_del L"
  by (simp_all add: failing_def)

lemma failing_ok:
  assumes "lmdb_ok bsize L"
  shows "lmdb_ok bsize (failing L)"
proof -
  have same: "get_spec bsize (failing L) = get_spec bsize L" "put_spec bsize (failing L) = put_spec bsize L"
    "del_spec (failing L) = del_spec L" "drop_spec (failing L) = drop_spec L" "begin_spec (failing L) = begin_spec L"
    "dbi_open_spec (failing L) = dbi_open_spec L" "set_dupsort_spec (failing L) = set_dupsort_spec L"
    "cursor_open_spec (failing L) = cursor_open_spec L" "close_spec (failing L) = close_spec L"
    "abort_spec (failing L) = abort_spec L"
    by (simp_all only: get_spec_def put_spec_def del_spec_def drop_spec_def begin_spec_def dbi_open_spec_def
        set_dupsort_spec_def cursor_open_spec_def close_spec_def abort_spec_def failing_calls)
  have "commit_spec (failing L)" by (auto simp: commit_spec_def failing_def)
  then show ?thesis using assms by (simp only: lmdb_ok_def same)
qed

lemma failing_live:
  assumes "lmdb_live bsize I L" and "\<And>e tx. I e \<Longrightarrow> I (e\<lparr>env_txns := (env_txns e)(tx := None)\<rparr>)"
  shows "lmdb_live bsize I (failing L)"
proof -
  have same: "begin_live I (failing L) = begin_live I L" "dbi_open_live I (failing L) = dbi_open_live I L"
    "set_dupsort_live I (failing L) = set_dupsort_live I L" "cursor_open_live I (failing L) = cursor_open_live I L"
    "get_live I (failing L) = get_live I L" "append_live bsize I (failing L) = append_live bsize I L"
    "drop_live I (failing L) = drop_live I L"
    by (simp_all only: begin_live_def dbi_open_live_def set_dupsort_live_def cursor_open_live_def get_live_def
        append_live_def drop_live_def failing_calls)
  have "ends_live I (failing L)" using assms by (simp add: lmdb_live_def ends_live_def failing_def)
  then show ?thesis using assms(1) by (simp only: lmdb_live_def same)
qed

interpretation failure: live_store F mem_fresh "failing (mem_lmdb (fb_size F))" for F :: "'b fb"
proof unfold_locales
  show "lmdb_live (fb_size F) mem_fresh (failing (mem_lmdb (fb_size F)))"
    by (rule failing_live [OF mem_live]) (simp add: mem_fresh_def)
qed (rule failing_ok [OF mem_ok])

end
