(* ===== verification/Ametsuchi_Properties.thy ===== *)
theory Ametsuchi_Properties
  imports Ametsuchi_Example Memory_Failure
begin

text \<open>
  The theorems about the database as a whole: what an append, a batch, a commit and a rollback
  do, what stays true over any sequence of them, and what is there after the database is opened
  again.
\<close>

section \<open>Appends\<close>

text \<open>
  C14: an append follows its specification.  Unless the database fails, the transaction is at the
  end of the log; its hash is in the Merkle tree unless the transaction store rejected it; the
  ledger is changed as the command says, or by nothing that the ledger rejects; the result is the
  root of the Merkle tree or the error of the first store that rejected the transaction.  The two
  stores are not changed together: an error of the ledger leaves the transaction in the log.
\<close>

theorem am_append_refines:
  assumes "lmdb_ok (fb_size F) L" and "fb_ok F" and "am_rel sha3 F e a d" and "append_fits F blob (db_now d)"
    and "am_append sha3 F L blob (e, a) = (r, (e', a'))"
  shows "r = Inl (InternalError FATAL)
    \<or> (\<exists>d'. spec_append sha3 F blob d = (r, d') \<and> am_rel sha3 F e' a' d')"
  by (rule am_append_ok [OF assms])

text \<open>An account is added to the empty database; a payment to nobody is not undone in the log.\<close>

lemma start_fits:
  assumes "cmd_fits cell_fb cmd empty_ledger"
  shows "append_fits cell_fb (demo_tx cmd) (db_now start_db)"
  using assms demo_key by (simp add: append_fits_def start_db_def start_view_def SIZE_MOD_def)

theorem am_append_refines_witness:
  "\<exists>e' a'. am_append (\<lambda>_. zero_hash) cell_fb (mem_lmdb (fb_size cell_fb)) (demo_tx (AccountRemove (Some ''9'')))
       (start_env, start_am) = (Inl (InvalidTransaction ACCOUNT_NOT_FOUND), (e', a'))
    \<and> log_of (am_trees e' a') = [IBlob (demo_tx (AccountRemove (Some ''9'')))]"
proof -
  let ?b = "demo_tx (AccountRemove (Some ''9''))"
  obtain e' a' where r: "am_append (\<lambda>_. zero_hash) cell_fb (mem_lmdb (fb_size cell_fb)) ?b
      (start_env, start_am) = (Inl (InvalidTransaction ACCOUNT_NOT_FOUND), (e', a'))" using start_reject by blast
  have fits: "append_fits cell_fb ?b (db_now start_db)"
    by (rule start_fits) (simp add: cmd_fits_def key_size_ok_def MAXKEYSIZE_def)
  have sp: "vw_log (db_now (snd (spec_append (\<lambda>_. zero_hash) cell_fb ?b start_db))) = [IBlob ?b]"
    by (simp add: spec_append_def append_result_def index_trees_def Let_def start_db_def start_view_def
        spec_update_def empty_ledger_def HASH_LEN_def split: prod.split)
  from am_append_refines [OF mem_ok cell_fb_ok start_rel fits r] sp
  have "log_of (am_trees e' a') = [IBlob ?b]"
    by (auto dest!: am_relD(2) simp: view_of_def)
  then show ?thesis using r by blast
qed

text \<open>The batch: as many appends as succeed, then the root.\<close>

fun spec_batch :: "(byte list \<Rightarrow> hash_t) \<Rightarrow> 'b fb \<Rightarrow> 'b list \<Rightarrow> 'b database \<Rightarrow> (error + unit) \<times> 'b database" where
  "spec_batch sha3 F [] d = (Inr (), d)"
| "spec_batch sha3 F (t # batch) d = (case spec_append sha3 F t d of
      (Inl err, d') \<Rightarrow> (Inl err, d')
    | (Inr _, d') \<Rightarrow> spec_batch sha3 F batch d')"

fun batch_fits :: "(byte list \<Rightarrow> hash_t) \<Rightarrow> 'b fb \<Rightarrow> 'b list \<Rightarrow> 'b database \<Rightarrow> bool" where
  "batch_fits sha3 F [] d = True"
| "batch_fits sha3 F (t # batch) d =
     (append_fits F t (db_now d) \<and> batch_fits sha3 F batch (snd (spec_append sha3 F t d)))"

lemma append_loop_ok:
  assumes L: "lmdb_ok (fb_size F) L" and F: "fb_ok F"
  shows "am_rel sha3 F e a d \<Longrightarrow> batch_fits sha3 F batch d \<Longrightarrow>
    append_loop sha3 F L batch (e, a) = (r, (e', a')) \<Longrightarrow>
    r = Inl (InternalError FATAL) \<or> (\<exists>d'. spec_batch sha3 F batch d = (r, d') \<and> am_rel sha3 F e' a' d')"
proof (induction batch arbitrary: e a d)
  case Nil
  then show ?case by (simp add: returnS_def)
next
  case (Cons t batch)
  obtain r1 e1 a1 where r1: "am_append sha3 F L t (e, a) = (r1, (e1, a1))" by (metis prod.exhaust)
  have ok: "r1 = Inl (InternalError FATAL)
    \<or> (\<exists>d'. spec_append sha3 F t d = (r1, d') \<and> am_rel sha3 F e1 a1 d')"
    using am_append_ok [OF L F Cons.prems(1) _ r1] Cons.prems(2) by simp
  show ?case
  proof (cases r1)
    case (Inl err)
    then show ?thesis using ok Cons.prems(3) r1 by (auto simp: bindS_def)
  next
    case (Inr x)
    then obtain d1 where d1: "spec_append sha3 F t d = (r1, d1)" "am_rel sha3 F e1 a1 d1" using ok by auto
    have run: "append_loop sha3 F L batch (e1, a1) = (r, (e', a'))"
      using Cons.prems(3) r1 Inr by (simp add: bindS_def)
    have "batch_fits sha3 F batch d1" using Cons.prems(2) d1(1) by simp
    from Cons.IH [OF d1(2) this run] show ?thesis using d1(1) Inr by simp
  qed
qed

lemma am_root:
  assumes "am_rel sha3 F e a d" and "db_hashes d \<noteq> []"
  shows "on_txs txs_merkle_root (e, a)
    = (Inr (merkle_root_of (hash_pair sha3) (last (blk_of (hash_pair sha3) (2 ^ 10) (db_hashes d)))), (e, a))"
proof -
  have "hist_rel sha3 10 (ts_merkle (am_txs a)) (db_hashes d)"
    using mt_run_hist [OF _ _ am_relD(4) [OF assms(1)]] by simp
  from hist_rel_root [OF this assms(2)] show ?thesis
    by (simp add: on_txs_def txs_merkle_root_def bindS_def result_simps liftR_def)
qed

text \<open>
  C15: a batch is its transactions one after the other, up to the first that is rejected.  The
  ones before it stay; only when all were accepted is the root returned.
\<close>

theorem am_append_batch_refines:
  assumes "lmdb_ok (fb_size F) L" and "fb_ok F" and "am_rel sha3 F e a d" and "batch_fits sha3 F batch d"
    and "am_append_batch sha3 F L batch (e, a) = (r, (e', a'))"
  shows "r = Inl (InternalError FATAL)
    \<or> (\<exists>d'. am_rel sha3 F e' a' d'
        \<and> (case spec_batch sha3 F batch d of
             (Inl err, d1) \<Rightarrow> r = Inl err \<and> d' = d1
           | (Inr _, d1) \<Rightarrow> d' = d1 \<and> (db_hashes d1 \<noteq> [] \<longrightarrow> r = Inr
               (merkle_root_of (hash_pair sha3) (last (blk_of (hash_pair sha3) (2 ^ 10) (db_hashes d1)))))))"
proof -
  obtain r1 e1 a1 where r1: "append_loop sha3 F L batch (e, a) = (r1, (e1, a1))" by (metis prod.exhaust)
  note ok = append_loop_ok [OF assms(1-4) r1]
  show ?thesis
  proof (cases r1)
    case (Inl err)
    then show ?thesis using ok assms(5) r1 by (auto simp: am_append_batch_def bindS_def)
  next
    case (Inr u)
    then obtain d1 where d1: "spec_batch sha3 F batch d = (r1, d1)" "am_rel sha3 F e1 a1 d1" using ok by auto
    have run: "on_txs txs_merkle_root (e1, a1) = (r, (e', a'))"
      using assms(5) r1 Inr by (simp add: am_append_batch_def bindS_def)
    then have "e' = e1" "a' = a1"
      by (auto simp: on_txs_def txs_merkle_root_def bindS_def result_simps liftR_def split: sum.splits)
    then show ?thesis using d1 Inr run am_root [OF d1(2)] by auto
  qed
qed

theorem am_append_batch_refines_witness:
  "\<exists>e' a'. am_append_batch (\<lambda>_. zero_hash) cell_fb (mem_lmdb (fb_size cell_fb))
       [demo_tx (AccountAdd (CAccount ''1'')), demo_tx (AccountRemove (Some ''9''))] (start_env, start_am)
         = (Inl (InvalidTransaction ACCOUNT_NOT_FOUND), (e', a'))
    \<and> length (log_of (am_trees e' a')) = 2"
proof -
  let ?b = "demo_tx (AccountAdd (CAccount ''1''))" and ?c = "demo_tx (AccountRemove (Some ''9''))"
  let ?sp = "spec_append (\<lambda>_. zero_hash) cell_fb"
  obtain e' a' where r: "am_append_batch (\<lambda>_. zero_hash) cell_fb (mem_lmdb (fb_size cell_fb)) [?b, ?c]
      (start_env, start_am) = (Inl (InvalidTransaction ACCOUNT_NOT_FOUND), (e', a'))" using start_batch by blast
  note ev = spec_append_def append_result_def index_trees_def Let_def start_db_def start_view_def
    spec_update_def empty_ledger_def HASH_LEN_def
  have 1: "\<exists>x g. ?sp ?b start_db = (Inr x, start_db\<lparr>db_now := \<lparr>vw_log = [IBlob ?b], vw_ledger = g\<rparr>,
      db_hashes := [replicate 32 7]\<rparr>) \<and> lg_accounts g ''9'' = None"
    by (simp add: ev) (simp add: cell_fb_def)
  then obtain x g where g: "?sp ?b start_db = (Inr x, start_db\<lparr>db_now := \<lparr>vw_log = [IBlob ?b], vw_ledger = g\<rparr>,
      db_hashes := [replicate 32 7]\<rparr>)" "lg_accounts g ''9'' = None" by blast
  let ?d = "start_db\<lparr>db_now := \<lparr>vw_log = [IBlob ?b], vw_ledger = g\<rparr>, db_hashes := [replicate 32 7]\<rparr>"
  have 2: "fst (?sp ?c ?d) = Inl (InvalidTransaction ACCOUNT_NOT_FOUND)"
    "vw_log (db_now (snd (?sp ?c ?d))) = [IBlob ?b, IBlob ?c]"
    by (simp_all add: ev g(2))
  have fits: "batch_fits (\<lambda>_. zero_hash) cell_fb [?b, ?c] start_db"
    using start_fits [OF account_fits] g(1) demo_key
    by (simp add: append_fits_def cmd_fits_def key_size_ok_def MAXKEYSIZE_def SIZE_MOD_def)
  have sb: "spec_batch (\<lambda>_. zero_hash) cell_fb [?b, ?c] start_db
      = (Inl (InvalidTransaction ACCOUNT_NOT_FOUND), snd (?sp ?c ?d))"
    using 2(1) g(1) by (cases "?sp ?c ?d") simp
  from am_append_batch_refines [OF mem_ok cell_fb_ok start_rel fits r]
  have "am_rel (\<lambda>_. zero_hash) cell_fb e' a' (snd (?sp ?c ?d))" unfolding sb by auto
  from am_relD(2) [OF this] 2(2) have "length (log_of (am_trees e' a')) = 2" by (simp add: view_of_def)
  then show ?thesis using r by blast
qed

section \<open>Sequences of operations\<close>

text \<open>
  C1: any sequence of appends, commits and rollbacks follows the specification.  A run of the
  code, as long as the database reports no fatal error, is matched step by step by one of the
  specification: an append as above, a commit that makes the current view permanent or, when LMDB
  fails, loses it, a rollback that returns to the committed view.
\<close>

theorem am_run_refines:
  assumes "lmdb_ok (fb_size F) L" and "fb_ok F" and "am_rel sha3 F e a d"
    and "am_run sha3 F L (e, a) cs (e', a')"
  shows "\<exists>d'. spec_run sha3 F d cs d' \<and> am_rel sha3 F e' a' d'"
  using am_run_simulated [OF assms(1,2,4)] assms(3) by simp

text \<open>The first transaction and its commit, on the database in memory.\<close>

abbreviation first_tx :: cell where
  "first_tx \<equiv> demo_tx (AccountAdd (CAccount ''1''))"

abbreviation mem :: "(cell, nat) lmdb" where
  "mem \<equiv> mem_lmdb (fb_size cell_fb)"

lemma first_spec:
  "\<exists>root g. spec_append (\<lambda>_. zero_hash) cell_fb first_tx start_db = (Inr root,
     start_db\<lparr>db_now := \<lparr>vw_log = [IBlob first_tx], vw_ledger = g\<rparr>, db_hashes := [replicate 32 7]\<rparr>)"
  by (simp add: spec_append_def append_result_def index_trees_def Let_def start_db_def start_view_def
      spec_update_def HASH_LEN_def)

lemma first_append:
  obtains root e a d where "am_append (\<lambda>_. zero_hash) cell_fb mem first_tx (start_env, start_am) = (Inr root, (e, a))"
    "mem_fresh e" "am_rel (\<lambda>_. zero_hash) cell_fb e a d" "vw_log (db_now d) = [IBlob first_tx]"
    "db_committed d = start_view" "db_hashes d = [replicate 32 7]"
proof -
  obtain root e a where r: "am_append (\<lambda>_. zero_hash) cell_fb mem first_tx (start_env, start_am) = (Inr root, (e, a))"
    "mem_fresh e" using start_append by blast
  from am_append_ok [OF mem_ok cell_fb_ok start_rel start_fits [OF account_fits] r(1)]
  obtain d where "spec_append (\<lambda>_. zero_hash) cell_fb first_tx start_db = (Inr root, d)"
    "am_rel (\<lambda>_. zero_hash) cell_fb e a d" by auto
  then show ?thesis using that [OF r] first_spec by (auto simp: start_db_def)
qed

lemma first_commit:
  obtains e a where "am_run (\<lambda>_. zero_hash) cell_fb mem (start_env, start_am) [Append first_tx, Commit] (e, a)"
    "view_of cell_fb (am_trees e a) = view_of cell_fb (dbs_tree (env_committed e))"
    "log_of (am_trees e a) = [IBlob first_tx]"
proof -
  obtain root e1 a1 d1 where 1: "am_append (\<lambda>_. zero_hash) cell_fb mem first_tx (start_env, start_am) = (Inr root, (e1, a1))"
    "mem_fresh e1" "am_rel (\<lambda>_. zero_hash) cell_fb e1 a1 d1" "vw_log (db_now d1) = [IBlob first_tx]"
    by (rule first_append)
  obtain e2 a2 where 2: "am_commit cell_fb mem (e1, a1) = (Inr (), (e2, a2))"
    "am_rel (\<lambda>_. zero_hash) cell_fb e2 a2 (spec_commit d1)"
    by (rule mem_commit [OF 1(3,2)])
  have "append_fits cell_fb first_tx (view_of cell_fb (am_trees start_env start_am))"
    using start_fits [OF account_fits] am_relD(2) [OF start_rel] by simp
  from run_append [OF run_start this 1(1)]
  have "am_run (\<lambda>_. zero_hash) cell_fb mem (start_env, start_am) [Append first_tx] (e1, a1)" by simp
  from run_commit [OF this 2(1)]
  have "am_run (\<lambda>_. zero_hash) cell_fb mem (start_env, start_am) [Append first_tx, Commit] (e2, a2)" by simp
  moreover have "view_of cell_fb (am_trees e2 a2) = db_now d1"
    "view_of cell_fb (dbs_tree (env_committed e2)) = db_now d1"
    using am_relD(2,3) [OF 2(2)] by (simp_all add: spec_commit_def)
  ultimately show ?thesis using that 1(4) by (metis view.select_convs(1) view_of_def)
qed

theorem am_run_refines_witness:
  "\<exists>e a d. am_run (\<lambda>_. zero_hash) cell_fb mem (start_env, start_am) [Append first_tx, Commit] (e, a)
    \<and> spec_run (\<lambda>_. zero_hash) cell_fb start_db [Append first_tx, Commit] d
    \<and> vw_log (db_now d) = [IBlob first_tx]"
proof -
  obtain e a where r: "am_run (\<lambda>_. zero_hash) cell_fb mem (start_env, start_am) [Append first_tx, Commit] (e, a)"
    "log_of (am_trees e a) = [IBlob first_tx]" by (rule first_commit)
  from am_run_refines [OF mem_ok cell_fb_ok start_rel r(1)] r am_relD(2)
  show ?thesis by (metis view.select_convs(1) view_of_def)
qed

text \<open>
  C2: the invariant of every sequence of operations.  The ledger is what replaying the log of
  transactions from nothing gives, for the open transaction and for what is committed; the
  committed log is a prefix of the current one; the transactions are numbered from 1 on.
\<close>

theorem am_run_replays:
  assumes "lmdb_ok (fb_size F) L" and "fb_ok F" and "am_rel sha3 F e a d" and "database_ok F d"
    and "am_run sha3 F L (e, a) cs (e', a')"
  shows "ledger_of F (am_trees e' a') = fold (replay_step F) (log_of (am_trees e' a')) empty_ledger
    \<and> ledger_of F (dbs_tree (env_committed e')) =
        fold (replay_step F) (log_of (dbs_tree (env_committed e'))) empty_ledger
    \<and> prefix (log_of (dbs_tree (env_committed e'))) (log_of (am_trees e' a'))
    \<and> map fst (am_trees e' a' ''tx_store'') = map INum [1..<Suc (ts_total (am_txs a'))]"
proof -
  obtain d' where d': "spec_run sha3 F d cs d'" "am_rel sha3 F e' a' d'"
    using am_run_simulated [OF assms(1,2,5)] assms(3) by auto
  have "database_ok F d'" by (rule spec_run_ok [OF d'(1) assms(4)])
  moreover have "map fst (am_trees e' a' ''tx_store'') = map INum [1..<Suc (ts_total (am_txs a'))]"
    using txs_okD(2) [OF am_okD(3) [OF am_relD(1) [OF d'(2)]]] by (simp add: ttree_def)
  ultimately show ?thesis
    using am_relD(2,3) [OF d'(2)] by (simp add: database_ok_def replays_def view_of_def)
qed

theorem am_run_replays_witness:
  "\<exists>e a. am_run (\<lambda>_. zero_hash) cell_fb mem (start_env, start_am) [Append first_tx, Commit] (e, a)
    \<and> ledger_of cell_fb (am_trees e a) = replay_step cell_fb (IBlob first_tx) empty_ledger"
proof -
  obtain e a where r: "am_run (\<lambda>_. zero_hash) cell_fb mem (start_env, start_am) [Append first_tx, Commit] (e, a)"
    "log_of (am_trees e a) = [IBlob first_tx]" by (rule first_commit)
  from am_run_replays [OF mem_ok cell_fb_ok start_rel start_db_ok r(1)] r show ?thesis by auto
qed

section \<open>Rollback\<close>

text \<open>
  C18: a rollback returns the log and the ledger to what was committed, but not the Merkle tree in
  memory: after an append that is rolled back, the tree still has the root with the transaction.
\<close>

theorem am_rollback_keeps_root:
  assumes "lmdb_ok (fb_size F) L" and "fb_ok F" and "am_rel sha3 F e a d" and "append_fits F blob (db_now d)"
    and "am_append sha3 F L blob (e, a) = (Inr root, (e1, a1))"
    and "am_rollback F L (e1, a1) = (r, (e2, a2))"
  shows "r = Inl (InternalError FATAL)
    \<or> r = Inr () \<and> log_of (am_trees e2 a2) = vw_log (db_committed d)
      \<and> ledger_of F (am_trees e2 a2) = vw_ledger (db_committed d)
      \<and> mt_root (ts_merkle (am_txs a2)) = Inr root"
proof -
  from am_append_ok [OF assms(1-5)] obtain d1 where d1: "spec_append sha3 F blob d = (Inr root, d1)"
    "am_rel sha3 F e1 a1 d1" by auto
  have h: "\<exists>x. db_hashes d1 = db_hashes d @ [x] \<and> root
      = merkle_root_of (hash_pair sha3) (last (blk_of (hash_pair sha3) (2 ^ 10) (db_hashes d1)))" "db_committed d1 = db_committed d"
    using d1(1) by (auto simp: spec_append_def Let_def append_result_def split: if_splits option.splits sum.splits prod.splits)
  from am_rollback_ok [OF assms(1) d1(2) assms(6)] show ?thesis
  proof (elim disjE conjE)
    assume r: "r = Inr ()" and d2: "am_rel sha3 F e2 a2 (spec_rollback d1)"
    have m: "mt_run sha3 (2 ^ 10) 1 (db_hashes d1) = Inr (ts_merkle (am_txs a2))"
      using am_relD(4) [OF d2] by (simp add: spec_rollback_def)
    have "mt_root (ts_merkle (am_txs a2)) = Inr root"
      using hist_rel_root [OF mt_run_hist [OF _ _ m]] h(1) by auto
    then show ?thesis using r am_relD(2) [OF d2] h(2) by (simp add: spec_rollback_def view_of_def)
  qed simp
qed

theorem am_rollback_keeps_root_witness:
  "\<exists>root e1 a1 e2 a2. am_append (\<lambda>_. zero_hash) cell_fb mem first_tx (start_env, start_am) = (Inr root, (e1, a1))
    \<and> am_rollback cell_fb mem (e1, a1) = (Inr (), (e2, a2))
    \<and> log_of (am_trees e2 a2) = [] \<and> mt_root (ts_merkle (am_txs a2)) = Inr root"
proof -
  obtain root e1 a1 d1 where 1: "am_append (\<lambda>_. zero_hash) cell_fb mem first_tx (start_env, start_am) = (Inr root, (e1, a1))"
    "mem_fresh e1" "am_rel (\<lambda>_. zero_hash) cell_fb e1 a1 d1" by (rule first_append)
  obtain e2 a2 where 2: "am_rollback cell_fb mem (e1, a1) = (Inr (), (e2, a2))"
    using memory.live_rollback [OF am_relD(1) [OF 1(3)] 1(2)] by (auto simp: live_def)
  from am_rollback_keeps_root [OF mem_ok cell_fb_ok start_rel start_fits [OF account_fits] 1(1) 2] 1(1) 2
  show ?thesis by (auto simp: start_db_def start_view_def)
qed

section \<open>Commit\<close>

text \<open>
  C10: what was committed is there after the database is opened again.  If LMDB commits, then a
  constructor that runs later on the committed databases reports a fatal error or gives a database
  with the log and the ledger of the commit, and a Merkle tree that, whatever is pushed from then
  on, has the same roots as the one in memory at the commit.  Only if LMDB refuses to create or to
  open the environment with a code that the program does not look for (\<^verbatim>\<open>ENOMEM\<close> is one) does the
  constructor go on with an environment that is not there.
\<close>

theorem am_commit_reopen:
  assumes "lmdb_ok (fb_size F) L" and "am_rel sha3 F e a d"
    and "\<And>x. length (sha3 x) = HASH_LEN" and "\<forall>h \<in> set (db_hashes d). length h = HASH_LEN"
    and "\<And>tx e0. fst (mdb_txn_commit L tx e0) = MDB_SUCCESS"
    and "am_commit F L (e, a) = (Inr (), (e1, a1))" and "env_api_ok A (env_committed e1)"
  shows "am_new sha3 F A L folder e0 = Inl (InternalError FATAL)
    \<or> am_new sha3 F A L folder e0 = Inl Undefined \<and> \<not> env_codes_checked A folder
    \<or> (\<exists>e2 a2. am_new sha3 F A L folder e0 = Inr (e2, a2)
        \<and> log_of (am_trees e2 a2) = vw_log (db_now d) \<and> ledger_of F (am_trees e2 a2) = vw_ledger (db_now d)
        \<and> (\<forall>zs. \<exists>p q. foldR (mt_push sha3) zs (ts_merkle (am_txs a2)) = Inr p
             \<and> foldR (mt_push sha3) zs (ts_merkle (am_txs a)) = Inr q
             \<and> (db_hashes d @ zs \<noteq> [] \<longrightarrow> mt_root p = mt_root q)))"
proof -
  have res: "\<forall>zs. \<exists>p q. foldR (mt_push sha3) zs (ts_merkle (am_txs a2)) = Inr p
             \<and> foldR (mt_push sha3) zs (ts_merkle (am_txs a)) = Inr q
             \<and> (db_hashes d @ zs \<noteq> [] \<longrightarrow> mt_root p = mt_root q)"
    if "mt_run sha3 (2 ^ 10) 1 (last (blk_of (hash_pair sha3) (2 ^ 10) (db_hashes d))) = Inr (ts_merkle (am_txs a2))" for a2
    by (intro allI last_block_resume [OF _ _ that am_relD(4) [OF assms(2)]]) simp_all
  from reopen_ok [OF assms, of folder e0] show ?thesis
  proof (elim disjE exE conjE)
    fix e2 a2 assume n: "am_new sha3 F A L folder e0 = Inr (e2, a2)" and "am_rel sha3 F e2 a2
      \<lparr>db_now = db_now d, db_committed = db_now d,
       db_hashes = last (blk_of (hash_pair sha3) (2 ^ 10) (db_hashes d))\<rparr>"
    from am_relD(2,4) [OF this(2)] res [of a2] n show ?thesis by (simp add: view_of_def)
  qed simp_all
qed

theorem am_commit_reopen_witness:
  "\<exists>root e a e1 a1 e2 a2. am_append (\<lambda>_. zero_hash) cell_fb mem first_tx (start_env, start_am) = (Inr root, (e, a))
    \<and> am_commit cell_fb mem (e, a) = (Inr (), (e1, a1))
    \<and> am_new (\<lambda>_. zero_hash) cell_fb (mem_env_api (env_committed e1)) mem ''/tmp/a'' e = Inr (e2, a2)
    \<and> log_of (am_trees e2 a2) = [IBlob first_tx]"
proof -
  obtain root e a d where 1: "am_append (\<lambda>_. zero_hash) cell_fb mem first_tx (start_env, start_am) = (Inr root, (e, a))"
    "mem_fresh e" "am_rel (\<lambda>_. zero_hash) cell_fb e a d" "vw_log (db_now d) = [IBlob first_tx]"
    "db_hashes d = [replicate 32 7]" by (rule first_append)
  obtain e1 a1 where 2: "am_commit cell_fb mem (e, a) = (Inr (), (e1, a1))"
    by (rule mem_commit [OF 1(3,2)])
  have h: "\<forall>h \<in> set (db_hashes d). length h = HASH_LEN" by (simp add: 1(5) HASH_LEN_def)
  have z: "length zero_hash = HASH_LEN" by (simp add: zero_hash_def)
  obtain x where "am_new (\<lambda>_. zero_hash) cell_fb (mem_env_api (env_committed e1)) mem ''/tmp/a'' e = Inr x"
    using mem_reopen [OF 1(3) z h 2, of "''/tmp/a''" e] by auto
  with am_commit_reopen [OF mem_ok 1(3) z h mem_commit_code 2 mem_env_api_ok, of "''/tmp/a''" e] 1(1,4) 2
  show ?thesis by auto
qed

text \<open>
  C19: the code of \<^verbatim>\<open>mdb_txn_commit\<close> is not looked at.  When LMDB cannot commit, \<^verbatim>\<open>commit\<close> still
  returns normally, everything since the last commit is gone, and the Merkle tree in memory goes on
  as if it were there.
\<close>

theorem am_commit_unchecked:
  assumes "lmdb_ok (fb_size F) L" and "am_rel sha3 F e a d"
    and "\<And>tx e0. fst (mdb_txn_commit L tx e0) \<noteq> MDB_SUCCESS"
    and "am_commit F L (e, a) = (r, (e', a'))"
  shows "r = Inl (InternalError FATAL)
    \<or> r = Inr () \<and> log_of (am_trees e' a') = vw_log (db_committed d)
      \<and> ledger_of F (am_trees e' a') = vw_ledger (db_committed d)
      \<and> ts_merkle (am_txs a') = ts_merkle (am_txs a)"
proof -
  from am_commit_ok [OF assms(1,2,4)] show ?thesis
  proof (elim disjE exE conjE)
    fix tx e0 assume r: "r = Inr ()" and "am_rel sha3 F e' a'
      (if fst (mdb_txn_commit L tx e0) = MDB_SUCCESS then spec_commit d else spec_rollback d)"
    then have d': "am_rel sha3 F e' a' (spec_rollback d)" using assms(3) by simp
    from am_relD(2,4) [OF d'] am_relD(4) [OF assms(2)] r show ?thesis
      by (simp add: spec_rollback_def view_of_def)
  qed simp
qed

theorem am_commit_unchecked_witness:
  "\<exists>root e a e' a'. am_append (\<lambda>_. zero_hash) cell_fb mem first_tx (start_env, start_am) = (Inr root, (e, a))
    \<and> am_commit cell_fb (failing mem) (e, a) = (Inr (), (e', a'))
    \<and> log_of (am_trees e' a') = []"
proof -
  obtain root e a d where 1: "am_append (\<lambda>_. zero_hash) cell_fb mem first_tx (start_env, start_am) = (Inr root, (e, a))"
    "mem_fresh e" "am_rel (\<lambda>_. zero_hash) cell_fb e a d" "db_committed d = start_view" by (rule first_append)
  obtain e' a' where 2: "am_commit cell_fb (failing mem) (e, a) = (Inr (), (e', a'))"
    using failure.live_commit [OF 1(3,2)] by (auto simp: live_def)
  have c: "fst (mdb_txn_commit (failing mem) tx e0) \<noteq> MDB_SUCCESS" for tx e0
    by (simp add: failing_def)
  from am_commit_unchecked [OF failing_ok [OF mem_ok] 1(3) c 2] 1(1,4) 2 show ?thesis
    by (auto simp: start_view_def)
qed



section \<open>Errors that are not seen, and one that is not wanted\<close>

text \<open>
  A failure to create the folder of the database is not noticed.  \<^verbatim>\<open>mkdir\<close> returns 0 or -1
  and leaves the reason in \<^verbatim>\<open>errno\<close>; the code compares what it returns with the reasons, so
  this step of the constructor never fails.
\<close>

theorem am_make_folder_blind:
  assumes "os_mkdir A (am_path a) \<in> {0, -1}"
  shows "am_make_folder A (e, a) = (Inr (), (e, a))"
  using assms by (auto simp: am_make_folder_def bindS_def result_simps Let_def MKDIR_ERRORS_def)

theorem am_make_folder_blind_witness:
  "am_make_folder ((mem_env_api (\<lambda>_. None))\<lparr>os_mkdir := (\<lambda>_. -1)\<rparr>) (start_env, start_am) = (Inr (), (start_env, start_am))"
  by (rule am_make_folder_blind) simp

text \<open>
  \<^verbatim>\<open>getAssetCreateByKey\<close> does not pass the environment on.  For committed data it begins a
  transaction on the null pointer, whatever the database holds; on the open transaction it works
  like the other queries.
\<close>

theorem am_create_query_undefined:
  assumes "am_ok F e a"
  shows "am_getAssetCreateByKey L pubKey False (e, a) = (Inl Undefined, (e, a))"
proof -
  have n: "(''index_asset_create'', True) \<in> set txs_names" by (rule txs_names_mem(3)) (simp add: index_names_def)
  obtain d c where "map_of (ts_trees (am_txs a)) ''index_asset_create'' = Some (d, c)"
    using store_okD [OF txs_okD(1) [OF am_okD(3) [OF assms]] n] by blast
  then show ?thesis
    by (simp add: am_getAssetCreateByKey_def getAssetCreateByKey_def getTxByKey_def on_txs_def bindS_def
        txs_tree_def trees_at_def query_cursor_def result_simps)
qed

theorem am_create_query_undefined_witness:
  "am_getAssetCreateByKey mem ''a'' False (start_env, start_am) = (Inl Undefined, (start_env, start_am))"
  by (rule am_create_query_undefined [OF am_relD(1) [OF start_rel]])

end
