(* ===== verification/Ametsuchi_Queries.thy ===== *)
theory Ametsuchi_Queries
  imports Ametsuchi_Runs Wsv_Queries Tx_Store_Queries
begin

text \<open>
  Queries of the committed data of an open database (\<^verbatim>\<open>uncommitted = false\<close>): they run in a read
  transaction of their own, see what was committed last and not the open transaction, and leave
  the database as it was, except for what they forget to close.
\<close>

section \<open>Added transactions and cursors do not matter\<close>

lemma store_ok_extends:
  assumes st: "store_ok names ts tx e" and x: "extends e e'"
  shows "store_ok names ts tx e'" "store_tree e' tx = store_tree e tx"
proof -
  obtain t where t: "env_txns e tx = Some t" "\<not> txn_rdonly t" using st by (auto simp: store_ok_def)
  then have t': "env_txns e' tx = Some t" using x by (simp add: extends_def)
  then have db: "txn_db e' tx = txn_db e tx" using t by (simp add: txn_db_def fun_eq_iff)
  then show "store_tree e' tx = store_tree e tx" by (simp add: store_tree_def fun_eq_iff)
  have "\<exists>d c db. map_of ts n = Some (d, c) \<and> env_dbis e' d = Some n
      \<and> cursor_home e' c = Some (tx, n) \<and> txn_db e' tx n = Some db \<and> db_dup db = dup"
    if "(n, dup) \<in> set names" for n dup
    using store_okD [OF st that] x db unfolding extends_def by metis
  then show "store_ok names ts tx e'" using t t' by (auto simp: store_ok_def)
qed

lemma am_rel_extends:
  assumes d: "am_rel sha3 F e a d" and x: "extends e e'"
  shows "am_rel sha3 F e' a d"
proof -
  let ?s = "am_txs a" and ?w = "am_wsv a"
  note o = am_okD [OF am_relD(1) [OF d]]
  have s: "store_ok txs_names (ts_trees ?s) (ts_append_tx ?s) e'"
    "am_trees e' a = am_trees e a"
    using store_ok_extends [OF txs_okD(1) [OF o(3)] x] by auto
  have w: "store_ok wsv_names (w_trees ?w) (w_append_tx ?w) e'"
    using store_ok_extends(1) [OF wsv_okD(1) [OF o(5)] x] .
  have t: "ttree e' ?s = ttree e ?s" "wtree e' ?w = wtree e ?w"
    using s(2) o(2) by (simp_all add: ttree_def wtree_def fun_eq_iff)
  have "env_cmp e' = env_cmp e" "env_committed e' = env_committed e" using x by (simp_all add: extends_def)
  then have "am_ok F e' a"
    using o s w t by (simp add: am_ok_def txs_ok_def indices_ok_def wsv_ok_def)
  then show ?thesis using am_relD [OF d] s(2) \<open>env_committed e' = env_committed e\<close>
    by (simp add: am_rel_def)
qed

text \<open>The trees of both stores can be opened for reading once they were committed.\<close>

lemma am_openable:
  assumes a: "am_ok F e a" and c: "env_committed e n \<noteq> None"
  shows "(n, dup) \<in> set wsv_names \<Longrightarrow> \<exists>h. map_of (w_trees (am_wsv a)) n = Some h \<and> openable e tx0 False n h"
    and "(n, dup) \<in> set txs_names \<Longrightarrow> \<exists>h. map_of (ts_trees (am_txs a)) n = Some h \<and> openable e tx0 False n h"
  using store_okD [OF wsv_okD(1) [OF am_okD(5) [OF a]], of n dup] store_okD [OF txs_okD(1) [OF am_okD(3) [OF a]], of n dup] c
  by (auto simp: openable_def)

lemma query_tree_committed: "query_tree e tx0 False = dbs_tree (env_committed e)"
  by (simp add: query_tree_def fun_eq_iff)

lemma committed_trees:
  assumes "am_rel sha3 F e a d"
  shows "trees_ok F (query_tree e tx0 False)" "db_committed d = view_of F (query_tree e tx0 False)"
  using am_relD(3) [OF assms] am_okD(8) [OF am_relD(1) [OF assms]]
  by (simp_all add: query_tree_committed db_ok_def)

lemma am_rel_created: "am_rel sha3 F e a d \<Longrightarrow> w_created_assets (am_wsv a) = lg_created (vw_ledger (db_now d))"
  using am_ok_trees(3) [OF am_relD(1), of sha3 F e a d]
  by (simp add: am_relD(2) view_of_def wsv_abs_def ledger_of_def)

section \<open>The queries\<close>

text \<open>A read transaction and a cursor in it that were not there before.\<close>

definition leaves_open :: "('b, 'x) env \<Rightarrow> ('b, 'x) env \<Rightarrow> string \<Rightarrow> bool" where
  "leaves_open e e' n \<longleftrightarrow> (\<exists>tx c. env_txns e tx = None
     \<and> env_txns e' tx = Some \<lparr>txn_rdonly = True, txn_dbs = env_committed e\<rparr>
     \<and> cursor_home e c = None \<and> cursor_home e' c = Some (tx, n))"

lemma session_leaves_open: "session tx0 False e e' n c tx \<Longrightarrow> leaves_open e e' n"
  by (auto simp: session_def leaves_open_def)

lemma am_query_asset:
  assumes L: "lmdb_ok (fb_size F) L" and d: "am_rel sha3 F e a d"
    and c: "env_committed e ''wsv_pubkey_assets'' \<noteq> None" and key: "key_size_ok (fb_size F) (IStr acc)"
    and r: "am_accountGetAsset L acc ln dn an False (e, a) = (r, (e', a'))"
  defines "pk \<equiv> asset_pk ln dn an"
  shows "a' = a \<and> extends e e' \<and> (r = Inl (InternalError FATAL)
    \<or> r = Inl (InvalidTransaction ASSET_NOT_FOUND) \<and> lg_created (vw_ledger (db_now d)) pk = None \<and> e' = e
    \<or> r = Inl (InvalidTransaction ASSET_NOT_FOUND) \<and> lg_assets (vw_ledger (db_committed d)) acc pk = None
      \<and> leaves_open e e' ''wsv_pubkey_assets''
    \<or> (\<exists>b. r = Inr (IBlob b) \<and> lg_created (vw_ledger (db_now d)) pk \<noteq> None
         \<and> lg_assets (vw_ledger (db_committed d)) acc pk = Some b \<and> unchanged e e'))"
proof -
  let ?n = "''wsv_pubkey_assets''" and ?w = "am_wsv a"
  note am = am_relD(1) [OF d]
  obtain w' where w': "accountGetAsset L acc ln dn an False True (e, ?w) = (r, (e', w'))" "a' = a\<lparr>am_wsv := w'\<rparr>"
    using r by (auto simp: am_accountGetAsset_def on_wsv_def split: prod.splits)
  show ?thesis
  proof (cases "w_created_assets ?w pk")
    case None
    then have "(r, (e', w')) = (Inl (InvalidTransaction ASSET_NOT_FOUND), (e, ?w))"
      using w'(1) by (simp add: accountGetAsset_def bindS_def result_simps pk_def)
    then show ?thesis using None w'(2) am_rel_created [OF d] unchanged_extends [OF unchanged_refl, of e] by auto
  next
    case (Some blob)
    obtain h where h: "map_of (w_trees ?w) ?n = Some h" "openable e 0 False ?n h"
      using am_openable(1) [OF am c, of True 0] by (auto simp: wsv_names_def)
    note w = wsv_okD [OF am_okD(5) [OF am]]
    have t: "assets_ok F (query_tree e 0 False ?n)"
      using committed_trees(1) [OF d] by (simp add: trees_ok_def wsv_data_ok_def)
    have com: "lg_assets (vw_ledger (db_committed d)) = hold F (query_tree e 0 False ?n)"
      by (simp add: committed_trees(2) [OF d, of 0] view_of_def ledger_of_def)
    from get_asset_session [OF L h(2) disjI2 [OF TrueI] refl h(1) t w(2) Some [unfolded pk_def] w(8) [OF Some [unfolded pk_def]] key w'(1)]
    show ?thesis using w'(2) am_rel_created [OF d] Some unfolding com pk_def
      by (auto dest: session_extends session_leaves_open unchanged_extends)
  qed
qed

lemma am_query_all_assets:
  assumes L: "lmdb_ok (fb_size F) L" and d: "am_rel sha3 F e a d"
    and c: "env_committed e ''wsv_pubkey_assets'' \<noteq> None" and key: "key_size_ok (fb_size F) (IStr acc)"
    and gr: "grouped (dbs_tree (env_committed e) ''wsv_pubkey_assets'')"
    and r: "am_accountGetAllAssets L acc False (e, a) = (r, (e', a'))"
  shows "a' = a \<and> extends e e' \<and> (r = Inl (InternalError FATAL)
    \<or> leaves_open e e' ''wsv_pubkey_assets''
      \<and> r = Inr (tget (dbs_tree (env_committed e) ''wsv_pubkey_assets'') (IStr acc)))"
proof -
  let ?n = "''wsv_pubkey_assets''" and ?w = "am_wsv a"
  obtain w' where w': "accountGetAllAssets L acc False True (e, ?w) = (r, (e', w'))" "a' = a\<lparr>am_wsv := w'\<rparr>"
    using r by (auto simp: am_accountGetAllAssets_def on_wsv_def split: prod.splits)
  obtain h where h: "map_of (w_trees ?w) ?n = Some h" "openable e 0 False ?n h"
    using am_openable(1) [OF am_relD(1) [OF d] c, of True 0] by (auto simp: wsv_names_def)
  have t: "grouped (query_tree e 0 False ?n)" using gr by (simp add: query_tree_committed)
  from all_assets_session [OF L h(2) disjI2 [OF TrueI] refl h(1) t key w'(1)]
  show ?thesis using w'(2) unfolding query_tree_committed
    by (auto dest: session_extends session_leaves_open)
qed

text \<open>What those records are in the committed ledger.\<close>

lemma committed_assets:
  fixes acc :: string
  assumes d: "am_rel sha3 F e a d"
  defines "vs \<equiv> tget (dbs_tree (env_committed e) ''wsv_pubkey_assets'') (IStr acc)"
  shows "distinct vs" "IBlob b \<in> set vs \<longleftrightarrow> (\<exists>pk. lg_assets (vw_ledger (db_committed d)) acc pk = Some b)"
    "v \<in> set vs \<Longrightarrow> \<exists>b. v = IBlob b"
proof -
  let ?t = "dbs_tree (env_committed e) ''wsv_pubkey_assets''"
  have t: "assets_ok F ?t"
    using committed_trees(1) [OF d] by (simp add: trees_ok_def wsv_data_ok_def query_tree_committed)
  have com: "lg_assets (vw_ledger (db_committed d)) acc = hold F ?t acc"
    by (simp add: committed_trees(2) [OF d, of 0] view_of_def ledger_of_def query_tree_committed)
  show "distinct vs" using t by (simp add: assets_ok_def vs_def distinct_map)
  have pk: "item_pk F v \<noteq> None" if "v \<in> set vs" for v using t that by (simp add: assets_ok_def vs_def)
  show "v \<in> set vs \<Longrightarrow> \<exists>b. v = IBlob b" using pk item_pk_Some by blast
  show "IBlob b \<in> set vs \<longleftrightarrow> (\<exists>pk. lg_assets (vw_ledger (db_committed d)) acc pk = Some b)"
    unfolding com hold_iff [OF t] using pk [of "IBlob b"] by (auto simp: vs_def set_tget)
qed

lemma am_query_txs:
  assumes L: "lmdb_ok (fb_size F) L" and d: "am_rel sha3 F e a d" and n: "n \<in> set index_names"
    and c: "env_committed e n \<noteq> None" "vw_log (db_committed d) \<noteq> []"
    and key: "key_size_ok (fb_size F) (IStr pk)" and gr: "grouped (dbs_tree (env_committed e) n)"
    and r: "on_txs (getTxByKey L n pk False True) (e, a) = (r, (e', a'))"
  defines "vs \<equiv> tget (dbs_tree (env_committed e) n) (IStr pk)"
  shows "a' = a \<and> extends e e' \<and> (r = Inl (InternalError FATAL)
    \<or> r = Inr (replicate (length vs) (hd (vw_log (db_committed d))))
      \<and> (if vs = [] then leaves_open e e' n else unchanged e e'))"
proof -
  let ?s = "am_txs a"
  note am = am_relD(1) [OF d]
  obtain s' where s': "getTxByKey L n pk False True (e, ?s) = (r, (e', s'))" "a' = a\<lparr>am_txs := s'\<rparr>"
    using r by (auto simp: on_txs_def split: prod.splits)
  have log: "vw_log (db_committed d) = map snd (dbs_tree (env_committed e) ''tx_store'')"
    by (simp add: committed_trees(2) [OF d, of 0] view_of_def log_of_def query_tree_committed)
  then have ne: "dbs_tree (env_committed e) ''tx_store'' \<noteq> []" and x: "env_committed e ''tx_store'' \<noteq> None"
    using c(2) by (auto simp: dbs_tree_def split: option.splits)
  obtain h where h: "map_of (ts_trees ?s) n = Some h" "openable e 0 False n h"
    using am_openable(2) [OF am c(1) txs_names_mem(3) [OF n]] by blast
  obtain th where th: "map_of (ts_trees ?s) ''tx_store'' = Some th" "openable e 0 False ''tx_store'' th"
    using am_openable(2) [OF am x txs_names_mem(1)] by blast
  have "n \<noteq> ''tx_store''" using n by (auto simp: index_names_def)
  from get_tx_session [OF L h(2) th(2) disjI2 [OF TrueI] this h(1) th(1) _ _ key s'(1)] ne gr
  show ?thesis using s'(2) unfolding query_tree_committed log vs_def
    by (auto simp: hd_map dest: session_extends session_leaves_open unchanged_extends split: if_splits)
qed

end
