(* ===== verification/Query_Properties.thy ===== *)
theory Query_Properties
  imports Ametsuchi_Queries Ametsuchi_Example
begin

text \<open>
  The properties of queries on committed data, with a database in memory whose open transaction
  and committed data differ for their witnesses.
\<close>

section \<open>An example\<close>

text \<open>The account holds 200 in the open transaction, \<open>x\<close> in what was committed.\<close>

definition two_trees :: "(string \<times> bool \<times> cell tree) list" where
  "two_trees = map (\<lambda>(n, dup). (n, dup, [])) txs_names @ demo_wsv_trees"

definition two_committed :: "64 word \<Rightarrow> string \<Rightarrow> cell db option" where
  "two_committed x = [''wsv_pubkey_assets'' \<mapsto>
     \<lparr>db_dup = True, db_tree = [(IStr ''1'', IBlob (dollar (Some x) (Some 2)))]\<rparr>]"

definition two_env :: "64 word \<Rightarrow> cell mem" where
  "two_env x = (demo_env two_trees demo_cmp)\<lparr>env_committed := two_committed x\<rparr>"

definition two_handles :: "string set \<Rightarrow> trees" where
  "two_handles S = filter (\<lambda>h. fst h \<in> S) (demo_trees two_trees)"

definition two_am :: "cell ametsuchi" where
  "two_am = \<lparr>am_path = ''/tmp/a'', am_append_tx = Some 0,
     am_txs = \<lparr>ts_total = 0, ts_trees = two_handles txs_set, ts_merkle = start_merkle,
       ts_append_tx = 0, ts_trees_total = 18\<rparr>,
     am_wsv = \<lparr>w_trees = two_handles wsv_set, w_append_tx = 0, w_trees_total = 4,
       w_created_assets = [''lud'' \<mapsto> dollar None None]\<rparr>,
     am_trees_total = 22\<rparr>"

definition two_db :: "64 word \<Rightarrow> cell database" where
  "two_db x = \<lparr>db_now = view_of cell_fb (store_tree (two_env x) 0),
     db_committed = view_of cell_fb (dbs_tree (two_committed x)), db_hashes = []\<rparr>"

lemma two_names:
  "map fst two_trees = map fst (txs_names @ wsv_names)" "distinct (map fst two_trees)"
  "map (\<lambda>(n, dup, t). (n, dup)) two_trees = txs_names @ wsv_names"
proof -
  show 1: "map fst two_trees = map fst (txs_names @ wsv_names)"
    by (simp add: two_trees_def comp_def split_beta demo_wsv_trees_def wsv_names_def)
  show "distinct (map fst two_trees)" unfolding 1 by (simp add: txs_names_def wsv_names_def index_names_def)
  show "map (\<lambda>(n, dup, t). (n, dup)) two_trees = txs_names @ wsv_names"
    by (simp add: two_trees_def comp_def split_beta demo_wsv_trees_def wsv_names_def)
qed

lemma two_store_ok: "store_ok (txs_names @ wsv_names) (demo_trees two_trees) 0 (two_env x)"
  using demo_store_ok [OF two_names(2), of demo_cmp] unfolding two_names(3)
  by (simp add: store_ok_def two_env_def cursor_home_def txn_db_def)

lemma two_tree: "store_tree (two_env x) 0 n = (case map_of two_trees n of None \<Rightarrow> [] | Some (d, t) \<Rightarrow> t)"
  using demo_store_tree [of two_trees demo_cmp n] by (simp add: two_env_def store_tree_def txn_db_def)

lemma two_tree_at:
  "n \<in> txs_set \<Longrightarrow> store_tree (two_env x) 0 n = []"
  "n \<in> wsv_set \<Longrightarrow> store_tree (two_env x) 0 n = wtree demo_wsv_env demo_wsv n"
proof -
  have "map_of (map (\<lambda>(n, dup). (n, dup, [] :: cell tree)) xs) n = map_option (\<lambda>dup. (dup, [])) (map_of xs n)" for xs :: "(string \<times> bool) list"
    by (induction xs) auto
  then have m: "map_of two_trees n = (case map_of txs_names n of
      None \<Rightarrow> map_of demo_wsv_trees n | Some dup \<Rightarrow> Some (dup, []))"
    by (simp add: two_trees_def map_add_def split: option.split)
  show "store_tree (two_env x) 0 n = []" if "n \<in> txs_set"
  proof -
    have "map_of txs_names n \<noteq> None" using that by (auto simp: map_of_eq_None_iff)
    then show ?thesis by (auto simp: two_tree m)
  qed
  show "store_tree (two_env x) 0 n = wtree demo_wsv_env demo_wsv n" if "n \<in> wsv_set"
  proof -
    have "map_of txs_names n = None" using names_disjoint(1) that by (auto simp: map_of_eq_None_iff)
    then show ?thesis by (simp add: two_tree m demo_wtree)
  qed
qed

lemma two_rel: "am_rel (\<lambda>_. zero_hash) cell_fb (two_env x) two_am (two_db x)"
proof -
  have t: "store_ok txs_names (two_handles txs_set) 0 (two_env x)"
    "store_ok wsv_names (two_handles wsv_set) 0 (two_env x)"
    using store_ok_restrict [OF two_store_ok, of txs_names] store_ok_restrict [OF two_store_ok, of wsv_names]
    by (simp_all add: two_handles_def)
  have cmp: "env_cmp (two_env x) n a b = 0 \<longleftrightarrow> a = b" if "n \<in> set index_names" for n a b
    using that names_disjoint(2) by (auto simp: two_env_def demo_env_def demo_cmp_def eq_cmp_def)
  have empty: "store_tree (two_env x) 0 n = []" if "n \<in> set index_names \<or> n = ''tx_store''" for n
    by (rule two_tree_at(1)) (use that in \<open>force simp: txs_names_def\<close>)
  have data: "wtree (two_env x) (am_wsv two_am) n = wtree demo_wsv_env demo_wsv n" if "n \<in> wsv_set" for n
    using two_tree_at(2) [OF that] by (simp add: wtree_def two_am_def)
  have "wsv_ok cell_fb (two_env x) (am_wsv two_am)"
    using demo_wsv_ok t(2) data unfolding wsv_ok_def
    by (simp add: two_am_def wsv_names_def two_env_def demo_env_def demo_cmp_def demo_wsv_def)
  moreover have "txs_ok (two_env x) (am_txs two_am)" "indices_ok cell_fb (two_env x) (am_txs two_am)"
    using cmp empty t(1) by (simp_all add: txs_ok_def indices_ok_def ttree_def two_am_def index_of_def)
  moreover have h: "handles_of S (two_handles S)" for S
  proof -
    have "map fst (demo_trees two_trees) = map fst two_trees" by (rule nth_equalityI) (simp_all add: demo_trees_def)
    then have "distinct (map fst (demo_trees two_trees))" using two_names(2) by simp
    then show ?thesis by (auto simp: handles_of_def two_handles_def distinct_map_filter)
  qed
  moreover have "db_ok cell_fb (two_committed x)"
    by (auto simp: db_ok_def flags_ok_def trees_ok_def wsv_data_ok_def two_committed_def dbs_tree_def
        assets_ok_def created_empty nodup_def index_of_def txs_names_def wsv_names_def index_names_def
        key_size_ok_def MAXKEYSIZE_def)
  ultimately have "am_ok cell_fb (two_env x) two_am"
    unfolding am_ok_def by (simp add: two_am_def two_env_def)
  then show ?thesis using start_run
    by (simp add: am_rel_def two_db_def two_am_def two_env_def)
qed

lemma two_ledger: "vw_ledger (db_now (two_db x)) = wsv_abs cell_fb demo_wsv_env demo_wsv"
proof -
  have "vw_ledger (db_now (two_db x)) = wsv_abs cell_fb (two_env x) (am_wsv two_am)"
    using am_relD(2) [OF two_rel] am_ok_trees(3) [OF am_relD(1) [OF two_rel]] by (simp add: view_of_def)
  also have "\<dots> = wsv_abs cell_fb demo_wsv_env demo_wsv"
    using two_tree_at(2) by (simp add: wsv_abs_def wtree_def two_am_def demo_wsv_def wsv_names_def)
  finally show ?thesis .
qed

lemma two_assets:
  "lg_assets (vw_ledger (db_now (two_db x))) acc pk =
     (if acc = ''1'' \<and> pk = ''lud'' then Some (dollar (Some 200) (Some 2)) else None)"
  "lg_assets (vw_ledger (db_committed (two_db x))) acc pk =
     (if acc = ''1'' \<and> pk = ''lud'' then Some (dollar (Some x) (Some 2)) else None)"
  by (simp_all add: two_ledger demo_abs)
     (simp add: two_db_def view_of_def ledger_of_def hold_def two_committed_def dbs_tree_def)

section \<open>Running the queries\<close>

lemma two_length: "length two_trees = 22"
  by (simp add: two_trees_def txs_names_def index_names_def demo_wsv_trees_def)

lemma two_handle:
  assumes "i < 22" and "fst (two_trees ! i) \<in> S"
  shows "map_of (two_handles S) (fst (two_trees ! i)) = Some (i, i)"
  using assms demo_trees_at [OF two_names(2), of i]
  by (simp add: two_handles_def map_of_filter_fst two_length)

lemma two_handles_at:
  "map_of (two_handles txs_set) ''tx_store'' = Some (0, 0)"
  "map_of (two_handles txs_set) ''index_asset_transfer'' = Some (5, 5)"
  "map_of (two_handles txs_set) ''index_transfer_sender'' = Some (6, 6)"
  "map_of (two_handles txs_set) ''index_transfer_receiver'' = Some (7, 7)"
  "map_of (two_handles wsv_set) ''wsv_pubkey_assets'' = Some (18, 18)"
  using two_handle [of 0 txs_set] two_handle [of 5 txs_set] two_handle [of 6 txs_set]
    two_handle [of 7 txs_set] two_handle [of 18 wsv_set]
  by (simp_all add: two_trees_def txs_names_def wsv_names_def index_names_def demo_wsv_trees_def)

lemma two_state:
  "env_hidden (two_env x) = 23" "env_txns (two_env x) 23 = None"
  "env_cursors (two_env x) 24 = None" "env_cursors (two_env x) 23 = None"
  "env_dbis (two_env x) 18 = Some ''wsv_pubkey_assets''" "env_cmp (two_env x) ''wsv_pubkey_assets'' = cmp_assets cell_fb"
  "env_committed (two_env x) ''wsv_pubkey_assets'' =
     Some \<lparr>db_dup = True, db_tree = [(IStr ''1'', IBlob (dollar (Some x) (Some 2)))]\<rparr>"
  by (simp_all add: two_env_def demo_env_def two_length)
     (simp_all add: two_trees_def txs_names_def demo_wsv_trees_def index_names_def two_committed_def demo_cmp_def)

lemmas two_calls = on_wsv_def wsv_calls mem_calls dollar_calls envS_def two_am_def two_handles_at two_state

lemma two_query_asset:
  "\<exists>e'. am_accountGetAsset (mem_lmdb (fb_size cell_fb)) ''1'' ''l'' ''u'' ''d'' False (two_env x, two_am)
     = (Inr (IBlob (dollar (Some x) (Some 2))), (e', two_am))"
  by (simp add: am_accountGetAsset_def two_calls)

lemma two_query_assets:
  "\<exists>e'. am_accountGetAllAssets (mem_lmdb (fb_size cell_fb)) ''1'' False (two_env x, two_am)
     = (Inr [IBlob (dollar (Some x) (Some 2))], (e', two_am))"
  by (simp add: am_accountGetAllAssets_def accountGetAllAssets_def two_calls loopS_def dup_loop.simps)

section \<open>Properties\<close>

text \<open>
  C11: a query of an asset on committed data is isolated.  It returns the record the account holds
  in what was committed last, whatever the open transaction has done to it, and leaves database
  and environment as they were.  It fails when the account held none then, or when the asset is
  not in the table of created assets, which is that of the open transaction; in the first case the
  read transaction and its cursor are left open.
\<close>

theorem am_query_committed:
  assumes "lmdb_ok (fb_size F) L" and d: "am_rel sha3 F e a d"
    and "env_committed e ''wsv_pubkey_assets'' \<noteq> None" and "key_size_ok (fb_size F) (IStr acc)"
    and "am_accountGetAsset L acc ln dn an False (e, a) = (r, (e', a'))"
  shows "a' = a \<and> am_rel sha3 F e' a d
    \<and> (r = Inl (InternalError FATAL)
      \<or> r = Inl (InvalidTransaction ASSET_NOT_FOUND)
        \<and> (lg_created (vw_ledger (db_now d)) (asset_pk ln dn an) = None \<and> e' = e
          \<or> lg_assets (vw_ledger (db_committed d)) acc (asset_pk ln dn an) = None
            \<and> leaves_open e e' ''wsv_pubkey_assets'')
      \<or> (\<exists>b. r = Inr (IBlob b) \<and> lg_assets (vw_ledger (db_committed d)) acc (asset_pk ln dn an) = Some b
           \<and> env_txns e' = env_txns e \<and> cursor_home e' = cursor_home e))"
  using am_query_asset [OF assms] am_rel_extends [OF d] by (auto simp: unchanged_def frame_def)

theorem am_query_committed_witness:
  "\<exists>e'. am_accountGetAsset (mem_lmdb (fb_size cell_fb)) ''1'' ''l'' ''u'' ''d'' False (two_env 150, two_am)
       = (Inr (IBlob (dollar (Some 150) (Some 2))), (e', two_am))
    \<and> lg_assets (vw_ledger (db_now (two_db 150))) ''1'' ''lud'' = Some (dollar (Some 200) (Some 2))
    \<and> env_txns e' = env_txns (two_env 150)"
proof -
  have k: "key_size_ok (fb_size cell_fb) (IStr ''1'')" by (simp add: key_size_ok_def MAXKEYSIZE_def)
  have c: "env_committed (two_env 150) ''wsv_pubkey_assets'' \<noteq> None" by (simp add: two_env_def two_committed_def)
  obtain e' where r: "am_accountGetAsset (mem_lmdb (fb_size cell_fb)) ''1'' ''l'' ''u'' ''d'' False (two_env 150, two_am)
      = (Inr (IBlob (dollar (Some 150) (Some 2))), (e', two_am))" using two_query_asset by blast
  from am_query_committed [OF mem_ok two_rel c k r] r two_assets(1) show ?thesis by auto
qed

text \<open>
  C34: a query of all assets on committed data returns exactly the records the account holds in what
  was committed last, each once, but every such query leaves a read transaction and a cursor
  open: the walk over the records returns from inside its loop.  Later queries need new ones, up
  to the number of readers LMDB allows.
\<close>

theorem am_query_all_leaks:
  fixes acc :: string
  assumes "lmdb_ok (fb_size F) L" and d: "am_rel sha3 F e a d"
    and "env_committed e ''wsv_pubkey_assets'' \<noteq> None" and "key_size_ok (fb_size F) (IStr acc)"
    and "grouped (dbs_tree (env_committed e) ''wsv_pubkey_assets'')"
    and "am_accountGetAllAssets L acc False (e, a) = (r, (e', a'))"
  shows "a' = a \<and> am_rel sha3 F e' a d
    \<and> (r = Inl (InternalError FATAL)
      \<or> leaves_open e e' ''wsv_pubkey_assets''
        \<and> (\<exists>bs. r = Inr (map IBlob bs) \<and> distinct bs
             \<and> set bs = {b. \<exists>pk. lg_assets (vw_ledger (db_committed d)) acc pk = Some b}))"
proof -
  define vs where "vs = tget (dbs_tree (env_committed e) ''wsv_pubkey_assets'') (IStr acc)"
  note c = committed_assets [OF d, where acc = acc, folded vs_def]
  have "\<exists>bs. vs = map IBlob bs" unfolding ex_map_conv using c(3) by blast
  then obtain bs where bs: "vs = map IBlob bs" by blast
  have "distinct bs" using c(1) bs by (simp add: distinct_map)
  moreover have "set bs = {b. \<exists>pk. lg_assets (vw_ledger (db_committed d)) acc pk = Some b}"
    using c(2) by (auto simp: bs image_iff)
  moreover note q = am_query_all_assets [OF assms, folded vs_def, unfolded bs]
  moreover have "am_rel sha3 F e' a d" using am_rel_extends [OF d] q by simp
  ultimately show ?thesis by auto
qed

theorem am_query_all_leaks_witness:
  "\<exists>e'. am_accountGetAllAssets (mem_lmdb (fb_size cell_fb)) ''1'' False (two_env 150, two_am)
       = (Inr [IBlob (dollar (Some 150) (Some 2))], (e', two_am))
    \<and> leaves_open (two_env 150) e' ''wsv_pubkey_assets''"
proof -
  have k: "key_size_ok (fb_size cell_fb) (IStr ''1'')" by (simp add: key_size_ok_def MAXKEYSIZE_def)
  have c: "env_committed (two_env 150) ''wsv_pubkey_assets'' \<noteq> None" by (simp add: two_env_def two_committed_def)
  have g: "grouped (dbs_tree (env_committed (two_env 150)) ''wsv_pubkey_assets'')"
    by (simp add: two_env_def two_committed_def dbs_tree_def grouped_def)
  obtain e' where r: "am_accountGetAllAssets (mem_lmdb (fb_size cell_fb)) ''1'' False (two_env 150, two_am)
      = (Inr [IBlob (dollar (Some 150) (Some 2))], (e', two_am))" using two_query_assets by blast
  from am_query_all_leaks [OF mem_ok two_rel c k g r] r show ?thesis by auto
qed

end
