(* ===== verification/Ledger_Invariants.thy ===== *)
theory Ledger_Invariants
  imports Query_Properties Wsv_Properties Ametsuchi_Properties
begin

text \<open>
  What stays true of the ledger over any sequence of appends, commits (also lost ones) and
  rollbacks: every record stands under the key that its own fields give, and the supply of a
  currency changes only by commands that add or remove it.
\<close>

section \<open>Invariants of both views\<close>

text \<open>An invariant that every appended transaction keeps holds of both views after any run.\<close>

lemma spec_run_views:
  assumes "spec_run sha3 F d cs d'"
    and step: "\<And>blob v. Append blob \<in> set cs \<Longrightarrow> Q v \<Longrightarrow>
      Q \<lparr>vw_log = vw_log v @ [IBlob blob], vw_ledger = replay_step F (IBlob blob) (vw_ledger v)\<rparr>"
    and "Q (db_now d)" and "Q (db_committed d)"
  shows "Q (db_now d') \<and> Q (db_committed d')"
  using assms
proof induction
  case (spec_append cs d1 blob r d')
  then show ?case using spec_append_step [OF spec_append.hyps(2)] by simp
qed (simp_all add: spec_commit_def spec_rollback_def)

lemma am_run_views:
  assumes "lmdb_ok (fb_size F) L" and "fb_ok F" and d: "am_rel sha3 F e a d"
    and run: "am_run sha3 F L (e, a) cs (e', a')"
    and "\<And>blob v. Append blob \<in> set cs \<Longrightarrow> Q v \<Longrightarrow>
      Q \<lparr>vw_log = vw_log v @ [IBlob blob], vw_ledger = replay_step F (IBlob blob) (vw_ledger v)\<rparr>"
    and "Q (db_now d)" and "Q (db_committed d)"
  shows "am_ok F e' a' \<and> Q (view_of F (am_trees e' a')) \<and> Q (view_of F (dbs_tree (env_committed e')))"
proof -
  obtain d' where d': "spec_run sha3 F d cs d'" "am_rel sha3 F e' a' d'"
    using am_run_simulated [OF assms(1,2) run] d by auto
  show ?thesis using spec_run_views [OF d'(1) assms(5-7)] am_relD [OF d'(2)] by simp
qed

lemma replay_cases:
  "replay_step F (IBlob b) g = g
   \<or> replay_step F (IBlob b) g = snd (spec_update F (tx_command (fb_transaction F b)) g)"
  by (simp add: replay_step_def Let_def)

section \<open>Supply\<close>

text \<open>The records of one currency: of one size and precision, with a stored amount.\<close>

definition uniform :: "'b fb \<Rightarrow> nat \<Rightarrow> 8 word \<Rightarrow> 'b \<Rightarrow> bool" where
  "uniform F z p b \<longleftrightarrow> fb_size F b = z
     \<and> (\<exists>cy. fb_asset F b = CurrencyAsset cy \<and> read_precision cy = p \<and> cy_amount cy \<noteq> None)"

definition supply_of :: "'b fb \<Rightarrow> string set \<Rightarrow> string \<Rightarrow> 'b ledger \<Rightarrow> nat" where
  "supply_of F A pk g = (\<Sum>acc \<in> A. balance F g acc pk)"

text \<open>Commands that at most move the currency \<open>pk\<close> between the accounts \<open>A\<close>.\<close>

definition moves_only :: "'b fb \<Rightarrow> string set \<Rightarrow> string \<Rightarrow> nat \<Rightarrow> 8 word \<Rightarrow> 'b command \<Rightarrow> bool" where
  "moves_only F A pk z p cmd = (case cmd of
       AssetAdd acc asset \<Rightarrow> asset_id F asset \<noteq> pk
     | AssetRemove acc asset \<Rightarrow> asset_id F asset \<noteq> pk
     | AssetTransfer asset s r \<Rightarrow> asset_id F asset = pk \<longrightarrow> uniform F z p asset \<and> s \<in> A \<and> r \<in> A
     | AccountRemove (Some acc) \<Rightarrow> acc \<notin> A
     | _ \<Rightarrow> True)"

definition holds :: "'b fb \<Rightarrow> string set \<Rightarrow> string \<Rightarrow> nat \<Rightarrow> 8 word \<Rightarrow> nat \<Rightarrow> 'b ledger \<Rightarrow> bool" where
  "holds F A pk z p T g \<longleftrightarrow> supply_of F A pk g = T
     \<and> (\<forall>acc \<in> A. \<forall>b. lg_assets g acc pk = Some b \<longrightarrow> uniform F z p b)"

lemma uniform_takes: "uniform F z p old \<Longrightarrow> uniform F z p asset \<Longrightarrow> p \<le> 18 \<Longrightarrow> takes F old asset"
  by (auto simp: uniform_def takes_def)

lemma takes_uniform: "takes F new asset \<Longrightarrow> uniform F z p asset \<Longrightarrow> uniform F z p new"
  by (auto simp: uniform_def takes_def split: any_asset.splits)

lemma holds_cong:
  "(\<And>acc. acc \<in> A \<Longrightarrow> lg_assets g' acc pk = lg_assets g acc pk) \<Longrightarrow> holds F A pk z p T g' = holds F A pk z p T g"
  by (simp add: holds_def supply_of_def balance_def)

lemma supply_set_asset:
  assumes "finite A" and "acc \<in> A"
  shows "supply_of F A pk (set_asset acc pk b g) + balance F g acc pk = supply_of F A pk g + amount_of F b"
proof -
  have "supply_of F A pk h = balance F h acc pk + (\<Sum>x \<in> A - {acc}. balance F h x pk)" for h
    using assms by (simp add: supply_of_def sum.remove)
  then show ?thesis by (simp add: balance_set_asset)
qed

lemma balance_le_supply: "finite A \<Longrightarrow> acc \<in> A \<Longrightarrow> balance F g acc pk \<le> supply_of F A pk g"
  unfolding supply_of_def by (rule member_le_sum) simp_all

text \<open>A command on another currency, or on none.\<close>

lemma spec_add_other: "asset_id F asset \<noteq> pk \<Longrightarrow> lg_assets (snd (spec_add F acc asset g)) acc' pk = lg_assets g acc' pk"
  by (auto simp: spec_add_def Let_def set_asset_def split: option.splits sum.splits)

lemma spec_remove_other: "asset_id F asset \<noteq> pk \<Longrightarrow> lg_assets (snd (spec_remove F acc asset g)) acc' pk = lg_assets g acc' pk"
  by (auto simp: spec_remove_def Let_def set_asset_def split: option.splits sum.splits)

lemma transfer_holds:
  assumes F: "fb_ok F" and A: "finite A" "s \<in> A" "r \<in> A" and T: "T < 2 ^ 64" and p: "p \<le> 18"
    and u: "uniform F z p asset" and g: "holds F A (asset_id F asset) z p T g"
  shows "holds F A (asset_id F asset) z p T (snd (spec_update F (AssetTransfer asset s r) g))"
proof -
  let ?pk = "asset_id F asset" and ?a = "amount_of F asset"
  have tk: "takes F b asset" if "acc \<in> A" "lg_assets g acc ?pk = Some b" for acc b
    using uniform_takes [OF _ u p, of b] g that by (simp add: holds_def)
  have cur: "is_currency F asset" using u by (auto simp: uniform_def is_currency_def)
  note rem = spec_remove_balance [OF F tk [OF A(2)] refl, of g s]
  show ?thesis
  proof (cases "\<exists>new. spec_remove F s asset g = (Inr (), set_asset s ?pk new g) \<and> takes F new asset
      \<and> amount_of F new = balance F g s ?pk - ?a \<and> ?a \<le> balance F g s ?pk \<and> held g s ?pk \<noteq> None")
    case False
    then have "snd (spec_remove F s asset g) = g \<and> (\<exists>err. fst (spec_remove F s asset g) = Inl err)"
      using rem by (auto split: if_splits)
    then show ?thesis using cur g by (cases "spec_remove F s asset g") (auto simp: spec_update_def)
  next
    case True
    then obtain new where n: "spec_remove F s asset g = (Inr (), set_asset s ?pk new g)" "takes F new asset"
      "amount_of F new = balance F g s ?pk - ?a" "?a \<le> balance F g s ?pk" "held g s ?pk \<noteq> None" by blast
    let ?h = "set_asset s ?pk new g"
    have h: "holds F A ?pk z p (T - ?a) ?h" "?a \<le> T"
      using supply_set_asset [OF A(1,2), of F ?pk new g] balance_le_supply [OF A(1,2), of F g ?pk] n(3,4) g
        takes_uniform [OF n(2) u]
      by (auto simp: holds_def set_asset_def)
    have "takes F b asset" if "lg_assets ?h r ?pk = Some b" for b
      using uniform_takes [OF _ u p, of b] h A(3) that by (simp add: holds_def)
    moreover have "balance F ?h r ?pk + ?a < 2 ^ 64"
      using balance_le_supply [OF A(1,3), of F ?h ?pk] h T by (simp add: holds_def)
    moreover have "held ?h r ?pk = lg_assets ?h r ?pk" using n(5) by (auto simp: held_def set_asset_def split: if_splits)
    ultimately obtain new' where n': "spec_add F r asset ?h = (Inr (), set_asset r ?pk new' ?h)"
      "amount_of F new' = balance F ?h r ?pk + ?a" "takes F new' asset \<or> new' = asset"
      using spec_add_balance [OF F _ refl, of ?h r asset] by blast
    have "uniform F z p new'" using n'(3) u by (auto intro: takes_uniform)
    then have "holds F A ?pk z p T (set_asset r ?pk new' ?h)"
      using supply_set_asset [OF A(1,3), of F ?pk new' ?h] n'(2) h by (auto simp: holds_def set_asset_def)
    then show ?thesis using n(1) n'(1) cur by (simp add: spec_update_def)
  qed
qed

lemma update_holds:
  assumes F: "fb_ok F" and A: "finite A" and T: "T < 2 ^ 64" and p: "p \<le> 18"
    and m: "moves_only F A pk z p cmd" and g: "holds F A pk z p T g"
  shows "holds F A pk z p T (snd (spec_update F cmd g))"
proof -
  have keep: "holds F A pk z p T g'" if "\<And>acc. acc \<in> A \<Longrightarrow> lg_assets g' acc pk = lg_assets g acc pk" for g'
    using holds_cong [OF that] g by metis
  show ?thesis
  proof (cases cmd)
    case (AssetTransfer asset s r)
    show ?thesis
    proof (cases "asset_id F asset = pk")
      case True
      then have "uniform F z p asset" "s \<in> A" "r \<in> A" "holds F A (asset_id F asset) z p T g"
        using m g AssetTransfer by (simp_all add: moves_only_def)
      from transfer_holds [OF F A this(2,3) T p this(1,4)] show ?thesis using True AssetTransfer by simp
    next
      case False
      then have "lg_assets (snd (spec_update F cmd g)) acc pk = lg_assets g acc pk" for acc
        using spec_remove_other [OF False, of s g acc]
          spec_add_other [OF False, of r "snd (spec_remove F s asset g)" acc]
        by (cases "spec_remove F s asset g") (auto simp: spec_update_def AssetTransfer split: sum.splits)
      then show ?thesis by (intro keep)
    qed
  next
    case (AccountRemove k)
    then show ?thesis using m g by (intro keep) (auto simp: spec_update_def moves_only_def split: option.splits)
  qed (use m g spec_add_other spec_remove_other in
      \<open>auto simp: spec_update_def moves_only_def intro!: keep split: option.splits\<close>)
qed

section \<open>Typed records\<close>

text \<open>What the key of a record says of its value.\<close>

definition typed_ledger :: "'b fb \<Rightarrow> 'b ledger \<Rightarrow> bool" where
  "typed_ledger F g \<longleftrightarrow>
     (\<forall>acc pk b. lg_assets g acc pk = Some b \<longrightarrow> item_pk F (IBlob b) = Some pk)
     \<and> (\<forall>pk v. lg_accounts g pk = Some v \<longrightarrow> (\<exists>b. v = IBlob b \<and> fb_account_pubKey F b = pk))
     \<and> (\<forall>pk b. lg_created g pk = Some b \<longrightarrow> item_pk F (IBlob b) = Some pk)
     \<and> (\<forall>ip v. lg_peers g ip = Some v \<longrightarrow> (\<exists>b. v = IBlob b \<and> fb_peer_ip F b = Some ip))"

definition typed_view :: "'b fb \<Rightarrow> 'b view \<Rightarrow> bool" where
  "typed_view F v \<longleftrightarrow> set (vw_log v) \<subseteq> range IBlob \<and> typed_ledger F (vw_ledger v)"

definition typed_trees :: "'b fb \<Rightarrow> (string \<Rightarrow> 'b tree) \<Rightarrow> bool" where
  "typed_trees F t \<longleftrightarrow>
     (\<exists>bs. t ''tx_store'' = zip (map INum [1..<Suc (length bs)]) (map IBlob bs))
     \<and> (\<forall>n \<in> set index_names - transfer_indices. \<forall>(k, v) \<in> set (t n).
          \<exists>i b. v = INum i \<and> (INum i, IBlob b) \<in> set (t ''tx_store'')
            \<and> k = IStr (tx_creatorPubKey (fb_transaction F b))
            \<and> (\<exists>ns. index_trees (tx_command (fb_transaction F b)) = Some ns \<and> n \<in> set ns))
     \<and> typed_ledger F (ledger_of F t)"

text \<open>The assets are typed in any consistent trees; accounts and peers by what put them there.\<close>

definition typed_people :: "'b fb \<Rightarrow> 'b view \<Rightarrow> bool" where
  "typed_people F v \<longleftrightarrow> set (vw_log v) \<subseteq> range IBlob
     \<and> (\<forall>pk x. lg_accounts (vw_ledger v) pk = Some x \<longrightarrow> (\<exists>b. x = IBlob b \<and> fb_account_pubKey F b = pk))
     \<and> (\<forall>ip x. lg_peers (vw_ledger v) ip = Some x \<longrightarrow> (\<exists>b. x = IBlob b \<and> fb_peer_ip F b = Some ip))"

lemma spec_asset_people:
  "lg_accounts (snd (spec_add F acc asset g)) = lg_accounts g" "lg_peers (snd (spec_add F acc asset g)) = lg_peers g"
  "lg_accounts (snd (spec_remove F acc asset g)) = lg_accounts g" "lg_peers (snd (spec_remove F acc asset g)) = lg_peers g"
  by (auto simp: spec_add_def spec_remove_def Let_def set_asset_def split: option.splits sum.splits)

lemma update_people:
  assumes "typed_people F \<lparr>vw_log = l, vw_ledger = g\<rparr>"
  shows "typed_people F \<lparr>vw_log = l, vw_ledger = snd (spec_update F cmd g)\<rparr>"
proof (cases cmd)
  case (AssetTransfer asset s r)
  then show ?thesis
    using assms spec_asset_people(3,4) [of F s asset g]
    by (cases "spec_remove F s asset g")
      (auto simp: spec_update_def typed_people_def spec_asset_people split: sum.splits)
qed (use assms in \<open>auto simp: spec_update_def typed_people_def spec_asset_people split: option.splits\<close>)

lemma append_people:
  assumes "typed_people F v"
  shows "typed_people F \<lparr>vw_log = vw_log v @ [IBlob blob], vw_ledger = replay_step F (IBlob blob) (vw_ledger v)\<rparr>"
proof -
  have "typed_people F \<lparr>vw_log = vw_log v @ [IBlob blob], vw_ledger = vw_ledger v\<rparr>"
    using assms by (auto simp: typed_people_def)
  from this update_people [OF this] show ?thesis
    using replay_cases [of F blob "vw_ledger v"] by metis
qed

lemma typed_log: "set (log_of t) \<subseteq> range IBlob \<Longrightarrow> \<exists>bs. log_of t = map IBlob bs"
  unfolding ex_map_conv by blast

lemma people_typed:
  assumes "trees_ok F t" and "typed_people F (view_of F t)"
  shows "typed_trees F t"
proof -
  obtain bs where bs: "log_of t = map IBlob bs"
    using typed_log [of t] assms(2) by (auto simp: typed_people_def view_of_def)
  have "t ''tx_store'' = zip (map fst (t ''tx_store'')) (log_of t)" by (simp add: log_of_def zip_map_fst_snd)
  moreover have "length (t ''tx_store'') = length bs"
    using bs by (metis length_map log_of_def)
  ultimately have "t ''tx_store'' = zip (map INum [1..<Suc (length bs)]) (map IBlob bs)"
    using assms(1) bs by (simp add: trees_ok_def)
  moreover have "typed_ledger F (ledger_of F t)"
  proof -
    have d: "assets_ok F (t ''wsv_pubkey_assets'')" "created_ok F (t ''wsv_assetid_asset'')"
      using assms(1) by (simp_all add: trees_ok_def wsv_data_ok_def)
    show ?thesis using assms(2) created_map_ok(3) [OF d(2)]
      by (simp add: typed_ledger_def typed_people_def view_of_def ledger_of_def hold_iff [OF d(1)])
  qed
  moreover have "\<forall>n \<in> set index_names - transfer_indices. \<forall>(k, v) \<in> set (t n).
          \<exists>i b. v = INum i \<and> (INum i, IBlob b) \<in> set (t ''tx_store'')
            \<and> k = IStr (tx_creatorPubKey (fb_transaction F b))
            \<and> (\<exists>ns. index_trees (tx_command (fb_transaction F b)) = Some ns \<and> n \<in> set ns)"
    using assms(1) by (fastforce simp: trees_ok_def index_of_def indexed_def)
  ultimately show ?thesis unfolding typed_trees_def by blast
qed

section \<open>A payment\<close>

text \<open>
  In the database with two views, 50 of the 200 that account 1 holds are paid to account 2: the
  append succeeds on the database in memory.
\<close>

abbreviation pay_tx :: cell where
  "pay_tx \<equiv> demo_tx (AssetTransfer (dollar (Some 50) (Some 2)) ''1'' ''2'')"

lemma two_append:
  "\<exists>root e1 a1. am_append (\<lambda>_. zero_hash) cell_fb mem pay_tx (two_env x, two_am) = (Inr root, (e1, a1))"
proof -
  obtain m z where m: "mt_push (\<lambda>_. zero_hash) (replicate 32 7) start_merkle = Inr m" "mt_root m = Inr z"
    by (rule start_push)
  note defs = two_env_def demo_env_def two_trees_def txs_names_def demo_wsv_trees_def index_names_def
  have c: "env_cursors (two_env x) 0 = Some \<lparr>cu_txn = 0, cu_db = ''tx_store'', cu_pos = None\<rparr>"
    "env_cursors (two_env x) 5 = Some \<lparr>cu_txn = 0, cu_db = ''index_asset_transfer'', cu_pos = None\<rparr>"
    "env_cursors (two_env x) 6 = Some \<lparr>cu_txn = 0, cu_db = ''index_transfer_sender'', cu_pos = None\<rparr>"
    "env_cursors (two_env x) 7 = Some \<lparr>cu_txn = 0, cu_db = ''index_transfer_receiver'', cu_pos = None\<rparr>"
    "env_cursors (two_env x) 18 = Some \<lparr>cu_txn = 0, cu_db = ''wsv_pubkey_assets'', cu_pos = None\<rparr>"
    by (simp_all add: defs)
  obtain y where y: "env_txns (two_env x) 0 = Some y" "txn_rdonly y = False"
    "txn_dbs y ''tx_store'' = Some \<lparr>db_dup = False, db_tree = []\<rparr>"
    "txn_dbs y ''index_asset_transfer'' = Some \<lparr>db_dup = True, db_tree = []\<rparr>"
    "txn_dbs y ''index_transfer_sender'' = Some \<lparr>db_dup = True, db_tree = []\<rparr>"
    "txn_dbs y ''index_transfer_receiver'' = Some \<lparr>db_dup = True, db_tree = []\<rparr>"
    "txn_dbs y ''wsv_pubkey_assets'' =
       Some \<lparr>db_dup = True, db_tree = [(IStr ''1'', IBlob (dollar (Some 200) (Some 2)))]\<rparr>"
    by (simp add: defs)
  show ?thesis by (simp add: am_append_def on_txs_def txs_calls two_calls m c y)
qed

lemma pay_fits: "append_fits cell_fb pay_tx (db_now (two_db x))"
proof -
  have "vw_log (db_now (two_db x)) = []"
    by (simp add: two_db_def view_of_def log_of_def two_tree_at(1) txs_names_def)
  then show ?thesis using demo_fits [of 50]
    by (simp add: append_fits_def two_ledger key_size_ok_def MAXKEYSIZE_def SIZE_MOD_def)
qed

section \<open>Properties\<close>

text \<open>
  C3: every record is of the type its tree and key say, whatever the run.  The records of the log
  are transactions numbered from 1 without gaps; every record of an index of the commands other
  than transfers refers to a logged transaction of that creator that belongs in that index; an
  asset stands under its own identifier, an account under its own public key, a peer under its
  own address.  This holds of what the open transaction sees and of what is committed.
\<close>

theorem am_run_typed:
  assumes "lmdb_ok (fb_size F) L" and "fb_ok F" and "am_rel sha3 F e a d"
    and "typed_view F (db_now d)" and "typed_view F (db_committed d)"
    and "am_run sha3 F L (e, a) cs (e', a')"
  shows "typed_trees F (am_trees e' a') \<and> typed_trees F (dbs_tree (env_committed e'))"
proof -
  have p: "typed_people F v" if "typed_view F v" for v
    using that by (auto simp: typed_view_def typed_people_def typed_ledger_def)
  have "am_ok F e' a' \<and> typed_people F (view_of F (am_trees e' a'))
      \<and> typed_people F (view_of F (dbs_tree (env_committed e')))"
    by (rule am_run_views [OF assms(1-3,6)]) (use assms(4,5) p append_people in auto)
  then show ?thesis
    using people_typed am_ok_trees(1) am_okD(8) by (metis db_ok_def)
qed

theorem am_run_typed_witness:
  "\<exists>e a. am_run (\<lambda>_. zero_hash) cell_fb mem (start_env, start_am) [Append first_tx, Commit] (e, a)
    \<and> typed_trees cell_fb (dbs_tree (env_committed e))"
proof -
  obtain e a where r: "am_run (\<lambda>_. zero_hash) cell_fb mem (start_env, start_am) [Append first_tx, Commit] (e, a)"
    by (rule first_commit)
  have "typed_view cell_fb start_view"
    by (simp add: typed_view_def typed_ledger_def start_view_def empty_ledger_def)
  then have t: "typed_view cell_fb (db_now start_db)" "typed_view cell_fb (db_committed start_db)"
    by (simp_all add: start_db_def)
  from am_run_typed [OF mem_ok cell_fb_ok start_rel t r] r show ?thesis by blast
qed

text \<open>
  C4: only commands that add, remove or delete holdings change the supply of a currency.  If the
  transactions of a run never add or remove the currency, remove no account of a set \<open>A\<close>, and
  transfer it only inside \<open>A\<close>, in the one size and precision all records of it have, then what the
  accounts of \<open>A\<close> own of it together stays the same: for the open transaction and for what is
  committed, whichever transfers are rejected, commits lost or transactions rolled back.
\<close>

theorem am_run_conserves:
  assumes "lmdb_ok (fb_size F) L" and "fb_ok F" and "am_rel sha3 F e a d"
    and "finite A" and "T < 2 ^ 64" and "p \<le> 18"
    and "\<And>blob. Append blob \<in> set cs \<Longrightarrow> moves_only F A pk z p (tx_command (fb_transaction F blob))"
    and "holds F A pk z p T (vw_ledger (db_now d))" and "holds F A pk z p T (vw_ledger (db_committed d))"
    and "am_run sha3 F L (e, a) cs (e', a')"
  shows "(\<Sum>acc \<in> A. balance F (ledger_of F (am_trees e' a')) acc pk) = T
    \<and> (\<Sum>acc \<in> A. balance F (ledger_of F (dbs_tree (env_committed e'))) acc pk) = T"
proof -
  let ?Q = "\<lambda>v. holds F A pk z p T (vw_ledger v)"
  have s: "?Q \<lparr>vw_log = vw_log v @ [IBlob blob], vw_ledger = replay_step F (IBlob blob) (vw_ledger v)\<rparr>"
    if "Append blob \<in> set cs" "?Q v" for blob v
    using replay_cases [of F blob "vw_ledger v"] update_holds [OF assms(2,4-6) assms(7) [OF that(1)] that(2)] that(2)
    by auto
  have "am_ok F e' a' \<and> ?Q (view_of F (am_trees e' a')) \<and> ?Q (view_of F (dbs_tree (env_committed e')))"
    by (rule am_run_views [OF assms(1-3,10), where Q = ?Q, OF s assms(8,9)])
  then show ?thesis by (simp add: view_of_def holds_def supply_of_def)
qed

theorem am_run_conserves_witness:
  "\<exists>e a. am_run (\<lambda>_. zero_hash) cell_fb mem (two_env 200, two_am) [Append pay_tx] (e, a)
    \<and> balance cell_fb (ledger_of cell_fb (am_trees e a)) ''1'' ''lud''
      + balance cell_fb (ledger_of cell_fb (am_trees e a)) ''2'' ''lud'' = 200"
proof -
  obtain root e a where r: "am_append (\<lambda>_. zero_hash) cell_fb mem pay_tx (two_env 200, two_am) = (Inr root, (e, a))"
    using two_append by blast
  from run_append [OF run_start _ r] pay_fits
  have run: "am_run (\<lambda>_. zero_hash) cell_fb mem (two_env 200, two_am) [Append pay_tx] (e, a)"
    using am_relD(2) [OF two_rel] by simp
  have m: "moves_only cell_fb {''1'', ''2''} ''lud'' 100 2 (tx_command (fb_transaction cell_fb blob))"
    if "Append blob \<in> set [Append pay_tx]" for blob
    using that by (simp add: moves_only_def uniform_def read_precision_def)
  have h: "holds cell_fb {''1'', ''2''} ''lud'' 100 2 200 (vw_ledger (db_now (two_db 200)))"
    "holds cell_fb {''1'', ''2''} ''lud'' 100 2 200 (vw_ledger (db_committed (two_db 200)))"
    using two_assets by (simp_all add: holds_def supply_of_def balance_def uniform_def read_precision_def)
  from am_run_conserves [OF mem_ok cell_fb_ok two_rel _ _ _ m h run] run show ?thesis by auto
qed

end
