(* ===== verification/Spec2Isabelle.thy ===== *)
theory Spec2Isabelle
  imports Prelude Currency Circular_Stack Merkle_Refinement Merkle_Print Narrow_Merkle_Tree
    Wsv_Properties Tx_Store_Properties Ametsuchi_Properties Query_Properties Ledger_Invariants
begin

text \<open>
  A verification of Ametsuchi, the block store of Hyperledger Iroha (C++): a log of transactions
  with indices, a Merkle tree of their hashes, and the world state view, the ledger that the
  transactions build, all kept in one LMDB environment.

  \<^bold>\<open>The program and its theories.\<close>  The class \<^verbatim>\<open>Ametsuchi\<close> owns a \<^verbatim>\<open>TxStore\<close> and a \<^verbatim>\<open>WSV\<close>; the
  \<^verbatim>\<open>TxStore\<close> owns a \<^verbatim>\<open>MerkleTree\<close>; the \<^verbatim>\<open>WSV\<close> calculates with \<^verbatim>\<open>Currency\<close>.  All of them call
  LMDB and read flatbuffers.

    \<^item> \<open>Prelude\<close>: the errors (\<^verbatim>\<open>include/ametsuchi/exception.h\<close>), the two monads (\<open>error + 'a\<close>, and
      operations on a state that return a result beside the new state), \<open>size_t\<close> arithmetic on
      \<open>nat\<close> with the wrap-around written out, list lemmas.  \<open>runs\<close> is the Hoare-style predicate
      of operations that can only fail in the database.
    \<^item> \<open>Currency\<close> (\<^verbatim>\<open>currency.h\<close>, \<^verbatim>\<open>currency.cc\<close>): amounts on 64-bit words.
    \<^item> \<open>Circular_Stack\<close> (\<^verbatim>\<open>merkle_tree/circular_stack.h\<close>): the ring buffer and its iterator.
    \<^item> \<open>Merkle_Tree\<close>, \<open>Merkle_Refinement\<close> (\<^verbatim>\<open>merkle_tree/merkle_tree.h\<close>, \<^verbatim>\<open>merkle_tree.cc\<close>): the
      blocks as arrays, the pushes and rollbacks on them; the reference tree over a list of hashes
      (\<open>blk_of\<close>, \<open>merkle_root_of\<close>) and the relation \<open>hist_rel\<close> of a tree and its hashes.
      \<open>Merkle_Print\<close>: the debug output of the tree, with the line it prints as its result.
    \<^item> \<open>Narrow_Merkle_Tree\<close> (\<^verbatim>\<open>merkle_tree/narrow_merkle_tree.h\<close>): the tree that keeps a circular
      stack of cumulative hashes per layer, which no other class of the program uses, and its
      relation \<open>nm_rel\<close> to the hashes.  \<open>Accumulator\<close> states what it and \<^verbatim>\<open>MerkleTree\<close> have in
      common, as a locale interpreted on both.
    \<^item> \<open>Lmdb\<close>, \<open>Lmdb_Memory\<close>: LMDB as a record of functions, what its documentation promises
      (\<open>lmdb_ok\<close>), and a database in memory that keeps the promises.
    \<^item> \<open>Schema\<close> (\<^verbatim>\<open>schema/*.fbs\<close>): the tables the program reads, the accessors as a record of
      functions with the laws \<open>fb_ok\<close>; \<^verbatim>\<open>comparator.h\<close>.
    \<^item> \<open>Common\<close>, \<open>Store\<close>, \<open>Store_Opening\<close> (\<^verbatim>\<open>common.h\<close>): the calls into LMDB both stores share, and
      what they do to the trees of a store.
    \<^item> \<open>Query_Sessions\<close>: what the queries of both stores have in common, a cursor of the open
      transaction or one in a read transaction of their own.
    \<^item> \<open>Wsv\<close>, \<open>Wsv_Refinement\<close>, \<open>Wsv_Queries\<close>, \<open>Wsv_Properties\<close> (\<^verbatim>\<open>wsv.h\<close>, \<^verbatim>\<open>wsv.cc\<close>): every command and query;
      the abstract ledger, \<open>spec_update\<close>, and the refinement \<open>wsv_follows\<close>.
    \<^item> \<open>Tx_Store\<close>, \<open>Tx_Store_Refinement\<close>, \<open>Tx_Store_Queries\<close>, \<open>Tx_Store_Properties\<close> (\<^verbatim>\<open>tx_store.h\<close>,
      \<^verbatim>\<open>tx_store.cc\<close>): appending, the indices, commit and reload of the Merkle tree, queries.
    \<^item> \<open>Opening\<close>: \<^verbatim>\<open>init\<close> of both stores in a new transaction.
    \<^item> \<open>Ametsuchi\<close>, \<open>Ametsuchi_Refinement\<close>, \<open>Ametsuchi_Runs\<close>, \<open>Ametsuchi_Reopen\<close>,
      \<open>Progress\<close>, \<open>Ametsuchi_Example\<close>, \<open>Ametsuchi_Properties\<close> (\<^verbatim>\<open>ametsuchi.h\<close>,
      \<^verbatim>\<open>ametsuchi.cc\<close>): the database as a whole, its specification as a state machine
      (\<open>spec_run\<close>), its runs (\<open>am_run\<close>), what is there after it is opened again, and that
      operations return when the calls of LMDB do not fail (\<open>lmdb_live\<close>).  \<open>Memory_Progress\<close> and
      \<open>Memory_Failure\<close> instantiate the last with the database in memory, and with one that cannot
      commit, for the witnesses.
      \<open>Ametsuchi_Queries\<close>, \<open>Query_Properties\<close>: queries on committed data, beside an open
      transaction.  \<open>Ledger_Invariants\<close>: what any run keeps, the types of all records and the
      supply of a currency.

  \<^bold>\<open>Interfaces.\<close>  Five locales, each interpreted: \<open>bounded_stack\<close>, what a client of the ring buffer relies on;
  \<open>accumulator\<close>, what both Merkle trees promise; \<open>store_part\<close>, that a component is not affected by
  calls on trees of others, by the log and by the ledger; \<open>two_stores\<close>, which extends it to the two
  of them in one transaction, as \<^verbatim>\<open>Ametsuchi\<close> uses them; and \<open>live_store\<close>, an LMDB whose calls
  keep an invariant and do not fail, in which opening, commit and rollback are shown to return.

  \<^bold>\<open>State and errors.\<close>  A class is a record with the source's members; a member function is a
  function on the environment and the record.  Every \<^verbatim>\<open>throw\<close> is a value of \<open>error\<close>; so are a
  failed \<^verbatim>\<open>assert\<close>, undefined behaviour (\<open>Undefined\<close>), an exception of the standard library
  (\<open>Out_Of_Range\<close>) and a loop that does not end (\<open>Diverges\<close>).  An operation that fails leaves the
  state as far as it had changed it, as the code does.

  \<^bold>\<open>What the theorems show.\<close>  Every operation, from a state that satisfies the invariant of its
  component, either reports a fatal error of the database (\<open>InternalError FATAL\<close>, whose state is
  not used any more) or keeps the invariant and does what the abstract specification says, errors
  of the ledger included.  Over any sequence of operations the ledger is the replay of the log,
  and what was committed is there after a restart; every record is of the type its key says, and
  only commands that add or remove a currency change its supply.  A query on committed data sees
  what was committed last.  Other theorems state where the code does
  something else than its comments or its names say.

  \<^bold>\<open>Parameters.\<close>  LMDB, the calls on its environment and \<^verbatim>\<open>mkdir\<close>, the flatbuffers accessors, and
  the hash function SHA3 are not code of the repository: they are arguments of the definitions,
  with hypotheses that state what their documentation says.  LMDB may fail at any call, and the
  environment may be refused with any code; where it is one the program does not look for, the
  program goes on without an environment, which is \<open>Undefined\<close>.  On the database in memory the
  witnesses evaluate the code itself, to a success where there is one.

  \<^bold>\<open>Bounds and loops.\<close>  The loops over the records of LMDB are partial functions; that they end is
  proved from the promises of LMDB.  The loop of \<^verbatim>\<open>height\<close> in the narrow tree is one too: it
  does not end with capacity 1; with capacity 2 or more it ends as long as the number of hashes times
  the capacity fits into a \<^verbatim>\<open>size_t\<close>.  All other loops are structural or have a measure.  Merkle
  blocks have \<open>2 ^ k\<close> leaves with \<open>1 \<le> k \<le> 31\<close>, so that no index wraps; the program uses
  \<open>k = 10\<close>.  The number of transactions stays below \<open>2 ^ 64\<close>.

  \<^bold>\<open>Not modelled.\<close>  The logger (\<^verbatim>\<open>common.cc\<close>) and log output,
  \<^verbatim>\<open>path_diff\<close> of the narrow tree (floating point, never called), the lifetime of the memory that
  a query returns (it is a value here; the code returns pointers into LMDB), the statistics \<^verbatim>\<open>mst\<close> that are written and never read, tests, their generator and benchmarks.
  Reader threads: LMDB gives each its own snapshot, and a query here runs between two operations.
\<close>

end
